(* ===== verification/Slide_Prelude.thy ===== *)
theory Slide_Prelude
  imports Main "HOL-Library.Word"
begin

text \<open>
  Shared vocabulary of the development: the machine types of the Go code, Go's
  \<open>(value, error)\<close> results as sums, and the generic facts on association lists, sums
  over lists and words that the component theories use.
\<close>

subsection \<open>Machine types and results\<close>

type_synonym byte = "8 word"
type_synonym uint16 = "16 word"
type_synonym uint32 = "32 word"
type_synonym uint64 = "64 word"

text \<open>\<open>ids.ID\<close> ([32]byte) and \<open>ids.NodeID\<close> ([20]byte), as the bytes they hold.\<close>

type_synonym ids_id = "byte list"
type_synonym node_id = "byte list"
type_synonym bytes = "byte list"

text \<open>\<open>ids.ToID\<close> accepts exactly 32 bytes; \<open>None\<close> is its error.\<close>

definition ToID :: "bytes \<Rightarrow> ids_id option" where
  "ToID bs = (if length bs \<noteq> 32 then None else Some bs)"

text \<open>
  Times are nanoseconds since the Unix epoch. An \<open>int64\<close> is an integer in its range; sums that may
  leave the range are wrapped where the code computes them.
\<close>

type_synonym gotime = int

definition wrap64 :: "int \<Rightarrow> int" where
  "wrap64 x = (x + 2 ^ 63) mod 2 ^ 64 - 2 ^ 63"

lemma wrap64_id: "\<lbrakk>- (2 ^ 63) \<le> x; x < 2 ^ 63\<rbrakk> \<Longrightarrow> wrap64 x = x"
  by (simp add: wrap64_def)

text \<open>A Go function with results \<open>(T, error)\<close>: \<open>Inl\<close> is a non-nil error.\<close>

type_synonym ('e, 'a) go_result = "'e + 'a"

definition res_bind :: "('e, 'a) go_result \<Rightarrow> ('a \<Rightarrow> ('e, 'b) go_result) \<Rightarrow> ('e, 'b) go_result" where
  "res_bind r f = (case r of Inl e \<Rightarrow> Inl e | Inr x \<Rightarrow> f x)"

lemma res_bind_simps [simp]:
  "res_bind (Inl e) f = Inl e"
  "res_bind (Inr x) f = f x"
  by (simp_all add: res_bind_def)

lemma res_bind_Inr_iff:
  "res_bind r f = Inr y \<longleftrightarrow> (\<exists>x. r = Inr x \<and> f x = Inr y)"
  by (cases r) auto

subsection \<open>Procedures\<close>

text \<open>
  Code with effects: a function of a state that ends in a panic, in an error it returns, or in a
  value. The state at the end is kept in all three cases.
\<close>

datatype ('e, 'a) outcome = Panic | Fail 'e | Done 'a

type_synonym ('s, 'e, 'a) proc = "'s \<Rightarrow> ('e, 'a) outcome \<times> 's"

definition p_ret :: "'a \<Rightarrow> ('s, 'e, 'a) proc" where
  "p_ret x s = (Done x, s)"

definition p_fail :: "'e \<Rightarrow> ('s, 'e, 'a) proc" where
  "p_fail e s = (Fail e, s)"

definition p_panic :: "('s, 'e, 'a) proc" where
  "p_panic s = (Panic, s)"

definition p_bind :: "('s, 'e, 'a) proc \<Rightarrow> ('a \<Rightarrow> ('s, 'e, 'b) proc) \<Rightarrow> ('s, 'e, 'b) proc" where
  "p_bind m f s = (case m s of (Panic, s') \<Rightarrow> (Panic, s') | (Fail e, s') \<Rightarrow> (Fail e, s') | (Done x, s') \<Rightarrow> f x s')"

text \<open>The result of a fallible call, its error mapped by the caller; and a call whose error is inspected.\<close>

definition p_of :: "('d \<Rightarrow> 'e) \<Rightarrow> ('d, 'a) go_result \<Rightarrow> ('s, 'e, 'a) proc" where
  "p_of f r = (case r of Inl d \<Rightarrow> p_fail (f d) | Inr x \<Rightarrow> p_ret x)"

definition p_check :: "'e option \<Rightarrow> ('s, 'e, unit) proc" where
  "p_check r = (case r of Some e \<Rightarrow> p_fail e | None \<Rightarrow> p_ret ())"

definition p_try :: "('s, 'd, 'a) proc \<Rightarrow> ('s, 'e, ('d, 'a) go_result) proc" where
  "p_try m s = (case m s of (Panic, s') \<Rightarrow> (Panic, s') | (Fail e, s') \<Rightarrow> (Done (Inl e), s') | (Done x, s') \<Rightarrow> (Done (Inr x), s'))"

text \<open>A deferred action runs at the end in every case.\<close>

definition p_defer :: "('s \<Rightarrow> 's) \<Rightarrow> ('s, 'e, 'a) proc \<Rightarrow> ('s, 'e, 'a) proc" where
  "p_defer d m s = (case m s of (r, s') \<Rightarrow> (r, d s'))"

definition p_get :: "('s \<Rightarrow> 'a) \<Rightarrow> ('s, 'e, 'a) proc" where
  "p_get f s = (Done (f s), s)"

definition p_upd :: "('s \<Rightarrow> 's) \<Rightarrow> ('s, 'e, unit) proc" where
  "p_upd f s = (Done (), f s)"

lemma p_simps [simp]:
  "p_ret x s = (Done x, s)" "p_fail e s = (Fail e, s)" "p_panic s = (Panic, s)"
  "p_get f s = (Done (f s), s)" "p_upd g s = (Done (), g s)"
  by (simp_all add: p_ret_def p_fail_def p_panic_def p_get_def p_upd_def)

lemma p_of_simps [simp]: "p_of f (Inl d) = p_fail (f d)" "p_of f (Inr x) = p_ret x"
  by (simp_all add: p_of_def)

lemma p_check_simps [simp]: "p_check None = p_ret ()" "p_check (Some e) = p_fail e"
  by (simp_all add: p_check_def)

text \<open>A successful sequence is two successful parts.\<close>

lemma p_bind_DoneE:
  assumes "p_bind m f s = (Done y, s')"
  obtains x s1 where "m s = (Done x, s1)" "f x s1 = (Done y, s')"
  using assms by (auto simp: p_bind_def split: prod.splits outcome.splits)

lemma p_bind_FailE:
  assumes "p_bind m f s = (Fail e, s')"
  obtains "m s = (Fail e, s')" | x s1 where "m s = (Done x, s1)" "f x s1 = (Fail e, s')"
  using assms by (auto simp: p_bind_def split: prod.splits outcome.splits)

lemma p_bind_eq: "m s = (Done x, s1) \<Longrightarrow> p_bind m f s = f x s1" "m s = (Fail e, s1) \<Longrightarrow> p_bind m f s = (Fail e, s1)"
  "m s = (Panic, s1) \<Longrightarrow> p_bind m f s = (Panic, s1)"
  by (simp_all add: p_bind_def)

text \<open>
  Triples: from a state with \<open>P\<close>, a run that returns ends in \<open>Q\<close>, and one that fails in \<open>E\<close>. Nothing is
  said of a run that panics.
\<close>

definition hoare :: "('s \<Rightarrow> bool) \<Rightarrow> ('s, 'e, 'a) proc \<Rightarrow> ('a \<Rightarrow> 's \<Rightarrow> bool) \<Rightarrow> ('s \<Rightarrow> bool) \<Rightarrow> bool" where
  "hoare P m Q E \<longleftrightarrow> (\<forall>s. P s \<longrightarrow> (case m s of (Panic, s') \<Rightarrow> True | (Fail e, s') \<Rightarrow> E s' | (Done x, s') \<Rightarrow> Q x s'))"

named_theorems hoare_rules \<open>rules for triples\<close>

lemma hoareI:
  assumes "\<And>s x s'. P s \<Longrightarrow> m s = (Done x, s') \<Longrightarrow> Q x s'" "\<And>s e s'. P s \<Longrightarrow> m s = (Fail e, s') \<Longrightarrow> E s'"
  shows "hoare P m Q E"
  unfolding hoare_def
proof (intro allI impI)
  fix s
  assume P: "P s"
  obtain r s' where r: "m s = (r, s')" by (cases "m s")
  show "case m s of (Panic, s') \<Rightarrow> True | (Fail e, s') \<Rightarrow> E s' | (Done x, s') \<Rightarrow> Q x s'"
    by (cases r) (simp_all add: r assms(1) [OF P] assms(2) [OF P])
qed

lemma hoareD:
  assumes "hoare P m Q E" "P s"
  shows "m s = (Done x, s') \<Longrightarrow> Q x s'" "m s = (Fail e, s') \<Longrightarrow> E s'"
  using assms(1) [unfolded hoare_def, rule_format, OF assms(2)] by simp_all

lemma hoare_bind [hoare_rules]:
  assumes "hoare P m R E" "\<And>x. hoare (R x) (f x) Q E"
  shows "hoare P (p_bind m f) Q E"
proof (rule hoareI)
  fix s y s'
  assume P: "P s" and r: "p_bind m f s = (Done y, s')"
  from r obtain x s1 where x: "m s = (Done x, s1)" "f x s1 = (Done y, s')" by (rule p_bind_DoneE)
  from hoareD(1) [OF assms(1) P x(1)] have "R x s1" .
  from hoareD(1) [OF assms(2) this x(2)] show "Q y s'" .
next
  fix s e s'
  assume P: "P s" and r: "p_bind m f s = (Fail e, s')"
  from r show "E s'"
  proof (rule p_bind_FailE)
    assume "m s = (Fail e, s')"
    from hoareD(2) [OF assms(1) P this] show "E s'" .
  next
    fix x s1
    assume x: "m s = (Done x, s1)" "f x s1 = (Fail e, s')"
    from hoareD(1) [OF assms(1) P x(1)] have "R x s1" .
    from hoareD(2) [OF assms(2) this x(2)] show "E s'" .
  qed
qed

lemma hoare_weaken:
  assumes "hoare P' m Q E" "\<And>s. P s \<Longrightarrow> P' s"
  shows "hoare P m Q E"
  by (rule hoareI) (use hoareD [OF assms(1)] assms(2) in blast)+

lemma hoare_ret [hoare_rules]: "(\<And>s. P s \<Longrightarrow> Q x s) \<Longrightarrow> hoare P (p_ret x) Q E"
  by (simp add: hoare_def)

lemma hoare_fail [hoare_rules]: "(\<And>s. P s \<Longrightarrow> E s) \<Longrightarrow> hoare P (p_fail e) Q E"
  by (simp add: hoare_def)

lemma hoare_panic [hoare_rules]: "hoare P p_panic Q E"
  by (simp add: hoare_def)

lemma hoare_get [hoare_rules]: "(\<And>s. P s \<Longrightarrow> Q (f s) s) \<Longrightarrow> hoare P (p_get f) Q E"
  by (simp add: hoare_def)

lemma hoare_upd [hoare_rules]: "(\<And>s. P s \<Longrightarrow> Q () (g s)) \<Longrightarrow> hoare P (p_upd g) Q E"
  by (simp add: hoare_def)

lemma hoare_post:
  assumes "hoare P m Q E" "\<And>x s. Q x s \<Longrightarrow> Q' x s"
  shows "hoare P m Q' E"
proof (rule hoareI)
  show "Q' x s'" if "P s" "m s = (Done x, s')" for s x s' by (rule assms(2) [OF hoareD(1) [OF assms(1) that]])
  show "E s'" if "P s" "m s = (Fail e, s')" for s e s' by (rule hoareD(2) [OF assms(1) that])
qed

lemma hoare_pure:
  assumes "\<And>s. P s \<Longrightarrow> A" "A \<Longrightarrow> hoare P m Q E"
  shows "hoare P m Q E"
proof (rule hoareI)
  show "Q x s'" if "P s" "m s = (Done x, s')" for s x s' by (rule hoareD(1) [OF assms(2) [OF assms(1) [OF that(1)]] that])
  show "E s'" if "P s" "m s = (Fail e, s')" for s e s' by (rule hoareD(2) [OF assms(2) [OF assms(1) [OF that(1)]] that])
qed

lemma hoare_of [hoare_rules]: "\<lbrakk>\<And>s x. P s \<Longrightarrow> r = Inr x \<Longrightarrow> Q x s; \<And>s. P s \<Longrightarrow> E s\<rbrakk> \<Longrightarrow> hoare P (p_of f r) Q E"
  by (cases r) (simp_all add: hoare_def)

lemma hoare_check [hoare_rules]: "\<lbrakk>\<And>s. P s \<Longrightarrow> r = None \<Longrightarrow> Q () s; \<And>s. P s \<Longrightarrow> E s\<rbrakk> \<Longrightarrow> hoare P (p_check r) Q E"
  by (cases r) (simp_all add: hoare_def)

subsection \<open>Words\<close>

lemma unat_lt2p: "unat (x :: 'a::len word) < 2 ^ LENGTH('a)"
  by simp

lemma uint_add_no_overflow:
  fixes a b :: "'a::len word"
  assumes "unat a + unat b < 2 ^ LENGTH('a)"
  shows "uint (a + b) = uint a + uint b"
proof -
  have "unat (a + b) = unat a + unat b" using unat_add_lem [THEN iffD1, OF assms] .
  then show ?thesis by (simp only: uint_nat of_nat_add)
qed

lemma uint_diff_no_underflow: "b \<le> a \<Longrightarrow> uint (a - b) = uint a - uint (b :: 'a::len word)"
  by (simp only: uint_nat unat_sub word_le_nat_alt of_nat_diff)

subsection \<open>Sums over lists and removal by swapping with the last element\<close>

lemma sum_list_update_group:
  fixes xs :: "'a::ab_group_add list"
  shows "k < length xs \<Longrightarrow> sum_list (xs[k := x]) = sum_list xs + x - xs ! k"
  by (induction xs arbitrary: k) (auto simp: algebra_simps split: nat.split)

lemma swap_remove_nth:
  "\<lbrakk>j < length xs - 1; i < length xs\<rbrakk> \<Longrightarrow>
    take (length xs - 1) (xs[i := x]) ! j = (if j = i then x else xs ! j)"
  by (simp add: nth_list_update)

lemma sum_list_swap_remove:
  fixes xs :: "'a::ab_group_add list"
  assumes "i < length xs"
  shows "sum_list (take (length xs - 1) (xs[i := xs ! (length xs - 1)])) = sum_list xs - xs ! i"
proof -
  let ?ys = "xs[i := xs ! (length xs - 1)]"
  have ne: "?ys \<noteq> []" using assms by auto
  have "last ?ys = xs ! (length xs - 1)"
    unfolding last_conv_nth [OF ne] using assms by (simp add: nth_list_update)
  moreover have "take (length xs - 1) ?ys = butlast ?ys" by (simp add: butlast_conv_take)
  moreover have "sum_list ?ys = sum_list (butlast ?ys) + last ?ys"
    using ne append_butlast_last_id [OF ne] sum_list_append [of "butlast ?ys" "[last ?ys]"] by simp
  ultimately show ?thesis using sum_list_update_group [OF assms, of "xs ! (length xs - 1)"] by simp
qed

end
