(* ===== verification/Safe_Math.thy ===== *)
theory Safe_Math
  imports Slide_Prelude
begin

unbundle bit_operations_syntax

text \<open>
  Overflow-checked unsigned arithmetic, \<open>utils/math/safe_math.go\<close>. The Go functions are
  generic in an unsigned type; the model is generic in the width of the word.
\<close>

datatype math_err = ErrOverflow | ErrUnderflow

definition MaxUint :: "'a::len word" where
  "MaxUint = NOT 0"

definition Add :: "'a::len word \<Rightarrow> 'a word \<Rightarrow> (math_err, 'a word) go_result" where
  "Add a b = (if a > MaxUint - b then Inl ErrOverflow else Inr (a + b))"

definition Sub :: "'a::len word \<Rightarrow> 'a word \<Rightarrow> (math_err, 'a word) go_result" where
  "Sub a b = (if a < b then Inl ErrUnderflow else Inr (a - b))"

definition Mul :: "'a::len word \<Rightarrow> 'a word \<Rightarrow> (math_err, 'a word) go_result" where
  "Mul a b = (if b \<noteq> 0 \<and> a > MaxUint div b then Inl ErrOverflow else Inr (a * b))"

definition AbsDiff :: "'a::len word \<Rightarrow> 'a word \<Rightarrow> 'a word" where
  "AbsDiff a b = max a b - min a b"

subsection \<open>Exactness\<close>

lemma unat_MaxUint: "unat (MaxUint :: 'a::len word) = 2 ^ LENGTH('a) - 1"
  by (simp add: MaxUint_def unsigned_minus_1_eq_mask mask_eq_exp_minus_1)

lemma unat_MaxUint_minus: "unat (MaxUint - b :: 'a::len word) = 2 ^ LENGTH('a) - 1 - unat b"
proof -
  have "unat b \<le> unat (MaxUint :: 'a word)"
    unfolding unat_MaxUint using unat_lt2p [of b] by linarith
  then show ?thesis
    by (simp add: unat_sub word_le_nat_alt unat_MaxUint)
qed

lemma Add_cases:
  fixes a b :: "'a::len word"
  shows "Add a b = (if unat a + unat b < 2 ^ LENGTH('a) then Inr (a + b) else Inl ErrOverflow)"
proof -
  have "a > MaxUint - b \<longleftrightarrow> \<not> unat a + unat b < 2 ^ LENGTH('a)"
    unfolding word_less_nat_alt unat_MaxUint_minus using unat_lt2p [of b] by linarith
  then show ?thesis by (simp add: Add_def)
qed

lemma Add_Inr_iff: "Add a b = Inr c \<longleftrightarrow> unat c = unat a + unat b"
proof
  assume "Add a b = Inr c"
  then show "unat c = unat a + unat b"
    by (auto simp: Add_cases unat_add_lem [symmetric] split: if_splits)
next
  assume c: "unat c = unat a + unat b"
  then have "unat a + unat b < 2 ^ LENGTH('a)"
    using unat_lt2p [of c] by simp
  moreover from this c have "c = a + b"
    by (simp add: word_unat_eq_iff unat_add_lem [THEN iffD1])
  ultimately show "Add a b = Inr c"
    by (simp add: Add_cases)
qed

lemma Sub_Inr_iff: "Sub a b = Inr c \<longleftrightarrow> unat a = unat b + unat c"
proof
  assume "Sub a b = Inr c"
  then show "unat a = unat b + unat c"
    by (auto simp: Sub_def not_less unat_sub word_le_nat_alt split: if_splits)
next
  assume h: "unat a = unat b + unat c"
  then have le: "b \<le> a" by (simp add: word_le_nat_alt)
  with h have "c = a - b" by (simp add: word_unat_eq_iff unat_sub)
  with le show "Sub a b = Inr c" by (simp add: Sub_def)
qed

lemma Mul_cases:
  fixes a b :: "'a::len word"
  shows "Mul a b = (if unat a * unat b < 2 ^ LENGTH('a) then Inr (a * b) else Inl ErrOverflow)"
proof (cases "b = 0")
  case True
  then show ?thesis by (simp add: Mul_def)
next
  case False
  then have b: "0 < unat b" by (simp add: unat_gt_0)
  have "a > MaxUint div b \<longleftrightarrow> (2 ^ LENGTH('a) - 1) div unat b < unat a"
    by (simp add: word_less_nat_alt unat_div unat_MaxUint)
  also have "\<dots> \<longleftrightarrow> 2 ^ LENGTH('a) - 1 < unat a * unat b"
    using b by (simp add: div_less_iff_less_mult)
  also have "\<dots> \<longleftrightarrow> \<not> unat a * unat b < 2 ^ LENGTH('a)"
  proof -
    have "m - 1 < n \<longleftrightarrow> \<not> n < m" if "0 < m" for m n :: nat
      using that by arith
    then show ?thesis by simp
  qed
  finally show ?thesis using False by (simp add: Mul_def)
qed

lemma Mul_Inr_iff: "Mul a b = Inr c \<longleftrightarrow> unat c = unat a * unat b"
proof
  assume "Mul a b = Inr c"
  then show "unat c = unat a * unat b"
    by (auto simp: Mul_cases unat_mult_lem [symmetric] split: if_splits)
next
  assume c: "unat c = unat a * unat b"
  then have "unat a * unat b < 2 ^ LENGTH('a)"
    using unat_lt2p [of c] by simp
  moreover from this c have "c = a * b"
    by (simp add: word_unat_eq_iff unat_mult_lem [THEN iffD1])
  ultimately show "Mul a b = Inr c"
    by (simp add: Mul_cases)
qed

lemma unat_AbsDiff: "int (unat (AbsDiff a b)) = \<bar>int (unat a) - int (unat b)\<bar>"
proof (cases "a \<le> b")
  case True
  then have "unat (AbsDiff a b) = unat b - unat a" and "unat a \<le> unat b"
    by (simp_all add: AbsDiff_def unat_sub word_le_nat_alt)
  then show ?thesis by linarith
next
  case False
  then have "unat (AbsDiff a b) = unat a - unat b" and "unat b \<le> unat a"
    by (simp_all add: AbsDiff_def unat_sub word_le_nat_alt)
  then show ?thesis by linarith
qed

text \<open>
  C38. The checked operations of \<open>safe_math.go\<close> are exact at every word width: addition,
  subtraction and multiplication return a value exactly when it is the mathematical result, so an
  error is returned exactly when that result does not fit, and \<open>AbsDiff\<close> is the distance.
\<close>

theorem safe_math_exact:
  fixes a b :: "'a::len word"
  shows "(\<forall>c. Add a b = Inr c \<longleftrightarrow> unat c = unat a + unat b)
    \<and> (\<forall>c. Sub a b = Inr c \<longleftrightarrow> unat b + unat c = unat a)
    \<and> (\<forall>c. Mul a b = Inr c \<longleftrightarrow> unat c = unat a * unat b)
    \<and> (Add a b = Inl ErrOverflow \<longleftrightarrow> 2 ^ LENGTH('a) \<le> unat a + unat b)
    \<and> (Sub a b = Inl ErrUnderflow \<longleftrightarrow> unat a < unat b)
    \<and> (Mul a b = Inl ErrOverflow \<longleftrightarrow> 2 ^ LENGTH('a) \<le> unat a * unat b)
    \<and> int (unat (AbsDiff a b)) = \<bar>int (unat a) - int (unat b)\<bar>"
proof (intro conjI)
  show "\<forall>c. Add a b = Inr c \<longleftrightarrow> unat c = unat a + unat b" by (simp add: Add_Inr_iff)
  show "\<forall>c. Sub a b = Inr c \<longleftrightarrow> unat b + unat c = unat a" by (auto simp: Sub_Inr_iff)
  show "\<forall>c. Mul a b = Inr c \<longleftrightarrow> unat c = unat a * unat b" by (simp add: Mul_Inr_iff)
  show "Add a b = Inl ErrOverflow \<longleftrightarrow> 2 ^ LENGTH('a) \<le> unat a + unat b"
    by (simp add: Add_cases not_less)
  show "Sub a b = Inl ErrUnderflow \<longleftrightarrow> unat a < unat b"
    by (simp add: Sub_def word_less_nat_alt)
  show "Mul a b = Inl ErrOverflow \<longleftrightarrow> 2 ^ LENGTH('a) \<le> unat a * unat b"
    by (simp add: Mul_cases not_less)
  show "int (unat (AbsDiff a b)) = \<bar>int (unat a) - int (unat b)\<bar>" by (rule unat_AbsDiff)
qed

end
