(* ===== verification/Linked_Hashmap.thy ===== *)
theory Linked_Hashmap
  imports Slide_Prelude
begin

text \<open>
  The insertion-ordered hash map of \<open>utils/linkedhashmap\<close>. The Go structure is a
  built-in map from keys to elements of a doubly linked \<open>container/list\<close>; both share the
  elements, so the model keeps an explicit store: an element is an address, \<open>elems\<close> gives the
  \<open>keyValue\<close> an element holds, \<open>entryList\<close> is the list's elements from front to back and
  \<open>entryMap\<close> the built-in map. Removed elements stay in the store, as Go keeps them while an
  iterator points to them. The exported methods take the lock and call the unexported ones that
  are modelled here.

  The second half abstracts the pointer structure to an association list from oldest to newest
  and states the interface that the caches rely on as a locale.
\<close>

record ('k, 'v) lhm =
  entryMap :: "'k \<rightharpoonup> nat"
  entryList :: "nat list"
  elems :: "nat \<rightharpoonup> 'k \<times> 'v"
  nextAddr :: nat

definition lh_new :: "('k, 'v) lhm" where
  "lh_new = \<lparr>entryMap = Map.empty, entryList = [], elems = Map.empty, nextAddr = 0\<rparr>"

definition lh_put :: "('k, 'v) lhm \<Rightarrow> 'k \<Rightarrow> 'v \<Rightarrow> ('k, 'v) lhm" where
  "lh_put lh k v =
     (case entryMap lh k of
        Some e \<Rightarrow> lh\<lparr>entryList := remove1 e (entryList lh) @ [e],
                       elems := (elems lh)(e \<mapsto> (k, v))\<rparr>
      | None \<Rightarrow>
          (let e = nextAddr lh in
           lh\<lparr>entryMap := (entryMap lh)(k \<mapsto> e),
              entryList := entryList lh @ [e],
              elems := (elems lh)(e \<mapsto> (k, v)),
              nextAddr := Suc e\<rparr>))"

definition lh_get :: "('k, 'v) lhm \<Rightarrow> 'k \<Rightarrow> 'v option" where
  "lh_get lh k =
     (case entryMap lh k of Some e \<Rightarrow> map_option snd (elems lh e) | None \<Rightarrow> None)"

definition lh_delete :: "('k, 'v) lhm \<Rightarrow> 'k \<Rightarrow> bool \<times> ('k, 'v) lhm" where
  "lh_delete lh k =
     (case entryMap lh k of
        Some e \<Rightarrow> (True, lh\<lparr>entryList := remove1 e (entryList lh),
                              entryMap := (entryMap lh)(k := None)\<rparr>)
      | None \<Rightarrow> (False, lh))"

definition lh_len :: "('k, 'v) lhm \<Rightarrow> nat" where
  "lh_len lh = card (dom (entryMap lh))"

definition lh_oldest :: "('k, 'v) lhm \<Rightarrow> ('k \<times> 'v) option" where
  "lh_oldest lh = (case entryList lh of [] \<Rightarrow> None | e # _ \<Rightarrow> elems lh e)"

definition lh_newest :: "('k, 'v) lhm \<Rightarrow> ('k \<times> 'v) option" where
  "lh_newest lh = (case rev (entryList lh) of [] \<Rightarrow> None | e # _ \<Rightarrow> elems lh e)"

subsection \<open>Iterators\<close>

text \<open>
  \<open>iterator.go\<close>: \<open>it_kv\<close> is the current key and value, \<open>None\<close> for Go's zero values.
  \<open>elem_next\<close> is \<open>list.Element.Next\<close>: the element after \<open>e\<close>, nil at the back and for an
  element that is no longer in the list.
\<close>

record ('k, 'v) lh_iter =
  it_kv :: "('k \<times> 'v) option"
  it_next :: "nat option"
  initialized :: bool
  exhausted :: bool

definition lh_NewIterator :: "('k, 'v) lh_iter" where
  "lh_NewIterator = \<lparr>it_kv = None, it_next = None, initialized = False, exhausted = False\<rparr>"

fun elem_next :: "nat \<Rightarrow> nat list \<Rightarrow> nat option" where
  "elem_next e [] = None"
| "elem_next e (x # xs) =
     (if x = e then (case xs of [] \<Rightarrow> None | y # _ \<Rightarrow> Some y) else elem_next e xs)"

definition it_advance :: "('k, 'v) lhm \<Rightarrow> nat \<Rightarrow> ('k, 'v) lh_iter \<Rightarrow> bool \<times> ('k, 'v) lh_iter" where
  "it_advance lh e it =
     (let nx = elem_next e (entryList lh) in
      (True, it\<lparr>it_kv := elems lh e, it_next := nx, exhausted := (nx = None)\<rparr>))"

definition it_Next :: "('k, 'v) lhm \<Rightarrow> ('k, 'v) lh_iter \<Rightarrow> bool \<times> ('k, 'v) lh_iter" where
  "it_Next lh it =
     (if exhausted it then (False, it\<lparr>it_kv := None, it_next := None\<rparr>)
      else if \<not> initialized it then
        (case entryList lh of
           [] \<Rightarrow> (False, it\<lparr>initialized := True, exhausted := True, it_kv := None, it_next := None\<rparr>)
         | e # _ \<Rightarrow> it_advance lh e (it\<lparr>initialized := True, it_next := Some e\<rparr>))
      else
        (case it_next it of
           Some e \<Rightarrow> it_advance lh e it
         | None \<Rightarrow> (False, it)))"

text \<open>The client's loop \<open>for it.Next() { ... it.Key(), it.Value() ... }\<close>, at most \<open>n\<close> rounds.\<close>

fun it_collect :: "nat \<Rightarrow> ('k, 'v) lhm \<Rightarrow> ('k, 'v) lh_iter \<Rightarrow> ('k \<times> 'v) option list" where
  "it_collect 0 lh it = []"
| "it_collect (Suc n) lh it =
     (case it_Next lh it of (ok, it') \<Rightarrow> if ok then it_kv it' # it_collect n lh it' else [])"

subsection \<open>Well-formedness and abstraction\<close>

definition lh_inv :: "('k, 'v) lhm \<Rightarrow> bool" where
  "lh_inv lh \<longleftrightarrow>
     distinct (entryList lh)
     \<and> (\<forall>e\<in>set (entryList lh). e < nextAddr lh \<and> (\<exists>k v. elems lh e = Some (k, v) \<and> entryMap lh k = Some e))
     \<and> (\<forall>k e. entryMap lh k = Some e \<longrightarrow> e \<in> set (entryList lh) \<and> (\<exists>v. elems lh e = Some (k, v)))"

definition lh_al :: "('k, 'v) lhm \<Rightarrow> ('k \<times> 'v) list" where
  "lh_al lh = map (\<lambda>e. the (elems lh e)) (entryList lh)"

text \<open>The abstract operations, on an association list from oldest to newest.\<close>

definition al_del :: "'k \<Rightarrow> ('k \<times> 'v) list \<Rightarrow> ('k \<times> 'v) list" where
  "al_del k al = filter (\<lambda>p. fst p \<noteq> k) al"

definition al_put :: "'k \<Rightarrow> 'v \<Rightarrow> ('k \<times> 'v) list \<Rightarrow> ('k \<times> 'v) list" where
  "al_put k v al = al_del k al @ [(k, v)]"

lemma lh_invI:
  assumes "distinct (entryList lh)"
    and "\<And>e. e \<in> set (entryList lh) \<Longrightarrow>
      e < nextAddr lh \<and> (\<exists>k v. elems lh e = Some (k, v) \<and> entryMap lh k = Some e)"
    and "\<And>k e. entryMap lh k = Some e \<Longrightarrow> e \<in> set (entryList lh) \<and> (\<exists>v. elems lh e = Some (k, v))"
  shows "lh_inv lh"
  using assms by (simp add: lh_inv_def)

lemma lh_inv_mapD:
  assumes "lh_inv lh" and "entryMap lh k = Some e"
  obtains v where "e \<in> set (entryList lh)" and "elems lh e = Some (k, v)" and "e < nextAddr lh"
  using assms unfolding lh_inv_def by blast

lemma lh_inv_listD:
  assumes "lh_inv lh" and "e \<in> set (entryList lh)"
  obtains k v where "elems lh e = Some (k, v)" and "entryMap lh k = Some e" and "e < nextAddr lh"
  using assms unfolding lh_inv_def by blast

lemma lh_inv_inj:
  assumes "lh_inv lh" and "entryMap lh k = Some e" and "entryMap lh k' = Some e"
  shows "k = k'"
proof -
  obtain v where "elems lh e = Some (k, v)" using assms(1,2) by (rule lh_inv_mapD)
  moreover obtain v' where "elems lh e = Some (k', v')" using assms(1,3) by (rule lh_inv_mapD)
  ultimately show ?thesis by simp
qed

lemma lh_inv_distinct: "lh_inv lh \<Longrightarrow> distinct (entryList lh)"
  by (simp add: lh_inv_def)

lemma lh_inv_new: "lh_inv lh_new" and lh_al_new: "lh_al lh_new = []"
  by (simp_all add: lh_inv_def lh_al_def lh_new_def)

lemma lh_inv_put:
  assumes "lh_inv lh"
  shows "lh_inv (lh_put lh k v)"
proof (cases "entryMap lh k")
  case None
  have fresh: "nextAddr lh \<notin> set (entryList lh)"
    using assms by (auto elim: lh_inv_listD)
  show ?thesis
  proof (rule lh_invI)
    show "distinct (entryList (lh_put lh k v))"
      using assms None fresh by (simp add: lh_put_def Let_def lh_inv_distinct)
  next
    fix e
    assume "e \<in> set (entryList (lh_put lh k v))"
    then consider "e = nextAddr lh" | "e \<in> set (entryList lh)" and "e \<noteq> nextAddr lh"
      using None fresh by (auto simp: lh_put_def Let_def)
    then show "e < nextAddr (lh_put lh k v) \<and>
        (\<exists>k' v'. elems (lh_put lh k v) e = Some (k', v') \<and> entryMap (lh_put lh k v) k' = Some e)"
    proof cases
      case 1
      with None show ?thesis by (simp add: lh_put_def Let_def)
    next
      case 2
      from assms 2(1) obtain k' v' where "elems lh e = Some (k', v')" "entryMap lh k' = Some e"
          "e < nextAddr lh" by (rule lh_inv_listD)
      with None 2(2) show ?thesis by (auto simp: lh_put_def Let_def)
    qed
  next
    fix k' e
    assume "entryMap (lh_put lh k v) k' = Some e"
    with assms None fresh
    show "e \<in> set (entryList (lh_put lh k v)) \<and> (\<exists>v'. elems (lh_put lh k v) e = Some (k', v'))"
      by (auto simp: lh_put_def Let_def elim: lh_inv_mapD split: if_splits)
  qed
next
  case (Some e)
  show ?thesis
  proof (rule lh_invI)
    show "distinct (entryList (lh_put lh k v))"
      using assms Some by (simp add: lh_put_def lh_inv_distinct)
  next
    fix e'
    assume "e' \<in> set (entryList (lh_put lh k v))"
    then have e': "e' \<in> set (entryList lh)"
      using assms Some by (auto simp: lh_put_def lh_inv_distinct elim: lh_inv_mapD)
    with assms Some show "e' < nextAddr (lh_put lh k v) \<and>
        (\<exists>k' v'. elems (lh_put lh k v) e' = Some (k', v') \<and> entryMap (lh_put lh k v) k' = Some e')"
      by (auto simp: lh_put_def elim: lh_inv_listD)
  next
    fix k' e'
    assume h: "entryMap (lh_put lh k v) k' = Some e'"
    with Some have k': "entryMap lh k' = Some e'" by (simp add: lh_put_def)
    show "e' \<in> set (entryList (lh_put lh k v)) \<and> (\<exists>v'. elems (lh_put lh k v) e' = Some (k', v'))"
    proof (cases "e' = e")
      case True
      with lh_inv_inj [OF assms Some] k' have "k' = k" by simp
      with True Some show ?thesis by (simp add: lh_put_def)
    next
      case False
      with assms Some k' show ?thesis by (auto simp: lh_put_def elim: lh_inv_mapD)
    qed
  qed
qed


lemma lh_inv_delete:
  assumes "lh_inv lh"
  shows "lh_inv (snd (lh_delete lh k))"
proof (cases "entryMap lh k")
  case None
  with assms show ?thesis by (simp add: lh_delete_def)
next
  case (Some e)
  let ?d = "snd (lh_delete lh k)"
  have d: "entryList ?d = remove1 e (entryList lh)" "entryMap ?d = (entryMap lh)(k := None)"
      "elems ?d = elems lh" "nextAddr ?d = nextAddr lh"
    using Some by (simp_all add: lh_delete_def)
  have set_d: "set (entryList ?d) = set (entryList lh) - {e}"
    using assms by (simp add: d lh_inv_distinct)
  from assms Some obtain v where ev: "elems lh e = Some (k, v)" by (rule lh_inv_mapD)
  show ?thesis
  proof (rule lh_invI)
    show "distinct (entryList ?d)" using assms by (simp add: d lh_inv_distinct)
  next
    fix e'
    assume "e' \<in> set (entryList ?d)"
    then have e': "e' \<in> set (entryList lh)" "e' \<noteq> e" by (auto simp: set_d)
    from assms e'(1) obtain k' v' where k': "elems lh e' = Some (k', v')" "entryMap lh k' = Some e'"
        "e' < nextAddr lh" by (rule lh_inv_listD)
    with e'(2) Some have "k' \<noteq> k" by auto
    with k' show "e' < nextAddr ?d \<and> (\<exists>k v. elems ?d e' = Some (k, v) \<and> entryMap ?d k = Some e')"
      by (auto simp: d)
  next
    fix k' e'
    assume "entryMap ?d k' = Some e'"
    then have k': "entryMap lh k' = Some e'" "k' \<noteq> k" by (auto simp: d split: if_splits)
    from assms k'(1) obtain v' where v': "e' \<in> set (entryList lh)" "elems lh e' = Some (k', v')"
      by (rule lh_inv_mapD)
    with k'(2) ev have "e' \<noteq> e" by auto
    with v' show "e' \<in> set (entryList ?d) \<and> (\<exists>v. elems ?d e' = Some (k', v))"
      unfolding set_d by (auto simp: d)
  qed
qed

lemma lh_al_elem:
  assumes "lh_inv lh" and "e \<in> set (entryList lh)"
  shows "elems lh e = Some (the (elems lh e))" and "entryMap lh (fst (the (elems lh e))) = Some e"
proof -
  obtain k v where "elems lh e = Some (k, v)" "entryMap lh k = Some e"
    using assms by (rule lh_inv_listD)
  then show "elems lh e = Some (the (elems lh e))" "entryMap lh (fst (the (elems lh e))) = Some e"
    by simp_all
qed

lemma lh_al_keys_distinct:
  assumes "lh_inv lh"
  shows "distinct (map fst (lh_al lh))"
proof -
  have "inj_on (\<lambda>e. fst (the (elems lh e))) (set (entryList lh))"
  proof (rule inj_onI)
    fix x y
    assume "x \<in> set (entryList lh)" "y \<in> set (entryList lh)"
      and "fst (the (elems lh x)) = fst (the (elems lh y))"
    with lh_al_elem(2) [OF assms, of x] lh_al_elem(2) [OF assms, of y] show "x = y"
      by (metis option.inject)
  qed
  moreover have "map fst (lh_al lh) = map (\<lambda>e. fst (the (elems lh e))) (entryList lh)"
    by (simp add: lh_al_def)
  ultimately show ?thesis
    using lh_inv_distinct [OF assms] by (simp only: distinct_map simp_thms)
qed

lemma remove1_filter_fst:
  assumes "lh_inv lh" and "entryMap lh k = Some e"
  shows "map (\<lambda>a. the (elems lh a)) (remove1 e (entryList lh)) = al_del k (lh_al lh)"
proof -
  have "fst (the (elems lh a)) \<noteq> k \<longleftrightarrow> a \<noteq> e" if "a \<in> set (entryList lh)" for a
  proof -
    note * = lh_al_elem(2) [OF assms(1) that]
    then have "fst (the (elems lh a)) = k \<Longrightarrow> a = e" using assms(2) by simp
    moreover from * have "a = e \<Longrightarrow> fst (the (elems lh a)) = k"
      using lh_inv_inj [OF assms(1) _ assms(2)] by blast
    ultimately show ?thesis by blast
  qed
  then have "filter (\<lambda>a. fst (the (elems lh a)) \<noteq> k) (entryList lh) = filter (\<lambda>a. a \<noteq> e) (entryList lh)"
    by (rule filter_cong [OF refl])
  with assms(1) show ?thesis
    by (simp add: al_del_def lh_al_def filter_map comp_def distinct_remove1_removeAll
        lh_inv_distinct removeAll_filter_not_eq eq_commute)
qed

lemma al_del_notin: "k \<notin> fst ` set al \<Longrightarrow> al_del k al = al"
  by (auto simp: al_del_def filter_id_conv)

lemma lh_keys:
  assumes "lh_inv lh"
  shows "fst ` set (lh_al lh) = dom (entryMap lh)"
proof (intro set_eqI iffI)
  fix k
  assume "k \<in> fst ` set (lh_al lh)"
  then show "k \<in> dom (entryMap lh)"
    using lh_al_elem(2) [OF assms] by (auto simp: lh_al_def)
next
  fix k
  assume "k \<in> dom (entryMap lh)"
  then obtain e where "entryMap lh k = Some e" by blast
  with assms obtain v where "e \<in> set (entryList lh)" "elems lh e = Some (k, v)"
    by (rule lh_inv_mapD)
  then show "k \<in> fst ` set (lh_al lh)" by (force simp: lh_al_def)
qed

lemma lh_al_put:
  assumes "lh_inv lh"
  shows "lh_al (lh_put lh k v) = al_put k v (lh_al lh)"
proof (cases "entryMap lh k")
  case None
  then have "k \<notin> fst ` set (lh_al lh)" by (simp add: lh_keys [OF assms] domIff)
  moreover have "nextAddr lh \<notin> set (entryList lh)"
    using assms by (auto elim: lh_inv_listD)
  ultimately show ?thesis
    using None by (simp add: lh_put_def Let_def al_put_def al_del_notin) (simp add: lh_al_def)
next
  case (Some e)
  have "e \<notin> set (remove1 e (entryList lh))"
    using assms by (simp add: lh_inv_distinct)
  then have "map (\<lambda>a. the (((elems lh)(e \<mapsto> (k, v))) a)) (remove1 e (entryList lh)) = al_del k (lh_al lh)"
    by (subst remove1_filter_fst [OF assms Some, symmetric]) (rule map_cong [OF refl], auto)
  with Some show ?thesis
    by (simp add: lh_put_def al_put_def lh_al_def [of "lh\<lparr>entryList := _, elems := _\<rparr>"])
qed

lemma lh_al_delete:
  assumes "lh_inv lh"
  shows "lh_al (snd (lh_delete lh k)) = al_del k (lh_al lh)"
proof (cases "entryMap lh k")
  case None
  then have "k \<notin> fst ` set (lh_al lh)" by (simp add: lh_keys [OF assms] domIff)
  with None show ?thesis by (simp add: lh_delete_def al_del_notin)
next
  case (Some e)
  with remove1_filter_fst [OF assms Some] show ?thesis
    by (simp add: lh_delete_def lh_al_def [of "lh\<lparr>entryMap := _, entryList := _\<rparr>"]
        lh_al_def [of "lh\<lparr>entryList := _, entryMap := _\<rparr>"])
qed

lemma lh_get_al:
  assumes "lh_inv lh"
  shows "lh_get lh k = map_of (lh_al lh) k"
proof (cases "entryMap lh k")
  case None
  then have "k \<notin> fst ` set (lh_al lh)" by (simp add: lh_keys [OF assms] domIff)
  with None show ?thesis by (simp add: lh_get_def map_of_eq_None_iff [symmetric])
next
  case (Some e)
  from assms Some obtain v where v: "e \<in> set (entryList lh)" "elems lh e = Some (k, v)"
    by (rule lh_inv_mapD)
  then have "(k, v) \<in> set (lh_al lh)" by (force simp: lh_al_def)
  with Some v show ?thesis
    by (simp add: lh_get_def lh_al_keys_distinct [OF assms])
qed

lemma lh_delete_fst: "lh_inv lh \<Longrightarrow> fst (lh_delete lh k) \<longleftrightarrow> k \<in> fst ` set (lh_al lh)"
  by (auto simp: lh_delete_def lh_keys split: option.splits)

lemma lh_len_al: "lh_inv lh \<Longrightarrow> lh_len lh = length (lh_al lh)"
  using distinct_card [OF lh_al_keys_distinct, of lh] by (simp add: lh_len_def lh_keys [symmetric])

lemma lh_oldest_al:
  "lh_inv lh \<Longrightarrow> lh_oldest lh = (case lh_al lh of [] \<Rightarrow> None | p # _ \<Rightarrow> Some p)"
  by (cases "entryList lh") (auto simp: lh_oldest_def lh_al_def lh_al_elem(1) [symmetric])

lemma lh_newest_al:
  "lh_inv lh \<Longrightarrow> lh_newest lh = (case rev (lh_al lh) of [] \<Rightarrow> None | p # _ \<Rightarrow> Some p)"
  by (cases "entryList lh" rule: rev_cases)
    (auto simp: lh_newest_def lh_al_def lh_al_elem(1) [symmetric])

subsection \<open>The interface the caches use\<close>

text \<open>
  \<open>LinkedHashmap\<close> as its clients see it: \<open>al\<close> lists the pairs from oldest to newest, and each
  operation is described by its effect on that list.
\<close>

locale linked_hashmap =
  fixes new :: "'m"
    and put :: "'m \<Rightarrow> 'k \<Rightarrow> 'v \<Rightarrow> 'm"
    and get :: "'m \<Rightarrow> 'k \<Rightarrow> 'v option"
    and delete :: "'m \<Rightarrow> 'k \<Rightarrow> bool \<times> 'm"
    and len :: "'m \<Rightarrow> nat"
    and oldest :: "'m \<Rightarrow> ('k \<times> 'v) option"
    and newest :: "'m \<Rightarrow> ('k \<times> 'v) option"
    and al :: "'m \<Rightarrow> ('k \<times> 'v) list"
    and invar :: "'m \<Rightarrow> bool"
  assumes invar_new: "invar new"
    and al_new: "al new = []"
    and invar_put: "invar m \<Longrightarrow> invar (put m k v)"
    and al_put: "invar m \<Longrightarrow> al (put m k v) = al_put k v (al m)"
    and invar_delete: "invar m \<Longrightarrow> invar (snd (delete m k))"
    and al_delete: "invar m \<Longrightarrow> al (snd (delete m k)) = al_del k (al m)"
    and fst_delete: "invar m \<Longrightarrow> fst (delete m k) \<longleftrightarrow> k \<in> fst ` set (al m)"
    and get_al: "invar m \<Longrightarrow> get m k = map_of (al m) k"
    and len_al: "invar m \<Longrightarrow> len m = length (al m)"
    and oldest_al: "invar m \<Longrightarrow> oldest m = (case al m of [] \<Rightarrow> None | p # _ \<Rightarrow> Some p)"
    and newest_al: "invar m \<Longrightarrow> newest m = (case rev (al m) of [] \<Rightarrow> None | p # _ \<Rightarrow> Some p)"
    and keys_distinct: "invar m \<Longrightarrow> distinct (map fst (al m))"
begin

lemma map_of_al_del: "map_of (al_del k xs) = (map_of xs)(k := None)"
  by (induction xs) (auto simp: al_del_def fun_eq_iff)

lemma get_put: "invar m \<Longrightarrow> get (put m k v) k' = (if k' = k then Some v else get m k')"
  by (simp add: get_al invar_put al_put al_put_def map_of_al_del map_add_def split: option.split)

lemma get_delete: "invar m \<Longrightarrow> get (snd (delete m k)) k' = (if k' = k then None else get m k')"
  by (simp add: get_al invar_delete al_delete map_of_al_del)

lemma newest_put: "invar m \<Longrightarrow> newest (put m k v) = Some (k, v)"
  by (simp add: newest_al invar_put al_put al_put_def)

lemma al_del_present:
  "\<lbrakk>distinct (map fst xs); (k, v) \<in> set xs\<rbrakk> \<Longrightarrow> Suc (length (al_del k xs)) = length xs"
proof (induction xs)
  case (Cons p xs)
  show ?case
  proof (cases "fst p = k")
    case True
    with Cons.prems(1) have "k \<notin> fst ` set xs" by auto
    then have "al_del k xs = xs" by (rule al_del_notin)
    with True show ?thesis by (simp add: al_del_def)
  next
    case False
    with Cons show ?thesis by (auto simp: al_del_def)
  qed
qed simp

lemma len_put:
  assumes "invar m"
  shows "len (put m k v) = (if get m k = None then Suc (len m) else len m)"
proof (cases "map_of (al m) k")
  case None
  then have "al_del k (al m) = al m"
    by (simp add: al_del_notin map_of_eq_None_iff)
  with None assms show ?thesis
    by (simp add: len_al invar_put al_put al_put_def get_al)
next
  case (Some w)
  then have "Suc (length (al_del k (al m))) = length (al m)"
    using al_del_present keys_distinct [OF assms] map_of_SomeD by fast
  with Some assms show ?thesis
    by (simp add: len_al invar_put al_put al_put_def get_al)
qed

lemma delete_oldest:
  assumes "invar m" and "oldest m = Some (k, v)"
  shows "al (snd (delete m k)) = tl (al m)"
proof -
  from assms obtain xs where xs: "al m = (k, v) # xs"
    by (auto simp: oldest_al split: list.splits)
  with keys_distinct [OF assms(1)] have "k \<notin> fst ` set xs" by simp
  with xs assms(1) show ?thesis
    by (simp add: al_delete al_del_def) (simp add: al_del_notin [unfolded al_del_def])
qed

end

interpretation lhm: linked_hashmap lh_new lh_put lh_get lh_delete lh_len lh_oldest lh_newest lh_al lh_inv
  by unfold_locales
    (simp_all add: lh_inv_new lh_al_new lh_inv_put lh_al_put lh_inv_delete lh_al_delete lh_delete_fst
      lh_get_al lh_len_al lh_oldest_al lh_newest_al lh_al_keys_distinct)

lemmas lhm_facts = lhm.invar_new lhm.al_new lhm.invar_put lhm.al_put lhm.invar_delete lhm.al_delete
  lhm.get_al lhm.len_al

text \<open>
  C24. The hash map with its linked list refines an association list ordered from oldest to newest:
  every operation keeps the well-formedness of the shared elements; \<open>Put\<close> moves the pair to the
  newest end, \<open>Delete\<close> removes the key and says whether it was there, \<open>Get\<close> is the lookup,
  \<open>Len\<close> the number of pairs, and \<open>Oldest\<close> and \<open>Newest\<close> the two ends.
\<close>

theorem linkedhashmap_refines:
  assumes "lh_inv lh"
  shows "lh_inv (lh_put lh k v) \<and> lh_al (lh_put lh k v) = al_put k v (lh_al lh)
    \<and> lh_inv (snd (lh_delete lh k)) \<and> lh_al (snd (lh_delete lh k)) = al_del k (lh_al lh)
    \<and> fst (lh_delete lh k) = (k \<in> fst ` set (lh_al lh))
    \<and> lh_get lh k = map_of (lh_al lh) k
    \<and> lh_len lh = length (lh_al lh)
    \<and> lh_oldest lh = (case lh_al lh of [] \<Rightarrow> None | p # _ \<Rightarrow> Some p)
    \<and> lh_newest (lh_put lh k v) = Some (k, v)
    \<and> distinct (map fst (lh_al lh))"
  using assms
  by (intro conjI lhm.invar_put lhm.al_put lhm.invar_delete lhm.al_delete lhm.fst_delete lhm.get_al
      lhm.len_al lhm.oldest_al lhm.newest_put lhm.keys_distinct)

lemma linkedhashmap_refines_witness:
  "lh_al (lh_put (lh_put (lh_put lh_new (1::nat) ''a'') 2 ''b'') 1 ''c'') = [(2, ''b''), (1, ''c'')]
   \<and> lh_newest (lh_put (lh_put (lh_put lh_new (1::nat) ''a'') 2 ''b'') 1 ''c'') = Some (1, ''c'')"
proof -
  have inv: "lh_inv (lh_put (lh_put lh_new (1::nat) ''a'') 2 ''b'')"
    by (intro lhm.invar_put lhm.invar_new)
  have "lh_al (lh_put (lh_put lh_new (1::nat) ''a'') 2 ''b'') = [(1, ''a''), (2, ''b'')]"
    by (simp add: lh_put_def lh_new_def lh_al_def)
  with linkedhashmap_refines [OF inv, of 1 "''c''"] show ?thesis
    by (simp add: al_put_def al_del_def)
qed

subsection \<open>Iteration\<close>

lemma elem_next_mid:
  "e \<notin> set xs \<Longrightarrow> elem_next e (xs @ e # ys) = (case ys of [] \<Rightarrow> None | y # _ \<Rightarrow> Some y)"
  by (induction xs) auto

lemma it_collect_from:
  assumes "distinct (entryList lh)" and "entryList lh = xs @ e # ys"
    and "initialized it" and "\<not> exhausted it" and "it_next it = Some e"
  shows "it_collect (Suc (length ys) + n) lh it = map (elems lh) (e # ys)"
  using assms(2-)
proof (induction ys arbitrary: xs e it)
  case Nil
  then have "it_Next lh it = (True, it\<lparr>it_kv := elems lh e, it_next := None, exhausted := True\<rparr>)"
    using assms(1) by (simp add: it_Next_def it_advance_def elem_next_mid)
  then show ?case by (cases n) (simp_all add: it_Next_def)
next
  case (Cons y ys)
  let ?it = "it\<lparr>it_kv := elems lh e, it_next := Some y, exhausted := False\<rparr>"
  from Cons.prems have "it_Next lh it = (True, ?it)"
    using assms(1) by (simp add: it_Next_def it_advance_def elem_next_mid)
  moreover have "it_collect (Suc (length ys) + n) lh ?it = map (elems lh) (y # ys)"
    using Cons.prems by (intro Cons.IH [of "xs @ [e]"]) simp_all
  ultimately show ?case by simp
qed

text \<open>
  C39. An iterator over an unmodified map returns every pair exactly once, from oldest to newest,
  and then reports exhaustion: collecting with any number of rounds above the length of the map
  gives exactly the abstract list.
\<close>

theorem iterator_visits_all:
  assumes "lh_inv lh" and "lh_len lh < n"
  shows "it_collect n lh lh_NewIterator = map Some (lh_al lh)"
proof (cases "entryList lh")
  case Nil
  with assms(2) show ?thesis
    by (cases n) (simp_all add: lh_NewIterator_def it_Next_def lh_al_def)
next
  case (Cons e es)
  let ?it0 = "lh_NewIterator\<lparr>initialized := True, it_next := Some e\<rparr>"
  have len: "lh_len lh = Suc (length es)"
    using assms(1) Cons by (simp add: lh_len_al lh_al_def)
  with assms(2) have "Suc (length es) \<le> n" by simp
  then obtain m where n: "n = Suc (length es) + m" by (auto simp only: nat_le_iff_add)
  have "it_Next lh lh_NewIterator = it_Next lh ?it0"
    using Cons by (simp add: lh_NewIterator_def it_Next_def it_advance_def)
  then have "it_collect n lh lh_NewIterator = it_collect n lh ?it0"
    by (simp add: n)
  also have "\<dots> = map (elems lh) (e # es)"
    unfolding n using lh_inv_distinct [OF assms(1)] Cons
    by (intro it_collect_from [of lh "[]"]) (simp_all add: lh_NewIterator_def)
  also have "\<dots> = map Some (lh_al lh)"
    using lh_al_elem(1) [OF assms(1)] Cons by (simp add: lh_al_def)
  finally show ?thesis .
qed

lemma iterator_visits_all_witness:
  "it_collect 5 (lh_put (lh_put lh_new (1::nat) ''a'') 2 ''b'') lh_NewIterator
   = [Some (1, ''a''), Some (2, ''b'')]"
proof -
  let ?m = "lh_put (lh_put lh_new (1::nat) ''a'') 2 ''b''"
  have inv: "lh_inv ?m" by (intro lhm.invar_put lhm.invar_new)
  moreover have "lh_al ?m = [(1, ''a''), (2, ''b'')]"
    by (simp add: lh_put_def lh_new_def lh_al_def)
  ultimately show ?thesis
    using iterator_visits_all [OF inv, of 5] by (simp add: lh_len_al)
qed

end
