(* ===== verification/Caches.thy ===== *)
theory Caches
  imports Linked_Hashmap "HOL-Library.While_Combinator"
begin

text \<open>
  The caches of \<open>utils/cache\<close>: the \<open>Cacher\<close> interface as a locale, the entry-bounded \<open>LRU\<close>,
  the size-bounded \<open>sizedLRU\<close> and the \<open>Empty\<close> cache. The exported methods lock a mutex around
  the unexported ones modelled here, so a cache is a sequence of atomic operations.
\<close>

subsection \<open>The Cacher interface\<close>

datatype ('k, 'v) cache_op = OPut 'k 'v | OGet 'k | OEvict 'k | OFlush

fun cache_run ::
  "('c \<Rightarrow> 'k \<Rightarrow> 'v \<Rightarrow> 'c) \<Rightarrow> ('c \<Rightarrow> 'k \<Rightarrow> 'v option \<times> 'c) \<Rightarrow> ('c \<Rightarrow> 'k \<Rightarrow> 'c) \<Rightarrow> ('c \<Rightarrow> 'c)
   \<Rightarrow> 'c \<Rightarrow> ('k, 'v) cache_op list \<Rightarrow> 'c" where
  "cache_run put get evict flush c [] = c"
| "cache_run put get evict flush c (op # ops) =
     cache_run put get evict flush
       (case op of OPut k v \<Rightarrow> put c k v | OGet k \<Rightarrow> snd (get c k)
                 | OEvict k \<Rightarrow> evict c k | OFlush \<Rightarrow> flush c) ops"

text \<open>The unbounded store a cache approximates: the last value put and not evicted since.\<close>

fun store_run :: "('k \<rightharpoonup> 'v) \<Rightarrow> ('k, 'v) cache_op list \<Rightarrow> ('k \<rightharpoonup> 'v)" where
  "store_run m [] = m"
| "store_run m (op # ops) =
     store_run (case op of OPut k v \<Rightarrow> m(k \<mapsto> v) | OGet k \<Rightarrow> m
                  | OEvict k \<Rightarrow> m(k := None) | OFlush \<Rightarrow> Map.empty) ops"

lemma store_run_mono: "m \<subseteq>\<^sub>m m' \<Longrightarrow> store_run m ops \<subseteq>\<^sub>m store_run m' ops"
proof (induction ops arbitrary: m m')
  case (Cons op ops)
  show ?case
    by (cases op) (use Cons in \<open>auto intro!: Cons.IH simp: map_le_def\<close>)
qed simp

locale cacher =
  fixes Put :: "'c \<Rightarrow> 'k \<Rightarrow> 'v \<Rightarrow> 'c"
    and Get :: "'c \<Rightarrow> 'k \<Rightarrow> 'v option \<times> 'c"
    and Evict :: "'c \<Rightarrow> 'k \<Rightarrow> 'c"
    and Flush :: "'c \<Rightarrow> 'c"
    and contents :: "'c \<Rightarrow> 'k \<rightharpoonup> 'v"
    and invar :: "'c \<Rightarrow> bool"
  assumes invar_Put: "invar c \<Longrightarrow> invar (Put c k v)"
    and contents_Put: "invar c \<Longrightarrow> contents (Put c k v) \<subseteq>\<^sub>m (contents c)(k \<mapsto> v)"
    and fst_Get: "invar c \<Longrightarrow> fst (Get c k) = contents c k"
    and invar_Get: "invar c \<Longrightarrow> invar (snd (Get c k))"
    and contents_Get: "invar c \<Longrightarrow> contents (snd (Get c k)) = contents c"
    and invar_Evict: "invar c \<Longrightarrow> invar (Evict c k)"
    and contents_Evict: "invar c \<Longrightarrow> contents (Evict c k) = (contents c)(k := None)"
    and invar_Flush: "invar c \<Longrightarrow> invar (Flush c)"
    and contents_Flush: "invar c \<Longrightarrow> contents (Flush c) = Map.empty"
begin

lemma invar_run: "invar c \<Longrightarrow> invar (cache_run Put Get Evict Flush c ops)"
  by (induction ops arbitrary: c)
    (auto simp: invar_Put invar_Get invar_Evict invar_Flush split: cache_op.split)

lemma contents_run:
  "invar c \<Longrightarrow> contents (cache_run Put Get Evict Flush c ops) \<subseteq>\<^sub>m store_run (contents c) ops"
proof (induction ops arbitrary: c)
  case Nil
  then show ?case by simp
next
  case (Cons op ops)
  let ?c = "case op of OPut k v \<Rightarrow> Put c k v | OGet k \<Rightarrow> snd (Get c k)
                     | OEvict k \<Rightarrow> Evict c k | OFlush \<Rightarrow> Flush c"
  let ?m = "case op of OPut k v \<Rightarrow> (contents c)(k \<mapsto> v) | OGet k \<Rightarrow> contents c
                     | OEvict k \<Rightarrow> (contents c)(k := None) | OFlush \<Rightarrow> Map.empty"
  have "contents ?c \<subseteq>\<^sub>m ?m"
    using Cons.prems
    by (cases op) (simp_all add: contents_Put contents_Get contents_Evict contents_Flush)
  then have "store_run (contents ?c) ops \<subseteq>\<^sub>m store_run ?m ops"
    by (rule store_run_mono)
  moreover have "invar ?c"
    using Cons.prems by (cases op) (simp_all add: invar_Put invar_Get invar_Evict invar_Flush)
  then have "contents (cache_run Put Get Evict Flush ?c ops) \<subseteq>\<^sub>m store_run (contents ?c) ops"
    by (rule Cons.IH)
  ultimately show ?case by (simp add: map_le_trans)
qed

text \<open>A cache never returns a stale value: a hit is the last value put and not removed since.\<close>

lemma Get_sound:
  assumes "invar c" and "fst (Get (cache_run Put Get Evict Flush c ops) k) = Some v"
  shows "store_run (contents c) ops k = Some v"
proof -
  from assms have "contents (cache_run Put Get Evict Flush c ops) k = Some v"
    by (simp add: fst_Get invar_run)
  with contents_run [OF assms(1), of ops] show ?thesis
    unfolding map_le_def by (metis domI)
qed

end

subsection \<open>LRU\<close>

text \<open>
  \<open>elements\<close> is nil until the first use. The loop in \<open>resize\<close> removes the oldest pair while the
  map is longer than \<open>Size\<close>; the model bounds its rounds by the length of the map, and
  \<open>lru_trim_while\<close> shows that this is the result of the loop itself.
\<close>

record ('k, 'v) lru =
  elements :: "('k, 'v) lhm option"
  Size :: int

definition lru_map :: "('k, 'v) lru \<Rightarrow> ('k, 'v) lhm" where
  "lru_map c = (case elements c of None \<Rightarrow> lh_new | Some m \<Rightarrow> m)"

definition drop_oldest :: "('k, 'v) lhm \<Rightarrow> ('k, 'v) lhm" where
  "drop_oldest m = (case lh_oldest m of None \<Rightarrow> m | Some (k, _) \<Rightarrow> snd (lh_delete m k))"

fun lru_trim :: "nat \<Rightarrow> int \<Rightarrow> ('k, 'v) lhm \<Rightarrow> ('k, 'v) lhm" where
  "lru_trim 0 sz m = m"
| "lru_trim (Suc n) sz m = (if int (lh_len m) > sz then lru_trim n sz (drop_oldest m) else m)"

definition lru_resize :: "('k, 'v) lru \<Rightarrow> ('k, 'v) lru" where
  "lru_resize c =
     (let m = lru_map c;
          sz = (if Size c \<le> 0 then 1 else Size c)
      in c\<lparr>elements := Some (lru_trim (lh_len m) sz m), Size := sz\<rparr>)"

definition lru_put :: "('k, 'v) lru \<Rightarrow> 'k \<Rightarrow> 'v \<Rightarrow> ('k, 'v) lru" where
  "lru_put c0 k v =
     (let c = lru_resize c0;
          m = (if int (lh_len (lru_map c)) = Size c then drop_oldest (lru_map c) else lru_map c)
      in c\<lparr>elements := Some (lh_put m k v)\<rparr>)"

definition lru_get :: "('k, 'v) lru \<Rightarrow> 'k \<Rightarrow> 'v option \<times> ('k, 'v) lru" where
  "lru_get c0 k =
     (let c = lru_resize c0 in
      case lh_get (lru_map c) k of
        None \<Rightarrow> (None, c)
      | Some v \<Rightarrow> (Some v, c\<lparr>elements := Some (lh_put (lru_map c) k v)\<rparr>))"

definition lru_evict :: "('k, 'v) lru \<Rightarrow> 'k \<Rightarrow> ('k, 'v) lru" where
  "lru_evict c0 k =
     (let c = lru_resize c0 in c\<lparr>elements := Some (snd (lh_delete (lru_map c) k))\<rparr>)"

definition lru_flush :: "('k, 'v) lru \<Rightarrow> ('k, 'v) lru" where
  "lru_flush c = c\<lparr>elements := Some lh_new\<rparr>"

definition lru_len :: "('k, 'v) lru \<Rightarrow> nat" where
  "lru_len c = (case elements c of None \<Rightarrow> 0 | Some m \<Rightarrow> lh_len m)"

definition lru_al :: "('k, 'v) lru \<Rightarrow> ('k \<times> 'v) list" where
  "lru_al c = lh_al (lru_map c)"

definition lru_inv :: "('k, 'v) lru \<Rightarrow> bool" where
  "lru_inv c \<longleftrightarrow> lh_inv (lru_map c) \<and> int (length (lru_al c)) \<le> max 1 (Size c)"

lemma inv_drop_oldest: "lh_inv m \<Longrightarrow> lh_inv (drop_oldest m)"
  by (auto simp: drop_oldest_def lhm.invar_delete split: option.split)

lemma al_drop_oldest: "lh_inv m \<Longrightarrow> lh_al (drop_oldest m) = tl (lh_al m)"
  by (auto simp: drop_oldest_def lhm.delete_oldest lhm.oldest_al split: option.split list.splits)

lemma lru_trim_spec:
  assumes "lh_inv m" and "length (lh_al m) \<le> n" and "0 \<le> sz"
  shows "lh_inv (lru_trim n sz m) \<and> lh_al (lru_trim n sz m) = drop (length (lh_al m) - nat sz) (lh_al m)"
  using assms
proof (induction n arbitrary: m)
  case (Suc n)
  show ?case
  proof (cases "int (lh_len m) > sz")
    case True
    then have "Suc (length (lh_al (drop_oldest m)) - nat sz) = length (lh_al m) - nat sz"
      using Suc.prems by (simp add: al_drop_oldest lhm.len_al)
    with True Suc.IH [of "drop_oldest m"] Suc.prems show ?thesis
      by (simp add: inv_drop_oldest al_drop_oldest drop_Suc [symmetric])
  next
    case False
    with Suc.prems show ?thesis by (simp add: lhm.len_al)
  qed
qed simp

text \<open>The loop of \<open>resize\<close> as Go runs it stops, with the bounded loop's result.\<close>

lemma lru_trim_while:
  assumes "lh_inv m" and "length (lh_al m) \<le> n" and "0 \<le> sz"
  shows "while_option (\<lambda>m. int (lh_len m) > sz) drop_oldest m = Some (lru_trim n sz m)"
  using assms
proof (induction n arbitrary: m)
  case 0
  then show ?case by (subst while_option_unfold) (simp add: lhm.len_al)
next
  case (Suc n)
  then show ?case
    by (subst while_option_unfold) (simp add: inv_drop_oldest al_drop_oldest lhm.len_al)
qed

lemma lru_resize_id:
  assumes "lru_inv c"
  shows "lru_map (lru_resize c) = lru_map c" and "Size (lru_resize c) = max 1 (Size c)"
proof -
  have "int (lh_len (lru_map c)) \<le> (if Size c \<le> 0 then 1 else Size c)"
    using assms by (simp add: lru_inv_def lru_al_def lhm.len_al max_def split: if_splits)
  then have "lru_trim (lh_len (lru_map c)) (if Size c \<le> 0 then 1 else Size c) (lru_map c) = lru_map c"
    by (cases "lh_len (lru_map c)") auto
  then show "lru_map (lru_resize c) = lru_map c"
    by (simp add: lru_resize_def Let_def lru_map_def [of "c\<lparr>elements := _, Size := _\<rparr>"])
qed (simp add: lru_resize_def Let_def)

lemma lru_al_put:
  assumes "lru_inv c"
  shows "lru_al (lru_put c k v) =
    al_put k v (if int (length (lru_al c)) = max 1 (Size c) then tl (lru_al c) else lru_al c)"
proof -
  have inv: "lh_inv (lru_map c)" using assms by (simp add: lru_inv_def)
  have "lru_map (lru_put c k v) =
      lh_put (if int (length (lru_al c)) = max 1 (Size c) then drop_oldest (lru_map c) else lru_map c) k v"
    using inv by (simp add: lru_put_def Let_def lru_resize_id [OF assms] lru_al_def lhm.len_al)
      (simp add: lru_map_def)
  with inv show ?thesis
    by (simp add: lru_al_def lhm.al_put inv_drop_oldest al_drop_oldest)
qed

lemma length_al_del_le: "length (al_del k al) \<le> length al"
  by (simp add: al_del_def)

lemma lru_Size_put: "lru_inv c \<Longrightarrow> Size (lru_put c k v) = max 1 (Size c)"
  by (simp add: lru_put_def Let_def lru_resize_id)

lemma lru_inv_put:
  assumes "lru_inv c"
  shows "lru_inv (lru_put c k v)"
proof -
  have inv: "lh_inv (lru_map c)" using assms by (simp add: lru_inv_def)
  have "lh_inv (lru_map (lru_put c k v))"
    using inv by (simp add: lru_put_def Let_def lru_resize_id [OF assms])
      (simp add: lru_map_def lhm.invar_put inv_drop_oldest)
  moreover note lru_Size_put [OF assms, of k v]
  moreover have "int (length (lru_al (lru_put c k v))) \<le> max 1 (Size c)"
  proof -
    let ?al = "if int (length (lru_al c)) = max 1 (Size c) then tl (lru_al c) else lru_al c"
    have "int (length ?al) + 1 \<le> max 1 (Size c)"
      using assms by (auto simp: lru_inv_def)
    with length_al_del_le [of k ?al] show ?thesis
      by (simp add: lru_al_put [OF assms] al_put_def)
  qed
  ultimately show ?thesis by (simp add: lru_inv_def)
qed

lemma lru_get_eq:
  assumes "lru_inv c"
  shows "lru_get c k =
    (map_of (lru_al c) k,
     (lru_resize c)\<lparr>elements := Some (case map_of (lru_al c) k of
        None \<Rightarrow> lru_map c | Some v \<Rightarrow> lh_put (lru_map c) k v)\<rparr>)"
proof -
  have "elements (lru_resize c) = Some (lru_map c)"
    using lru_resize_id(1) [OF assms] by (auto simp: lru_resize_def Let_def lru_map_def split: option.splits)
  then have "(lru_resize c)\<lparr>elements := Some (lru_map c)\<rparr> = lru_resize c" by simp
  moreover have "lh_inv (lru_map c)" using assms by (simp add: lru_inv_def)
  ultimately show ?thesis
    by (simp add: lru_get_def Let_def lru_resize_id [OF assms] lru_al_def lhm.get_al split: option.split)
qed

lemma al_put_touch:
  assumes "distinct (map fst xs)" and "map_of xs k = Some v"
  shows "map_of (al_put k v xs) = map_of xs" and "length (al_put k v xs) = length xs"
proof -
  show "map_of (al_put k v xs) = map_of xs"
    using assms(2) by (auto simp: al_put_def lhm.map_of_al_del fun_eq_iff map_add_def split: option.split)
  show "length (al_put k v xs) = length xs"
    using lhm.al_del_present [OF assms(1) map_of_SomeD [OF assms(2)]] by (simp add: al_put_def)
qed

lemma lru_al_get:
  assumes "lru_inv c"
  shows "lru_al (snd (lru_get c k)) =
    (case map_of (lru_al c) k of None \<Rightarrow> lru_al c | Some v \<Rightarrow> al_put k v (lru_al c))"
  using assms
  by (auto simp: lru_get_eq lru_al_def lru_map_def [of "_\<lparr>elements := _\<rparr>"] lru_inv_def lhm.al_put
      split: option.split)

lemma lru_inv_get:
  assumes "lru_inv c"
  shows "lru_inv (snd (lru_get c k))"
proof -
  have inv: "lh_inv (lru_map c)" using assms by (simp add: lru_inv_def)
  have "lh_inv (lru_map (snd (lru_get c k)))"
    using inv by (simp add: lru_get_eq [OF assms] lru_map_def [of "_\<lparr>elements := _\<rparr>"]
        lhm.invar_put split: option.split)
  moreover have "length (lru_al (snd (lru_get c k))) = length (lru_al c)"
    using al_put_touch(2) [OF lhm.keys_distinct [OF inv, folded lru_al_def]]
    by (auto simp: lru_al_get [OF assms] split: option.split)
  moreover have "Size (snd (lru_get c k)) = max 1 (Size c)"
    by (simp add: lru_get_eq [OF assms] lru_resize_id [OF assms])
  ultimately show ?thesis using assms by (simp add: lru_inv_def)
qed

lemma lru_evict_spec:
  assumes "lru_inv c"
  shows "lru_inv (lru_evict c k)" and "lru_al (lru_evict c k) = al_del k (lru_al c)"
proof -
  have inv: "lh_inv (lru_map c)" using assms by (simp add: lru_inv_def)
  have m: "lru_map (lru_evict c k) = snd (lh_delete (lru_map c) k)"
    by (simp add: lru_evict_def Let_def lru_resize_id [OF assms]) (simp add: lru_map_def)
  with inv show al: "lru_al (lru_evict c k) = al_del k (lru_al c)"
    by (simp add: lru_al_def lhm.al_delete)
  have "Size (lru_evict c k) = max 1 (Size c)"
    by (simp add: lru_evict_def Let_def lru_resize_id [OF assms])
  with al m inv assms length_al_del_le [of k "lru_al c"] show "lru_inv (lru_evict c k)"
    by (simp add: lru_inv_def lhm.invar_delete)
qed

lemma lru_flush_spec:
  shows "lru_inv (lru_flush c)" and "lru_al (lru_flush c) = []"
  by (simp_all add: lru_inv_def lru_al_def lru_flush_def lru_map_def lhm.invar_new lhm.al_new)

definition lru_contents :: "('k, 'v) lru \<Rightarrow> 'k \<rightharpoonup> 'v" where
  "lru_contents c = map_of (lru_al c)"

lemma map_of_tl_le:
  assumes "distinct (map fst xs)"
  shows "map_of (tl xs) \<subseteq>\<^sub>m map_of xs"
proof (cases xs)
  case (Cons p ys)
  obtain a b where "p = (a, b)" by (cases p)
  moreover have "fst p \<notin> fst ` set ys" using assms Cons by simp
  ultimately have "map_of ys a = None" by (simp add: map_of_eq_None_iff)
  with Cons \<open>p = (a, b)\<close> show ?thesis by (auto simp: map_le_def)
qed simp

lemma map_of_al_put: "map_of (al_put k v xs) = (map_of xs)(k \<mapsto> v)"
  by (auto simp: al_put_def lhm.map_of_al_del fun_eq_iff map_add_def split: option.split)

interpretation lruc: cacher lru_put lru_get lru_evict lru_flush lru_contents lru_inv
proof unfold_locales
  fix c :: "('k, 'v) lru" and k v
  assume c: "lru_inv c"
  then have d: "distinct (map fst (lru_al c))"
    by (simp add: lru_inv_def lru_al_def lhm.keys_distinct)
  show "lru_inv (lru_put c k v)" using c by (rule lru_inv_put)
  show "lru_contents (lru_put c k v) \<subseteq>\<^sub>m (lru_contents c)(k \<mapsto> v)"
    using map_of_tl_le [OF d]
    by (auto simp: lru_contents_def lru_al_put [OF c] map_of_al_put map_le_def)
  show "fst (lru_get c k) = lru_contents c k"
    by (simp add: lru_get_eq [OF c] lru_contents_def)
  show "lru_inv (snd (lru_get c k))" using c by (rule lru_inv_get)
  show "lru_contents (snd (lru_get c k)) = lru_contents c"
    by (auto simp: lru_contents_def lru_al_get [OF c] al_put_touch(1) [OF d] split: option.split)
  show "lru_inv (lru_evict c k)" using c by (rule lru_evict_spec)
  show "lru_contents (lru_evict c k) = (lru_contents c)(k := None)"
    by (simp add: lru_contents_def lru_evict_spec(2) [OF c] lhm.map_of_al_del)
  show "lru_inv (lru_flush c)" by (rule lru_flush_spec)
  show "lru_contents (lru_flush c) = Map.empty"
    by (simp add: lru_contents_def lru_flush_spec)
qed

lemma lru_fresh_inv: "lru_inv \<lparr>elements = None, Size = s\<rparr>"
  and lru_fresh_al: "lru_al \<lparr>elements = None, Size = s\<rparr> = []"
  and lru_fresh_contents: "lru_contents \<lparr>elements = None, Size = s\<rparr> = Map.empty"
  by (simp_all add: lru_inv_def lru_contents_def lru_al_def lru_map_def lhm.invar_new lhm.al_new)

lemma lru_len_al: "lru_inv c \<Longrightarrow> lru_len c = length (lru_al c)"
  by (auto simp: lru_len_def lru_al_def lru_map_def lru_inv_def lhm.len_al lhm.al_new split: option.splits)

text \<open>
  C19. An \<open>LRU\<close> started empty with bound \<open>s\<close> and driven by any sequence of operations never holds
  more than \<open>max 1 s\<close> entries, a hit is always the last value put for the key and not evicted or
  flushed since, and a value just put is found.
\<close>

theorem lru_bounded_and_sound:
  fixes s :: int and ops :: "('k, 'v) cache_op list" and k :: 'k and v w :: 'v
  defines "c \<equiv> cache_run lru_put lru_get lru_evict lru_flush \<lparr>elements = None, Size = s\<rparr> ops"
  shows "int (lru_len c) \<le> max 1 s
    \<and> (fst (lru_get c k) = Some w \<longrightarrow> store_run Map.empty ops k = Some w)
    \<and> fst (lru_get (lru_put c k v) k) = Some v"
proof -
  let ?c0 = "\<lparr>elements = None, Size = s\<rparr> :: ('k, 'v) lru"
  have inv: "lru_inv c" unfolding c_def by (intro lruc.invar_run lru_fresh_inv)
  have size: "Size (cache_run lru_put lru_get lru_evict lru_flush c' ops) \<le> max 1 (Size c')"
    if "lru_inv c'" for c' :: "('k, 'v) lru"
    using that
  proof (induction ops arbitrary: c')
    case (Cons op ops)
    let ?c = "case op of OPut k v \<Rightarrow> lru_put c' k v | OGet k \<Rightarrow> snd (lru_get c' k)
                       | OEvict k \<Rightarrow> lru_evict c' k | OFlush \<Rightarrow> lru_flush c'"
    have "lru_inv ?c"
      using Cons.prems by (cases op) (simp_all add: lruc.invar_Put lruc.invar_Get lruc.invar_Evict lruc.invar_Flush)
    moreover have "Size ?c \<le> max 1 (Size c')"
      by (cases op) (simp_all add: lru_put_def lru_get_eq lru_evict_def lru_flush_def Let_def
          lru_resize_id Cons.prems)
    ultimately show ?case using Cons.IH [of ?c] by simp
  qed simp
  have "int (lru_len c) \<le> max 1 (Size c)"
    using inv by (simp add: lru_len_al lru_inv_def)
  moreover have "Size c \<le> max 1 s"
    unfolding c_def using size [OF lru_fresh_inv, of s] by simp
  moreover have "store_run Map.empty ops k = Some w" if "fst (lru_get c k) = Some w"
    using lruc.Get_sound [OF lru_fresh_inv that [unfolded c_def]] by (simp add: lru_fresh_contents)
  moreover have "fst (lru_get (lru_put c k v) k) = Some v"
    using inv by (simp add: lruc.fst_Get lruc.invar_Put lru_contents_def lru_al_put map_of_al_put)
  ultimately show ?thesis by auto
qed

lemma lru_bounded_and_sound_witness:
  "fst (lru_get (cache_run lru_put lru_get lru_evict lru_flush \<lparr>elements = None, Size = 2\<rparr>
      [OPut (1::nat) ''a'', OPut 1 ''b'']) 1) = Some ''b''
   \<and> store_run Map.empty [OPut (1::nat) ''a'', OPut 1 ''b''] 1 = Some ''b''"
proof -
  let ?ops = "[OPut (1::nat) ''a'', OPut 1 ''b'']"
  have hit: "fst (lru_get (cache_run lru_put lru_get lru_evict lru_flush \<lparr>elements = None, Size = 2\<rparr>
      ?ops) 1) = Some ''b''"
    by (simp add: lruc.fst_Get lru_inv_put lru_fresh_inv lru_contents_def lru_al_put map_of_al_put)
  with lru_bounded_and_sound [where s = 2 and ops = ?ops and k = 1 and w = "''b''"]
  show ?thesis by blast
qed

text \<open>
  C28. What an \<open>LRU\<close> evicts. On a well-formed cache \<open>Put\<close> makes the pair the newest one and keeps
  every other pair in order, except that a cache already holding \<open>Size\<close> entries first drops its
  oldest entry; a hit of \<open>Get\<close> makes its pair the newest and drops nothing.
\<close>

theorem lru_evicts_oldest:
  assumes "lru_inv c" and "0 < Size c"
  shows "lru_al (lru_put c k v) =
      al_put k v (if int (lru_len c) = Size c then tl (lru_al c) else lru_al c)
    \<and> lru_al (snd (lru_get c k)) =
      (case fst (lru_get c k) of None \<Rightarrow> lru_al c | Some w \<Rightarrow> al_put k w (lru_al c))
    \<and> lru_al (lru_evict c k) = al_del k (lru_al c)"
  using assms lru_al_put [OF assms(1), of k v]
  by (simp add: lru_al_get lru_evict_spec lruc.fst_Get lru_contents_def lru_len_al max_def)

lemma lru_evicts_oldest_witness:
  "let c = lru_put (lru_put \<lparr>elements = None, Size = 2\<rparr> (1::nat) ''a'') 2 ''b''
   in lru_al (lru_put c 3 ''c'') = [(2, ''b''), (3, ''c'')]
    \<and> lru_al (lru_put c 2 ''d'') = [(2, ''d'')]"
proof -
  define c where "c = lru_put (lru_put \<lparr>elements = None, Size = 2\<rparr> (1::nat) ''a'') 2 ''b''"
  have inv: "lru_inv c" unfolding c_def by (intro lru_inv_put lru_fresh_inv)
  have al: "lru_al c = [(1, ''a''), (2, ''b'')]" and sz: "Size c = 2"
    by (simp_all add: c_def lru_al_put lru_Size_put lru_inv_put lru_fresh_inv lru_fresh_al
        al_put_def al_del_def)
  show ?thesis
    unfolding Let_def c_def [symmetric]
    using lru_evicts_oldest [OF inv, of 3 "''c''"] lru_evicts_oldest [OF inv, of 2 "''d''"] inv al sz
    by (simp add: lru_len_al al_put_def al_del_def)
qed

subsection \<open>sizedLRU\<close>

text \<open>
  \<open>size_fn\<close> is the caller's size function, \<open>zeroKV\<close> the zero key and value that \<open>Oldest\<close>
  returns on an empty map and that the eviction loop of \<open>put\<close> would then use. As for \<open>LRU\<close>,
  the loop is given one round more than the map is long; \<open>slru_shrink_while\<close> shows that the Go
  loop stops with the same result.
\<close>

record ('k, 'v) slru =
  s_elements :: "('k, 'v) lhm"
  maxSize :: int
  currentSize :: int
  size_fn :: "'k \<Rightarrow> 'v \<Rightarrow> int"
  zeroKV :: "'k \<times> 'v"

definition NewSizedLRU :: "('k \<times> 'v) \<Rightarrow> int \<Rightarrow> ('k \<Rightarrow> 'v \<Rightarrow> int) \<Rightarrow> ('k, 'v) slru" where
  "NewSizedLRU z mx sf =
     \<lparr>s_elements = lh_new, maxSize = mx, currentSize = 0, size_fn = sf, zeroKV = z\<rparr>"

definition slru_flush :: "('k, 'v) slru \<Rightarrow> ('k, 'v) slru" where
  "slru_flush c = c\<lparr>s_elements := lh_new, currentSize := 0\<rparr>"

definition slru_pop :: "('k, 'v) slru \<Rightarrow> ('k, 'v) slru" where
  "slru_pop c =
     (let (ok, ov) = (case lh_oldest (s_elements c) of None \<Rightarrow> zeroKV c | Some p \<Rightarrow> p)
      in c\<lparr>s_elements := snd (lh_delete (s_elements c) ok),
           currentSize := currentSize c - size_fn c ok ov\<rparr>)"

fun slru_shrink :: "nat \<Rightarrow> int \<Rightarrow> ('k, 'v) slru \<Rightarrow> ('k, 'v) slru" where
  "slru_shrink 0 n c = c"
| "slru_shrink (Suc r) n c =
     (if currentSize c > maxSize c - n then slru_shrink r n (slru_pop c) else c)"

definition slru_put :: "('k, 'v) slru \<Rightarrow> 'k \<Rightarrow> 'v \<Rightarrow> ('k, 'v) slru" where
  "slru_put c k v =
     (let n = size_fn c k v in
      if n > maxSize c then slru_flush c
      else
        let c1 = (case lh_get (s_elements c) k of
                    None \<Rightarrow> c
                  | Some old \<Rightarrow> c\<lparr>currentSize := currentSize c - size_fn c k old\<rparr>);
            c2 = slru_shrink (Suc (lh_len (s_elements c1))) n c1
        in c2\<lparr>s_elements := lh_put (s_elements c2) k v, currentSize := currentSize c2 + n\<rparr>)"

definition slru_get :: "('k, 'v) slru \<Rightarrow> 'k \<Rightarrow> 'v option \<times> ('k, 'v) slru" where
  "slru_get c k =
     (case lh_get (s_elements c) k of
        None \<Rightarrow> (None, c)
      | Some v \<Rightarrow> (Some v, c\<lparr>s_elements := lh_put (s_elements c) k v\<rparr>))"

definition slru_evict :: "('k, 'v) slru \<Rightarrow> 'k \<Rightarrow> ('k, 'v) slru" where
  "slru_evict c k =
     (case lh_get (s_elements c) k of
        None \<Rightarrow> c
      | Some v \<Rightarrow> c\<lparr>s_elements := snd (lh_delete (s_elements c) k),
                      currentSize := currentSize c - size_fn c k v\<rparr>)"

definition slru_len :: "('k, 'v) slru \<Rightarrow> nat" where
  "slru_len c = lh_len (s_elements c)"

definition slru_al :: "('k, 'v) slru \<Rightarrow> ('k \<times> 'v) list" where
  "slru_al c = lh_al (s_elements c)"

definition al_size :: "('k \<Rightarrow> 'v \<Rightarrow> int) \<Rightarrow> ('k \<times> 'v) list \<Rightarrow> int" where
  "al_size sf al = sum_list (map (\<lambda>(k, v). sf k v) al)"

text \<open>
  \<open>slru_inv\<close> is what every operation keeps; \<open>slru_exact\<close> adds that the size account is the
  total size of the pairs held, which is what the account is for.
\<close>

definition slru_inv :: "('k, 'v) slru \<Rightarrow> bool" where
  "slru_inv c \<longleftrightarrow> lh_inv (s_elements c) \<and> (\<forall>k v. 0 \<le> size_fn c k v)
     \<and> currentSize c \<le> al_size (size_fn c) (slru_al c) \<and> currentSize c \<le> maxSize c \<and> 0 \<le> maxSize c"

definition slru_exact :: "('k, 'v) slru \<Rightarrow> bool" where
  "slru_exact c \<longleftrightarrow> slru_inv c \<and> currentSize c = al_size (size_fn c) (slru_al c)"

lemma al_size_simps [simp]:
  "al_size sf [] = 0"
  "al_size sf (p # ps) = sf (fst p) (snd p) + al_size sf ps"
  "al_size sf (ps @ qs) = al_size sf ps + al_size sf qs"
  by (simp_all add: al_size_def split_beta)

lemma al_size_nonneg: "(\<And>k v. 0 \<le> sf k v) \<Longrightarrow> 0 \<le> al_size sf al"
  by (induction al) auto

lemma al_size_del:
  "distinct (map fst al) \<Longrightarrow>
   al_size sf (al_del k al) = al_size sf al - (case map_of al k of None \<Rightarrow> 0 | Some v \<Rightarrow> sf k v)"
proof (induction al)
  case (Cons p al)
  obtain a b where p: "p = (a, b)" by (cases p)
  show ?case
  proof (cases "a = k")
    case True
    with Cons.prems p have "k \<notin> fst ` set al" by auto
    then have "al_del k al = al" by (rule al_del_notin)
    with True p show ?thesis by (simp add: al_del_def)
  next
    case False
    with Cons p show ?thesis by (simp add: al_del_def)
  qed
qed (simp add: al_del_def)

lemma slru_pop_frame [simp]:
  "maxSize (slru_pop c) = maxSize c" "size_fn (slru_pop c) = size_fn c" "zeroKV (slru_pop c) = zeroKV c"
  by (simp_all add: slru_pop_def split_beta)

lemma slru_pop_spec:
  assumes "lh_inv (s_elements c)"
  shows "lh_inv (s_elements (slru_pop c))"
    and "slru_al (slru_pop c) = tl (slru_al c)"
    and "slru_al c \<noteq> [] \<Longrightarrow>
      currentSize (slru_pop c) = currentSize c - size_fn c (fst (hd (slru_al c))) (snd (hd (slru_al c)))"
proof -
  show "lh_inv (s_elements (slru_pop c))"
    using assms by (simp add: slru_pop_def split_beta lhm.invar_delete)
  show "slru_al (slru_pop c) = tl (slru_al c)"
  proof (cases "slru_al c")
    case Nil
    with assms show ?thesis
      by (simp add: slru_al_def slru_pop_def split_beta lhm.al_delete al_del_def)
  next
    case (Cons p ps)
    with assms have "lh_oldest (s_elements c) = Some (fst p, snd p)"
      by (simp add: lhm.oldest_al slru_al_def)
    with lhm.delete_oldest [OF assms this] show ?thesis
      by (simp add: slru_al_def slru_pop_def split_beta)
  qed
  show "slru_al c \<noteq> [] \<Longrightarrow>
      currentSize (slru_pop c) = currentSize c - size_fn c (fst (hd (slru_al c))) (snd (hd (slru_al c)))"
    using assms by (auto simp: slru_pop_def slru_al_def lhm.oldest_al split_beta neq_Nil_conv)
qed

lemma slru_shrink_frame [simp]:
  "maxSize (slru_shrink r n c) = maxSize c" "size_fn (slru_shrink r n c) = size_fn c"
  "zeroKV (slru_shrink r n c) = zeroKV c"
  by (induction r arbitrary: c) auto

lemma slru_shrink_stops:
  assumes "lh_inv (s_elements c)" and "slru_al c = []"
    and "currentSize c \<le> al_size (size_fn c) (slru_al c)" and "n \<le> maxSize c"
  shows "\<not> currentSize c > maxSize c - n"
  using assms by simp

lemma slru_shrink_spec:
  assumes "lh_inv (s_elements c)" and "\<forall>k v. 0 \<le> size_fn c k v"
    and "currentSize c \<le> al_size (size_fn c) (slru_al c)" and "n \<le> maxSize c"
    and "length (slru_al c) < r"
  shows "lh_inv (s_elements (slru_shrink r n c))
    \<and> currentSize (slru_shrink r n c) \<le> maxSize c - n
    \<and> (\<exists>j. slru_al (slru_shrink r n c) = drop j (slru_al c)
         \<and> currentSize (slru_shrink r n c) = currentSize c - al_size (size_fn c) (take j (slru_al c))
         \<and> (j = 0 \<or> currentSize c > maxSize c - n))"
  using assms
proof (induction r arbitrary: c)
  case (Suc r)
  show ?case
  proof (cases "currentSize c > maxSize c - n")
    case False
    with Suc.prems(1) show ?thesis by (auto intro!: exI [of _ 0])
  next
    case True
    with slru_shrink_stops [OF Suc.prems(1) _ Suc.prems(3,4)] obtain p ps where al: "slru_al c = p # ps"
      by (cases "slru_al c") auto
    have pop: "lh_inv (s_elements (slru_pop c))" "slru_al (slru_pop c) = ps"
        "currentSize (slru_pop c) = currentSize c - size_fn c (fst p) (snd p)"
      using slru_pop_spec [OF Suc.prems(1)] al by simp_all
    have "lh_inv (s_elements (slru_shrink r n (slru_pop c)))
      \<and> currentSize (slru_shrink r n (slru_pop c)) \<le> maxSize (slru_pop c) - n
      \<and> (\<exists>j. slru_al (slru_shrink r n (slru_pop c)) = drop j (slru_al (slru_pop c))
           \<and> currentSize (slru_shrink r n (slru_pop c))
              = currentSize (slru_pop c) - al_size (size_fn (slru_pop c)) (take j (slru_al (slru_pop c)))
           \<and> (j = 0 \<or> currentSize (slru_pop c) > maxSize (slru_pop c) - n))"
      using Suc.prems pop al by (intro Suc.IH) simp_all
    then obtain j where "lh_inv (s_elements (slru_shrink r n (slru_pop c)))"
        "currentSize (slru_shrink r n (slru_pop c)) \<le> maxSize c - n"
        "slru_al (slru_shrink r n (slru_pop c)) = drop j ps"
        "currentSize (slru_shrink r n (slru_pop c)) =
           currentSize c - size_fn c (fst p) (snd p) - al_size (size_fn c) (take j ps)"
      by (auto simp: pop)
    with True al show ?thesis
      by (intro conjI exI [of _ "Suc j"]) simp_all
  qed
qed simp

text \<open>The eviction loop of \<open>put\<close> as Go runs it stops, with the bounded loop's result.\<close>

lemma slru_shrink_while:
  assumes "lh_inv (s_elements c)" and "\<forall>k v. 0 \<le> size_fn c k v"
    and "currentSize c \<le> al_size (size_fn c) (slru_al c)" and "n \<le> maxSize c"
    and "length (slru_al c) < r"
  shows "while_option (\<lambda>c. currentSize c > maxSize c - n) slru_pop c = Some (slru_shrink r n c)"
  using assms
proof (induction r arbitrary: c)
  case (Suc r)
  show ?case
  proof (cases "currentSize c > maxSize c - n")
    case False
    then show ?thesis by (simp add: while_option_unfold)
  next
    case True
    with slru_shrink_stops [OF Suc.prems(1) _ Suc.prems(3,4)] obtain p ps where al: "slru_al c = p # ps"
      by (cases "slru_al c") auto
    have "while_option (\<lambda>c. currentSize c > maxSize c - n) slru_pop (slru_pop c)
        = Some (slru_shrink r n (slru_pop c))"
      using Suc.prems slru_pop_spec [OF Suc.prems(1)] al by (intro Suc.IH) simp_all
    with True show ?thesis by (subst while_option_unfold) simp
  qed
qed simp

definition slru_credit :: "('k, 'v) slru \<Rightarrow> 'k \<Rightarrow> ('k, 'v) slru" where
  "slru_credit c k = (case lh_get (s_elements c) k of None \<Rightarrow> c
     | Some old \<Rightarrow> c\<lparr>currentSize := currentSize c - size_fn c k old\<rparr>)"

lemma slru_credit_frame [simp]:
  "s_elements (slru_credit c k) = s_elements c" "maxSize (slru_credit c k) = maxSize c"
  "size_fn (slru_credit c k) = size_fn c" "zeroKV (slru_credit c k) = zeroKV c"
  "slru_al (slru_credit c k) = slru_al c"
  by (simp_all add: slru_credit_def slru_al_def split: option.split)

lemma slru_put_unfold:
  "slru_put c k v =
     (if size_fn c k v > maxSize c then slru_flush c
      else let c2 = slru_shrink (Suc (lh_len (s_elements c))) (size_fn c k v) (slru_credit c k)
           in c2\<lparr>s_elements := lh_put (s_elements c2) k v,
                 currentSize := currentSize c2 + size_fn c k v\<rparr>)"
  by (simp add: slru_put_def Let_def slru_credit_def [symmetric])

lemma slru_put_cases:
  assumes "slru_inv c"
  shows "size_fn c k v > maxSize c \<and> slru_put c k v = slru_flush c
    \<or> (\<exists>j. size_fn c k v \<le> maxSize c
        \<and> lh_inv (s_elements (slru_put c k v))
        \<and> slru_al (slru_put c k v) = al_put k v (drop j (slru_al c))
        \<and> currentSize (slru_put c k v) =
            currentSize (slru_credit c k) - al_size (size_fn c) (take j (slru_al c)) + size_fn c k v
        \<and> currentSize (slru_put c k v) \<le> maxSize c
        \<and> (j = 0 \<or> currentSize (slru_credit c k) > maxSize c - size_fn c k v))"
proof (cases "size_fn c k v > maxSize c")
  case False
  let ?n = "size_fn c k v" and ?r = "Suc (lh_len (s_elements c))"
  let ?c2 = "slru_shrink ?r ?n (slru_credit c k)"
  have inv: "lh_inv (s_elements c)" "\<forall>k v. 0 \<le> size_fn c k v"
      "currentSize c \<le> al_size (size_fn c) (slru_al c)"
    using assms by (simp_all add: slru_inv_def)
  have "currentSize (slru_credit c k) \<le> currentSize c"
    using inv(2) by (simp add: slru_credit_def split: option.split)
  with inv False slru_shrink_spec [of "slru_credit c k" ?n ?r]
  have "lh_inv (s_elements ?c2) \<and> currentSize ?c2 \<le> maxSize c - ?n
      \<and> (\<exists>j. slru_al ?c2 = drop j (slru_al c)
           \<and> currentSize ?c2 = currentSize (slru_credit c k) - al_size (size_fn c) (take j (slru_al c))
           \<and> (j = 0 \<or> currentSize (slru_credit c k) > maxSize c - ?n))"
    by (simp add: lhm.len_al slru_al_def [symmetric])
  then obtain j where j: "lh_inv (s_elements ?c2)" "currentSize ?c2 \<le> maxSize c - ?n"
      "slru_al ?c2 = drop j (slru_al c)"
      "currentSize ?c2 = currentSize (slru_credit c k) - al_size (size_fn c) (take j (slru_al c))"
      "j = 0 \<or> currentSize (slru_credit c k) > maxSize c - ?n"
    by blast
  have put: "slru_put c k v = ?c2\<lparr>s_elements := lh_put (s_elements ?c2) k v,
                 currentSize := currentSize ?c2 + ?n\<rparr>"
    using False by (simp add: slru_put_unfold Let_def)
  have "lh_al (s_elements ?c2) = drop j (slru_al c)" using j(3) by (simp add: slru_al_def)
  with False j(1,2,4,5) show ?thesis
    by (intro disjI2 exI [of _ j]) (simp add: put slru_al_def [of "_\<lparr>s_elements := _, currentSize := _\<rparr>"] lhm.invar_put lhm.al_put)
qed (simp add: slru_put_unfold)

lemma slru_putE:
  assumes "slru_inv c"
  obtains (flush) "size_fn c k v > maxSize c" and "slru_put c k v = slru_flush c"
  | (evict) j where "lh_inv (s_elements (slru_put c k v))"
      and "slru_al (slru_put c k v) = al_put k v (drop j (slru_al c))"
      and "currentSize (slru_put c k v) =
            currentSize (slru_credit c k) - al_size (size_fn c) (take j (slru_al c)) + size_fn c k v"
      and "currentSize (slru_put c k v) \<le> maxSize c"
      and "j = 0 \<or> currentSize (slru_credit c k) > maxSize c - size_fn c k v"
  using slru_put_cases [OF assms, of k v] by blast

lemma map_of_split_drop: "map_of al k = (case map_of (take j al) k of None \<Rightarrow> map_of (drop j al) k | Some x \<Rightarrow> Some x)"
  by (metis append_take_drop_id map_add_def map_of_append)

lemma al_size_split: "al_size sf al = al_size sf (take j al) + al_size sf (drop j al)"
  by (metis append_take_drop_id al_size_simps(3))

lemma map_of_drop_cases:
  assumes "distinct (map fst al)"
  shows "map_of (drop j al) k = (case map_of (take j al) k of None \<Rightarrow> map_of al k | Some x \<Rightarrow> None)"
proof (cases "map_of (take j al) k")
  case None
  with map_of_split_drop [of al k j] show ?thesis by simp
next
  case (Some x)
  then have "k \<in> set (map fst (take j al))" by (force dest: map_of_SomeD)
  moreover have "distinct (map fst (take j al) @ map fst (drop j al))"
    using assms by (simp only: map_append [symmetric] append_take_drop_id)
  ultimately have "k \<notin> fst ` set (drop j al)" by auto
  with Some show ?thesis by (simp add: map_of_eq_None_iff)
qed

lemma slru_al_distinct: "slru_inv c \<Longrightarrow> distinct (map fst (slru_al c))"
  by (simp add: slru_inv_def slru_al_def lhm.keys_distinct)

lemma slru_credit_eq:
  "slru_inv c \<Longrightarrow> currentSize (slru_credit c k) =
     currentSize c - (case map_of (slru_al c) k of None \<Rightarrow> 0 | Some old \<Rightarrow> size_fn c k old)"
  by (simp add: slru_credit_def slru_inv_def lhm.get_al slru_al_def split: option.split)

lemma al_size_put_drop:
  assumes "distinct (map fst al)"
  shows "al_size sf (al_put k v (drop j al)) = al_size sf (drop j al) + sf k v
    - (case map_of (take j al) k of Some _ \<Rightarrow> 0
       | None \<Rightarrow> (case map_of al k of None \<Rightarrow> 0 | Some old \<Rightarrow> sf k old))"
proof -
  have "distinct (map fst (drop j al))" using assms by (metis distinct_drop drop_map)
  then show ?thesis
    by (simp add: al_put_def al_size_del map_of_drop_cases [OF assms] split: option.split)
qed

lemma slru_flush_spec:
  assumes "slru_inv c"
  shows "slru_exact (slru_flush c)" and "slru_al (slru_flush c) = []"
  using assms
  by (simp_all add: slru_exact_def slru_inv_def slru_flush_def slru_al_def lhm.invar_new lhm.al_new)

lemma slru_put_frame [simp]:
  "maxSize (slru_put c k v) = maxSize c" "size_fn (slru_put c k v) = size_fn c"
  by (simp_all add: slru_put_unfold slru_flush_def Let_def)

lemma slru_inv_put:
  assumes "slru_inv c"
  shows "slru_inv (slru_put c k v)"
proof (cases rule: slru_putE [OF assms, of k v, case_names flush evict])
  case flush
  with slru_flush_spec(1) [OF assms] show ?thesis by (simp add: slru_exact_def)
next
  case j: (evict j)
  have nn: "\<And>k v. 0 \<le> size_fn c k v" and le: "currentSize c \<le> al_size (size_fn c) (slru_al c)"
    using assms by (simp_all add: slru_inv_def)
  have "currentSize (slru_put c k v) \<le> al_size (size_fn c) (slru_al (slru_put c k v))"
  proof (cases "map_of (take j (slru_al c)) k")
    case None
    with le al_size_split [of "size_fn c" "slru_al c" j] show ?thesis
      by (simp add: j(2,3) al_size_put_drop [OF slru_al_distinct [OF assms]] slru_credit_eq [OF assms])
  next
    case (Some x)
    with map_of_split_drop [of "slru_al c" k j] have "map_of (slru_al c) k = Some x" by simp
    with Some le nn [of k x] al_size_split [of "size_fn c" "slru_al c" j] show ?thesis
      by (simp add: j(2,3) al_size_put_drop [OF slru_al_distinct [OF assms]] slru_credit_eq [OF assms])
  qed
  with j assms show ?thesis by (simp add: slru_inv_def)
qed

text \<open>
  The account is exact after a \<open>put\<close> of an absent key, or of a present key whose new value is
  not larger than the old one.
\<close>

definition put_not_growing :: "('k, 'v) slru \<Rightarrow> 'k \<Rightarrow> 'v \<Rightarrow> bool" where
  "put_not_growing c k v =
     (case map_of (slru_al c) k of None \<Rightarrow> True | Some old \<Rightarrow> size_fn c k v \<le> size_fn c k old)"

lemma slru_exact_put:
  assumes "slru_exact c" and "put_not_growing c k v"
  shows "slru_exact (slru_put c k v)"
proof -
  have inv: "slru_inv c" and ex: "currentSize c = al_size (size_fn c) (slru_al c)"
    using assms(1) by (simp_all add: slru_exact_def)
  note d = slru_al_distinct [OF inv]
  show ?thesis
  proof (cases rule: slru_putE [OF inv, of k v, case_names flush evict])
    case flush
    with slru_flush_spec(1) [OF inv] show ?thesis by simp
  next
    case j: (evict j)
    have "currentSize (slru_put c k v) = al_size (size_fn c) (slru_al (slru_put c k v))"
    proof (cases "map_of (slru_al c) k")
      case None
      then have "map_of (take j (slru_al c)) k = None"
        using map_of_split_drop [of "slru_al c" k j] by (auto split: option.splits)
      with None ex al_size_split [of "size_fn c" "slru_al c" j] show ?thesis
        by (simp add: j(2,3) al_size_put_drop [OF d] slru_credit_eq [OF inv])
    next
      case (Some old)
      with assms(2) inv have "currentSize (slru_credit c k) \<le> maxSize c - size_fn c k v"
        by (simp add: slru_credit_eq put_not_growing_def slru_inv_def)
      with j(5) have "j = 0" by simp
      with Some ex show ?thesis
        using al_size_put_drop [OF d, of "size_fn c" k v 0] by (simp add: j(2,3) slru_credit_eq [OF inv])
    qed
    with slru_inv_put [OF inv] show ?thesis by (simp add: slru_exact_def)
  qed
qed

lemma slru_get_spec:
  assumes "slru_inv c"
  shows "fst (slru_get c k) = map_of (slru_al c) k" and "slru_inv (snd (slru_get c k))"
    and "map_of (slru_al (snd (slru_get c k))) = map_of (slru_al c)"
    and "slru_exact c \<Longrightarrow> slru_exact (snd (slru_get c k))"
proof -
  have inv: "lh_inv (s_elements c)" using assms by (simp add: slru_inv_def)
  note d = slru_al_distinct [OF assms]
  show "fst (slru_get c k) = map_of (slru_al c) k"
    using inv by (simp add: slru_get_def lhm.get_al slru_al_def split: option.split)
  have al: "slru_al (snd (slru_get c k)) =
      (case map_of (slru_al c) k of None \<Rightarrow> slru_al c | Some v \<Rightarrow> al_put k v (slru_al c))"
    using inv by (simp add: slru_get_def lhm.get_al slru_al_def lhm.al_put split: option.split)
  then show "map_of (slru_al (snd (slru_get c k))) = map_of (slru_al c)"
    using al_put_touch(1) [OF d] by (simp split: option.split)
  have size: "al_size (size_fn c) (slru_al (snd (slru_get c k))) = al_size (size_fn c) (slru_al c)"
    using al_size_put_drop [OF d, of "size_fn c" k _ 0] by (simp add: al split: option.split)
  have "lh_inv (s_elements (snd (slru_get c k)))" "size_fn (snd (slru_get c k)) = size_fn c"
      "maxSize (snd (slru_get c k)) = maxSize c" "currentSize (snd (slru_get c k)) = currentSize c"
    using inv by (simp_all add: slru_get_def lhm.invar_put split: option.split)
  with assms size show i: "slru_inv (snd (slru_get c k))" by (simp add: slru_inv_def)
  show "slru_exact c \<Longrightarrow> slru_exact (snd (slru_get c k))"
    using i size \<open>currentSize _ = _\<close> \<open>size_fn _ = _\<close> by (simp add: slru_exact_def)
qed

lemma slru_evict_spec:
  assumes "slru_inv c"
  shows "slru_al (slru_evict c k) = al_del k (slru_al c)" and "slru_inv (slru_evict c k)"
    and "slru_exact c \<Longrightarrow> slru_exact (slru_evict c k)"
proof -
  have inv: "lh_inv (s_elements c)" "\<And>k v. 0 \<le> size_fn c k v" using assms by (simp_all add: slru_inv_def)
  note d = slru_al_distinct [OF assms]
  show al: "slru_al (slru_evict c k) = al_del k (slru_al c)"
    using inv(1) by (auto simp: slru_evict_def lhm.get_al slru_al_def lhm.al_delete al_del_notin
        map_of_eq_None_iff split: option.split)
  have cs: "currentSize (slru_evict c k) =
      currentSize c - (case map_of (slru_al c) k of None \<Rightarrow> 0 | Some v \<Rightarrow> size_fn c k v)"
    and fr: "size_fn (slru_evict c k) = size_fn c" "maxSize (slru_evict c k) = maxSize c"
        "lh_inv (s_elements (slru_evict c k))"
    using inv(1) by (simp_all add: slru_evict_def lhm.get_al slru_al_def lhm.invar_delete split: option.split)
  show i: "slru_inv (slru_evict c k)"
  proof (cases "map_of (slru_al c) k")
    case None
    with assms show ?thesis by (simp add: slru_inv_def al cs fr al_size_del [OF d])
  next
    case (Some v)
    moreover have "currentSize c - size_fn c k v \<le> maxSize c"
      using assms inv(2) [of k v] unfolding slru_inv_def by linarith
    ultimately show ?thesis using assms by (simp add: slru_inv_def al cs fr al_size_del [OF d])
  qed
  show "slru_exact c \<Longrightarrow> slru_exact (slru_evict c k)"
    using i by (simp add: slru_exact_def al cs fr al_size_del [OF d] split: option.split)
qed

definition slru_contents :: "('k, 'v) slru \<Rightarrow> 'k \<rightharpoonup> 'v" where
  "slru_contents c = map_of (slru_al c)"

lemma slru_put_contents_le:
  assumes "slru_inv c"
  shows "slru_contents (slru_put c k v) \<subseteq>\<^sub>m (slru_contents c)(k \<mapsto> v)"
proof (cases rule: slru_putE [OF assms, of k v, case_names flush evict])
  case flush
  with slru_flush_spec(2) [OF assms] show ?thesis by (simp add: slru_contents_def)
next
  case (evict j)
  have "map_of (drop j (slru_al c)) \<subseteq>\<^sub>m map_of (slru_al c)"
    by (auto simp: map_le_def map_of_drop_cases [OF slru_al_distinct [OF assms]] split: option.splits)
  with evict(2) show ?thesis
    by (auto simp: slru_contents_def map_of_al_put map_le_def)
qed

interpretation slruc: cacher slru_put slru_get slru_evict slru_flush slru_contents slru_inv
proof unfold_locales
  fix c :: "('k, 'v) slru" and k v
  assume c: "slru_inv c"
  show "slru_inv (slru_put c k v)" using c by (rule slru_inv_put)
  show "slru_contents (slru_put c k v) \<subseteq>\<^sub>m (slru_contents c)(k \<mapsto> v)"
    using c by (rule slru_put_contents_le)
  show "fst (slru_get c k) = slru_contents c k" "slru_inv (snd (slru_get c k))"
      "slru_contents (snd (slru_get c k)) = slru_contents c"
    using slru_get_spec [OF c] by (simp_all add: slru_contents_def)
  show "slru_inv (slru_evict c k)" "slru_contents (slru_evict c k) = (slru_contents c)(k := None)"
    using slru_evict_spec [OF c] by (simp_all add: slru_contents_def lhm.map_of_al_del)
  show "slru_inv (slru_flush c)" "slru_contents (slru_flush c) = Map.empty"
    using slru_flush_spec [OF c] by (simp_all add: slru_exact_def slru_contents_def)
qed

lemma NewSizedLRU_spec:
  assumes "\<forall>k v. 0 \<le> sf k v" and "0 \<le> mx"
  shows "slru_exact (NewSizedLRU z mx sf)" and "slru_al (NewSizedLRU z mx sf) = []"
  using assms
  by (simp_all add: slru_exact_def slru_inv_def NewSizedLRU_def slru_al_def lhm.invar_new lhm.al_new)

text \<open>
  C23. A \<open>sizedLRU\<close> whose account is exact keeps it exact, and the pairs it holds then never
  exceed \<open>maxSize\<close>: every \<open>Get\<close>, \<open>Evict\<close> and \<open>Flush\<close> does, and so does every \<open>Put\<close> that does
  not replace a value by a larger one. A \<open>Put\<close> of a pair larger than \<open>maxSize\<close> empties the cache.
\<close>

theorem slru_size_bounded:
  assumes "slru_exact c" and "put_not_growing c k v"
  shows "slru_exact (slru_put c k v) \<and> slru_exact (snd (slru_get c k'))
    \<and> slru_exact (slru_evict c k') \<and> slru_exact (slru_flush c)
    \<and> al_size (size_fn c) (slru_al (slru_put c k v)) \<le> maxSize c
    \<and> (maxSize c < size_fn c k v \<longrightarrow> slru_al (slru_put c k v) = [])
    \<and> (size_fn c k v \<le> maxSize c \<longrightarrow> fst (slru_get (slru_put c k v) k) = Some v)"
proof -
  have inv: "slru_inv c" using assms(1) by (simp add: slru_exact_def)
  note put = slru_exact_put [OF assms]
  have "al_size (size_fn c) (slru_al (slru_put c k v)) \<le> maxSize c"
    using put by (simp add: slru_exact_def slru_inv_def)
  moreover have "slru_al (slru_put c k v) = []" if "maxSize c < size_fn c k v"
    using that slru_flush_spec(2) [OF inv] by (simp add: slru_put_unfold)
  moreover have "fst (slru_get (slru_put c k v) k) = Some v" if "size_fn c k v \<le> maxSize c"
    using slru_put_cases [OF inv, of k v] that slru_inv_put [OF inv, of k v]
    by (auto simp: slruc.fst_Get slru_contents_def map_of_al_put)
  ultimately show ?thesis
    using put slru_get_spec(4) [OF inv assms(1)] slru_evict_spec(3) [OF inv assms(1)]
      slru_flush_spec(1) [OF inv] by blast
qed

lemma slru_size_bounded_witness:
  "let c = slru_put (NewSizedLRU (0, 0) 10 (\<lambda>_ v. int v)) (1::nat) (6::nat)
   in al_size (\<lambda>_ v. int v) (slru_al (slru_put c 2 5)) \<le> 10
      \<and> fst (slru_get (slru_put c 2 5) 2) = Some 5"
proof -
  define c0 where "c0 = (NewSizedLRU (0, 0) 10 (\<lambda>_ v. int v) :: (nat, nat) slru)"
  define c where "c = slru_put c0 (1::nat) (6::nat)"
  have e0: "slru_exact c0" "slru_al c0 = []"
    using NewSizedLRU_spec [of "\<lambda>_ v. int v" 10 "(0, 0)"] by (simp_all add: c0_def)
  then have "slru_exact c"
    unfolding c_def by (intro slru_exact_put [of c0]) (simp_all add: put_not_growing_def)
  have fr: "size_fn c = (\<lambda>_ v. int v)" "maxSize c = 10" by (simp_all add: c_def c0_def NewSizedLRU_def)
  have "slru_al c = [(1, 6)]"
    by (simp add: c_def c0_def NewSizedLRU_def slru_put_def lh_get_def lh_new_def lh_put_def lh_len_def
        slru_al_def lh_al_def)
  then have "put_not_growing c 2 5" by (simp add: put_not_growing_def)
  from slru_size_bounded [OF \<open>slru_exact c\<close> this] show ?thesis
    unfolding Let_def c0_def [symmetric] c_def [symmetric] by (simp add: fr)
qed


subsection \<open>Empty\<close>

definition empty_put :: "unit \<Rightarrow> 'k \<Rightarrow> 'v \<Rightarrow> unit" where
  "empty_put c k v = c"

definition empty_get :: "unit \<Rightarrow> 'k \<Rightarrow> 'v option \<times> unit" where
  "empty_get c k = (None, c)"

definition empty_evict :: "unit \<Rightarrow> 'k \<Rightarrow> unit" where
  "empty_evict c k = c"

definition empty_flush :: "unit \<Rightarrow> unit" where
  "empty_flush c = c"

interpretation emptyc: cacher empty_put empty_get empty_evict empty_flush "\<lambda>_. Map.empty" "\<lambda>_. True"
  by unfold_locales (simp_all add: empty_put_def empty_get_def empty_evict_def empty_flush_def)

end
