(* ===== verification/Packing.thy ===== *)
theory Packing
  imports Slide_Prelude
begin

unbundle bit_operations_syntax

text \<open>
  The byte packer of \<open>utils/wrappers/packing.go\<close> with its sticky error
  (\<open>errors.go\<close>). A Go slice has a length and a capacity: \<open>Bytes\<close> is the visible part and
  \<open>Spare\<close> what the backing array holds beyond it. Where \<open>append\<close> must reallocate, Go chooses the
  new capacity; the argument \<open>grow\<close> of the packing functions is that choice, as a function of the
  old capacity and the needed length. \<open>None\<close> is a run-time panic (an index or slice bound
  below zero).
\<close>

datatype pack_err = ErrInsufficientLength | ErrNegativeOffset | ErrInvalidInput | ErrBadBool | ErrOversized

record packer =
  Err :: "pack_err option"
  MaxSize :: int
  Bytes :: "byte list"
  Spare :: "byte list"
  Offset :: int

definition Errored :: "packer \<Rightarrow> bool" where
  "Errored p = (Err p \<noteq> None)"

definition AddErr :: "pack_err \<Rightarrow> packer \<Rightarrow> packer" where
  "AddErr e p = (if Err p = None then p\<lparr>Err := Some e\<rparr> else p)"

definition checkSpace :: "int \<Rightarrow> packer \<Rightarrow> packer" where
  "checkSpace n p =
     (if Offset p < 0 then AddErr ErrNegativeOffset p
      else if n < 0 then AddErr ErrInvalidInput p
      else if int (length (Bytes p)) - Offset p < n then AddErr ErrInsufficientLength p
      else p)"

definition expand :: "(nat \<Rightarrow> nat \<Rightarrow> nat) \<Rightarrow> int \<Rightarrow> packer \<Rightarrow> packer" where
  "expand grow n p =
     (let needed = n + Offset p;
          arr = Bytes p @ Spare p
      in if needed \<le> int (length (Bytes p)) then p
         else if needed > MaxSize p then p\<lparr>Err := Some ErrInsufficientLength\<rparr>
         else if needed \<le> int (length arr) then
           p\<lparr>Bytes := take (nat needed) arr, Spare := drop (nat needed) arr\<rparr>
         else
           p\<lparr>Bytes := arr @ replicate (nat needed - length arr) 0,
             Spare := replicate (grow (length arr) (nat needed)) 0\<rparr>)"

text \<open>\<open>copy(b[off:], bs)\<close> and \<open>b[off:off+n]\<close>, with the panics of Go's slice expressions.\<close>

definition write_at :: "byte list \<Rightarrow> int \<Rightarrow> byte list \<Rightarrow> byte list option" where
  "write_at bs off src =
     (if off < 0 \<or> int (length bs) < off then None
      else let i = nat off; n = min (length src) (length bs - i)
           in Some (take i bs @ take n src @ drop (i + n) bs))"

definition read_at :: "byte list \<Rightarrow> int \<Rightarrow> nat \<Rightarrow> byte list" where
  "read_at bs off n = take n (drop (nat off) bs)"

subsection \<open>Big-endian integers\<close>

text \<open>\<open>binary.BigEndian.PutUintN\<close> and \<open>UintN\<close>, for a word of \<open>n\<close> bytes.\<close>

definition be_put :: "nat \<Rightarrow> 'a::len word \<Rightarrow> byte list" where
  "be_put n v = map (\<lambda>i. ucast (drop_bit (8 * i) v)) (rev [0..<n])"

definition be_get :: "byte list \<Rightarrow> 'a::len word" where
  "be_get bs = foldl (\<lambda>acc b. push_bit 8 acc OR ucast b) 0 bs"

subsection \<open>Packing\<close>

definition pack_raw :: "(nat \<Rightarrow> nat \<Rightarrow> nat) \<Rightarrow> byte list \<Rightarrow> packer \<Rightarrow> packer option" where
  "pack_raw grow bs p0 =
     (let p = expand grow (int (length bs)) p0 in
      if Errored p then Some p
      else map_option (\<lambda>b. p\<lparr>Bytes := b, Offset := Offset p + int (length bs)\<rparr>)
             (write_at (Bytes p) (Offset p) bs))"

definition PackByte :: "(nat \<Rightarrow> nat \<Rightarrow> nat) \<Rightarrow> byte \<Rightarrow> packer \<Rightarrow> packer option" where
  "PackByte grow v p = pack_raw grow [v] p"

definition PackShort :: "(nat \<Rightarrow> nat \<Rightarrow> nat) \<Rightarrow> uint16 \<Rightarrow> packer \<Rightarrow> packer option" where
  "PackShort grow v p = pack_raw grow (be_put 2 v) p"

definition PackInt :: "(nat \<Rightarrow> nat \<Rightarrow> nat) \<Rightarrow> uint32 \<Rightarrow> packer \<Rightarrow> packer option" where
  "PackInt grow v p = pack_raw grow (be_put 4 v) p"

definition PackLong :: "(nat \<Rightarrow> nat \<Rightarrow> nat) \<Rightarrow> uint64 \<Rightarrow> packer \<Rightarrow> packer option" where
  "PackLong grow v p = pack_raw grow (be_put 8 v) p"

definition PackBool :: "(nat \<Rightarrow> nat \<Rightarrow> nat) \<Rightarrow> bool \<Rightarrow> packer \<Rightarrow> packer option" where
  "PackBool grow b p = (if b then PackByte grow 1 p else PackByte grow 0 p)"

definition PackFixedBytes :: "(nat \<Rightarrow> nat \<Rightarrow> nat) \<Rightarrow> byte list \<Rightarrow> packer \<Rightarrow> packer option" where
  "PackFixedBytes grow bs p = pack_raw grow bs p"

definition PackBytes :: "(nat \<Rightarrow> nat \<Rightarrow> nat) \<Rightarrow> byte list \<Rightarrow> packer \<Rightarrow> packer option" where
  "PackBytes grow bs p =
     Option.bind (PackInt grow (of_nat (length bs)) p) (PackFixedBytes grow bs)"

definition MaxStringLen :: nat where
  "MaxStringLen = 65535"

definition PackStr :: "(nat \<Rightarrow> nat \<Rightarrow> nat) \<Rightarrow> byte list \<Rightarrow> packer \<Rightarrow> packer option" where
  "PackStr grow s p =
     (if length s > MaxStringLen then Some (AddErr ErrInvalidInput p)
      else Option.bind (PackShort grow (of_nat (length s)) p) (PackFixedBytes grow s))"

subsection \<open>Unpacking\<close>

text \<open>A failed read returns the zero value of its type and leaves the offset.\<close>

definition unpack_raw :: "nat \<Rightarrow> packer \<Rightarrow> byte list option \<times> packer" where
  "unpack_raw n p0 =
     (let p = checkSpace (int n) p0 in
      if Errored p then (None, p)
      else (Some (read_at (Bytes p) (Offset p) n), p\<lparr>Offset := Offset p + int n\<rparr>))"

definition unpack_word :: "nat \<Rightarrow> packer \<Rightarrow> 'a::len word \<times> packer" where
  "unpack_word n p0 =
     (case unpack_raw n p0 of (None, p) \<Rightarrow> (0, p) | (Some bs, p) \<Rightarrow> (be_get bs, p))"

definition UnpackByte :: "packer \<Rightarrow> byte \<times> packer" where
  "UnpackByte p = unpack_word 1 p"

definition UnpackShort :: "packer \<Rightarrow> uint16 \<times> packer" where
  "UnpackShort p = unpack_word 2 p"

definition UnpackInt :: "packer \<Rightarrow> uint32 \<times> packer" where
  "UnpackInt p = unpack_word 4 p"

definition UnpackLong :: "packer \<Rightarrow> uint64 \<times> packer" where
  "UnpackLong p = unpack_word 8 p"

definition UnpackBool :: "packer \<Rightarrow> bool \<times> packer" where
  "UnpackBool p0 =
     (case UnpackByte p0 of (b, p) \<Rightarrow>
        if b = 0 then (False, p) else if b = 1 then (True, p) else (False, AddErr ErrBadBool p))"

text \<open>The \<open>size\<close> argument is Go's \<open>int\<close>, which may be negative.\<close>

definition UnpackFixedBytes :: "int \<Rightarrow> packer \<Rightarrow> byte list \<times> packer" where
  "UnpackFixedBytes n p0 =
     (let p = checkSpace n p0 in
      if Errored p then ([], p)
      else (read_at (Bytes p) (Offset p) (nat n), p\<lparr>Offset := Offset p + n\<rparr>))"

definition UnpackBytes :: "packer \<Rightarrow> byte list \<times> packer" where
  "UnpackBytes p0 = (case UnpackInt p0 of (n, p) \<Rightarrow> UnpackFixedBytes (uint n) p)"

definition UnpackLimitedBytes :: "uint32 \<Rightarrow> packer \<Rightarrow> byte list \<times> packer" where
  "UnpackLimitedBytes limit p0 =
     (case UnpackInt p0 of (n, p) \<Rightarrow>
        if n > limit then ([], AddErr ErrOversized p) else UnpackFixedBytes (uint n) p)"

definition UnpackStr :: "packer \<Rightarrow> byte list \<times> packer" where
  "UnpackStr p0 = (case UnpackShort p0 of (n, p) \<Rightarrow> UnpackFixedBytes (uint n) p)"

definition UnpackLimitedStr :: "uint16 \<Rightarrow> packer \<Rightarrow> byte list \<times> packer" where
  "UnpackLimitedStr limit p0 =
     (case UnpackShort p0 of (n, p) \<Rightarrow>
        if n > limit then ([], AddErr ErrOversized p) else UnpackFixedBytes (uint n) p)"

subsection \<open>Lemmas on the byte order\<close>

lemma length_be_put [simp]: "length (be_put n v) = n"
  by (simp add: be_put_def)

lemma be_put_Suc: "be_put (Suc n) v = ucast (drop_bit (8 * n) v) # be_put n v"
  by (simp add: be_put_def)

lemma foldl_be: "foldl (\<lambda>acc b. push_bit 8 acc OR ucast (b :: byte)) (a :: 'a::len word) bs
    = push_bit (8 * length bs) a OR foldl (\<lambda>acc b. push_bit 8 acc OR ucast b) 0 bs"
proof (induction bs arbitrary: a)
  case (Cons b bs)
  let ?f = "\<lambda>acc b. push_bit 8 acc OR ucast (b :: byte) :: 'a word"
  have "foldl ?f a (b # bs) = push_bit (8 * length bs) (push_bit 8 a OR ucast b) OR foldl ?f 0 bs"
    using Cons.IH [of "push_bit 8 a OR ucast b"] by (simp only: foldl_Cons)
  moreover have "foldl ?f 0 (b # bs) = push_bit (8 * length bs) (ucast b) OR foldl ?f 0 bs"
    using Cons.IH [of "push_bit 8 0 OR ucast b"] by (simp only: foldl_Cons push_bit_of_0 or.left_neutral)
  ultimately show ?case
    by (simp only: push_bit_or push_bit_push_bit or.assoc length_Cons mult_Suc_right)
      (simp only: add.commute)
qed simp

lemma be_get_Cons: "be_get (b # bs) = push_bit (8 * length bs) (ucast b) OR be_get bs"
  unfolding be_get_def foldl_Cons push_bit_of_0 or.left_neutral by (rule foldl_be)

lemma be_get_put_take: "(be_get (be_put n v) :: 'a::len word) = take_bit (8 * n) v"
proof (induction n)
  case 0
  then show ?case by (simp add: be_get_def be_put_def)
next
  case (Suc n)
  have "push_bit (8 * n) (ucast (ucast (drop_bit (8 * n) v) :: byte)) OR take_bit (8 * n) v
      = take_bit (8 + 8 * n) v"
    by (rule bit_word_eqI) (auto simp: bit_simps)
  with Suc show ?case by (simp add: be_put_Suc be_get_Cons)
qed

lemma be_get_put: "LENGTH('a) \<le> 8 * n \<Longrightarrow> be_get (be_put n v) = (v :: 'a::len word)"
  by (simp add: be_get_put_take take_bit_word_eq_self)

lemma be_get_singleton: "be_get [b] = (b :: byte)"
  by (simp add: be_get_def)

subsection \<open>Packing appends, unpacking reads back\<close>

text \<open>A packer at the end of its bytes, without error: the state every client of \<open>Pack*\<close> is in.\<close>

definition at_end :: "packer \<Rightarrow> bool" where
  "at_end p \<longleftrightarrow> Err p = None \<and> Offset p = int (length (Bytes p))"

lemma pack_raw_append:
  assumes "at_end p" and "int (length (Bytes p) + length bs) \<le> MaxSize p"
  shows "\<exists>sp. pack_raw grow bs p =
    Some (p\<lparr>Bytes := Bytes p @ bs, Spare := sp, Offset := int (length (Bytes p) + length bs)\<rparr>)"
proof (cases "bs = []")
  case True
  with assms show ?thesis
    by (intro exI [of _ "Spare p"])
      (simp add: pack_raw_def expand_def Let_def at_end_def Errored_def write_at_def)
next
  case ne: False
  define q where "q = expand grow (int (length bs)) p"
  have needed: "int (length bs) + Offset p = int (length (Bytes p) + length bs)"
    using assms(1) by (simp add: at_end_def)
  have q: "Err q = None" "Offset q = Offset p" "MaxSize q = MaxSize p"
      "\<exists>tail. Bytes q = Bytes p @ tail \<and> length tail = length bs"
  proof -
    show "Err q = None" "Offset q = Offset p" "MaxSize q = MaxSize p"
      using assms ne by (simp_all add: q_def expand_def Let_def at_end_def)
    show "\<exists>tail. Bytes q = Bytes p @ tail \<and> length tail = length bs"
    proof (cases "length (Bytes p) + length bs \<le> length (Bytes p @ Spare p)")
      case True
      then have "Bytes q = Bytes p @ take (length bs) (Spare p)"
        using assms ne by (simp add: q_def expand_def Let_def at_end_def nat_add_distrib add.commute)
      with True show ?thesis by auto
    next
      case False
      then have "Bytes q = Bytes p @ Spare p @ replicate (length bs - length (Spare p)) 0"
        using assms ne by (simp add: q_def expand_def Let_def at_end_def nat_add_distrib)
      with False show ?thesis by auto
    qed
  qed
  then obtain tail where tail: "Bytes q = Bytes p @ tail" "length tail = length bs" by blast
  have "write_at (Bytes q) (Offset q) bs = Some (Bytes p @ bs)"
    using assms(1) tail q(2) by (simp add: write_at_def Let_def at_end_def)
  then have pr: "pack_raw grow bs p = Some (q\<lparr>Bytes := Bytes p @ bs, Offset := int (length (Bytes p) + length bs)\<rparr>)"
    using q needed by (simp add: pack_raw_def q_def [symmetric] Let_def Errored_def)
  have "q\<lparr>Bytes := Bytes p @ bs, Offset := int (length (Bytes p) + length bs)\<rparr>
      = p\<lparr>Bytes := Bytes p @ bs, Spare := Spare q, Offset := int (length (Bytes p) + length bs)\<rparr>"
    using q assms(1) by (intro packer.equality) (simp_all add: at_end_def)
  with pr show ?thesis by auto
qed

lemma pack_raw_overflow:
  assumes "at_end p" and "bs \<noteq> []" and "MaxSize p < int (length (Bytes p) + length bs)"
  shows "pack_raw grow bs p = Some (p\<lparr>Err := Some ErrInsufficientLength\<rparr>)"
  using assms by (simp add: pack_raw_def expand_def Let_def at_end_def Errored_def)

lemma unpack_raw_read:
  assumes "Err p = None" and "Bytes p = xs @ bs @ ys" and "Offset p = int (length xs)"
  shows "unpack_raw (length bs) p = (Some bs, p\<lparr>Offset := int (length xs + length bs)\<rparr>)"
  using assms
  by (simp add: unpack_raw_def checkSpace_def Errored_def read_at_def Let_def)

lemma unpack_word_read:
  assumes "Err p = None" and "Bytes p = xs @ be_put n v @ ys" and "Offset p = int (length xs)"
    and "LENGTH('a) \<le> 8 * n"
  shows "unpack_word n p = (v :: 'a::len word, p\<lparr>Offset := int (length xs + n)\<rparr>)"
  using unpack_raw_read [OF assms(1-3)] assms(4) by (simp add: unpack_word_def be_get_put)

lemma UnpackFixedBytes_read:
  assumes "Err p = None" and "Bytes p = xs @ bs @ ys" and "Offset p = int (length xs)"
  shows "UnpackFixedBytes (int (length bs)) p = (bs, p\<lparr>Offset := int (length xs + length bs)\<rparr>)"
  using assms
  by (simp add: UnpackFixedBytes_def checkSpace_def Errored_def read_at_def Let_def)

subsection \<open>Round trip of a sequence of fields\<close>

datatype pfield = FByte byte | FShort uint16 | FInt uint32 | FLong uint64 | FBool bool
  | FFixed "byte list" | FBytes "byte list" | FStr "byte list"

fun pack_field :: "(nat \<Rightarrow> nat \<Rightarrow> nat) \<Rightarrow> pfield \<Rightarrow> packer \<Rightarrow> packer option" where
  "pack_field g (FByte v) p = PackByte g v p"
| "pack_field g (FShort v) p = PackShort g v p"
| "pack_field g (FInt v) p = PackInt g v p"
| "pack_field g (FLong v) p = PackLong g v p"
| "pack_field g (FBool b) p = PackBool g b p"
| "pack_field g (FFixed bs) p = PackFixedBytes g bs p"
| "pack_field g (FBytes bs) p = PackBytes g bs p"
| "pack_field g (FStr s) p = PackStr g s p"

text \<open>Reading a field back: the reader knows its type and, for fixed bytes, the length.\<close>

fun unpack_field :: "pfield \<Rightarrow> packer \<Rightarrow> pfield \<times> packer" where
  "unpack_field (FByte _) p = map_prod FByte id (UnpackByte p)"
| "unpack_field (FShort _) p = map_prod FShort id (UnpackShort p)"
| "unpack_field (FInt _) p = map_prod FInt id (UnpackInt p)"
| "unpack_field (FLong _) p = map_prod FLong id (UnpackLong p)"
| "unpack_field (FBool _) p = map_prod FBool id (UnpackBool p)"
| "unpack_field (FFixed bs) p = map_prod FFixed id (UnpackFixedBytes (int (length bs)) p)"
| "unpack_field (FBytes _) p = map_prod FBytes id (UnpackBytes p)"
| "unpack_field (FStr _) p = map_prod FStr id (UnpackStr p)"

fun pack_all :: "(nat \<Rightarrow> nat \<Rightarrow> nat) \<Rightarrow> pfield list \<Rightarrow> packer \<Rightarrow> packer option" where
  "pack_all g [] p = Some p"
| "pack_all g (f # fs) p = Option.bind (pack_field g f p) (pack_all g fs)"

fun unpack_all :: "pfield list \<Rightarrow> packer \<Rightarrow> pfield list \<times> packer" where
  "unpack_all [] p = ([], p)"
| "unpack_all (f # fs) p =
     (case unpack_field f p of (x, q) \<Rightarrow> map_prod ((#) x) id (unpack_all fs q))"

fun field_enc :: "pfield \<Rightarrow> byte list" where
  "field_enc (FByte v) = [v]"
| "field_enc (FShort v) = be_put 2 v"
| "field_enc (FInt v) = be_put 4 v"
| "field_enc (FLong v) = be_put 8 v"
| "field_enc (FBool b) = [if b then 1 else 0]"
| "field_enc (FFixed bs) = bs"
| "field_enc (FBytes bs) = be_put 4 (of_nat (length bs) :: uint32) @ bs"
| "field_enc (FStr s) = be_put 2 (of_nat (length s) :: uint16) @ s"

fun field_ok :: "pfield \<Rightarrow> bool" where
  "field_ok (FBytes bs) = (length bs < 2 ^ 32)"
| "field_ok (FStr s) = (length s \<le> MaxStringLen)"
| "field_ok _ = True"

lemma pack_raw_append2:
  assumes "at_end p" and "int (length (Bytes p) + length (xs @ ys)) \<le> MaxSize p"
  shows "\<exists>sp. Option.bind (pack_raw g xs p) (pack_raw g ys) =
    Some (p\<lparr>Bytes := Bytes p @ xs @ ys, Spare := sp, Offset := int (length (Bytes p) + length (xs @ ys))\<rparr>)"
proof -
  from assms obtain sp where 1: "pack_raw g xs p =
      Some (p\<lparr>Bytes := Bytes p @ xs, Spare := sp, Offset := int (length (Bytes p) + length xs)\<rparr>)"
    using pack_raw_append [of p xs g] by auto
  let ?q = "p\<lparr>Bytes := Bytes p @ xs, Spare := sp, Offset := int (length (Bytes p) + length xs)\<rparr>"
  have "at_end ?q" using assms(1) by (simp add: at_end_def)
  moreover have "int (length (Bytes ?q) + length ys) \<le> MaxSize ?q" using assms(2) by simp
  ultimately show ?thesis
    using pack_raw_append [of ?q ys g] 1 by (auto simp: add.assoc)
qed

lemma pack_field_append:
  assumes "at_end p" and "field_ok f" and "int (length (Bytes p) + length (field_enc f)) \<le> MaxSize p"
  shows "\<exists>sp. pack_field g f p = Some (p\<lparr>Bytes := Bytes p @ field_enc f, Spare := sp,
    Offset := int (length (Bytes p) + length (field_enc f))\<rparr>)"
proof (cases f)
  case (FBytes bs)
  have "PackBytes g bs p = Option.bind (pack_raw g (be_put 4 (of_nat (length bs) :: uint32)) p) (pack_raw g bs)"
    by (simp add: PackBytes_def PackInt_def PackFixedBytes_def [abs_def])
  with pack_raw_append2 [of p "be_put 4 (of_nat (length bs) :: uint32)" bs g] assms(1,3) show ?thesis by (simp add: FBytes)
next
  case (FStr s)
  have "PackStr g s p = Option.bind (pack_raw g (be_put 2 (of_nat (length s) :: uint16)) p) (pack_raw g s)"
    using assms(2) by (simp add: FStr PackStr_def PackShort_def PackFixedBytes_def [abs_def])
  with pack_raw_append2 [of p "be_put 2 (of_nat (length s) :: uint16)" s g] assms(1,3) show ?thesis by (simp add: FStr)
next
  case (FBool b)
  with pack_raw_append [OF assms(1), of "field_enc f" g] assms(3) show ?thesis
    by (simp add: PackBool_def PackByte_def split: if_splits)
qed (use pack_raw_append [OF assms(1), of "field_enc f" g] assms(3) in
  \<open>simp_all add: PackByte_def PackShort_def PackInt_def PackLong_def PackFixedBytes_def\<close>)

lemma unpack_field_read:
  assumes "Err p = None" and "Bytes p = xs @ field_enc f @ ys" and "Offset p = int (length xs)"
    and "field_ok f"
  shows "unpack_field f p = (f, p\<lparr>Offset := int (length xs + length (field_enc f))\<rparr>)"
proof (cases f)
  case (FByte v)
  with unpack_raw_read [OF assms(1-3)] show ?thesis
    by (simp add: UnpackByte_def unpack_word_def be_get_singleton)
next
  case (FBool b)
  with unpack_raw_read [OF assms(1-3)] show ?thesis
    by (simp add: UnpackBool_def UnpackByte_def unpack_word_def be_get_singleton)
next
  case (FBytes bs)
  have n: "uint (of_nat (length bs) :: uint32) = int (length bs)"
    using assms(4) FBytes by (simp add: unsigned_of_nat take_bit_nat_eq_self)
  have "UnpackInt p = (of_nat (length bs), p\<lparr>Offset := int (length xs + 4)\<rparr>)"
    unfolding UnpackInt_def by (rule unpack_word_read [OF assms(1)]) (use assms(2,3) FBytes in simp_all)
  moreover have "UnpackFixedBytes (int (length bs)) (p\<lparr>Offset := int (length xs + 4)\<rparr>)
      = (bs, p\<lparr>Offset := int (length xs + 4 + length bs)\<rparr>)"
    using UnpackFixedBytes_read [of "p\<lparr>Offset := int (length xs + 4)\<rparr>" "xs @ be_put 4 (of_nat (length bs) :: uint32)" bs ys]
      assms(1,2) FBytes by simp
  ultimately show ?thesis by (simp add: FBytes UnpackBytes_def n add.assoc)
next
  case (FStr s)
  have n: "uint (of_nat (length s) :: uint16) = int (length s)"
    using assms(4) FStr by (simp add: unsigned_of_nat take_bit_nat_eq_self MaxStringLen_def)
  have "UnpackShort p = (of_nat (length s), p\<lparr>Offset := int (length xs + 2)\<rparr>)"
    unfolding UnpackShort_def by (rule unpack_word_read [OF assms(1)]) (use assms(2,3) FStr in simp_all)
  moreover have "UnpackFixedBytes (int (length s)) (p\<lparr>Offset := int (length xs + 2)\<rparr>)
      = (s, p\<lparr>Offset := int (length xs + 2 + length s)\<rparr>)"
    using UnpackFixedBytes_read [of "p\<lparr>Offset := int (length xs + 2)\<rparr>" "xs @ be_put 2 (of_nat (length s) :: uint16)" s ys]
      assms(1,2) FStr by simp
  ultimately show ?thesis by (simp add: FStr UnpackStr_def n add.assoc)
next
  case (FFixed bs)
  with UnpackFixedBytes_read [OF assms(1) _ assms(3), of bs ys] assms(2) show ?thesis by simp
next
  case (FShort v)
  with unpack_word_read [OF assms(1) _ assms(3), of 2 v ys] assms(2) show ?thesis
    by (simp add: UnpackShort_def)
next
  case (FInt v)
  with unpack_word_read [OF assms(1) _ assms(3), of 4 v ys] assms(2) show ?thesis
    by (simp add: UnpackInt_def)
next
  case (FLong v)
  with unpack_word_read [OF assms(1) _ assms(3), of 8 v ys] assms(2) show ?thesis
    by (simp add: UnpackLong_def)
qed

lemma pack_all_append:
  assumes "at_end p" and "\<forall>f\<in>set fs. field_ok f"
    and "int (length (Bytes p) + length (concat (map field_enc fs))) \<le> MaxSize p"
  shows "\<exists>sp. pack_all g fs p = Some (p\<lparr>Bytes := Bytes p @ concat (map field_enc fs), Spare := sp,
    Offset := int (length (Bytes p) + length (concat (map field_enc fs)))\<rparr>)"
  using assms
proof (induction fs arbitrary: p)
  case Nil
  then show ?case by (auto simp: at_end_def intro!: exI [of _ "Spare p"])
next
  case (Cons f fs)
  then obtain sp where 1: "pack_field g f p = Some (p\<lparr>Bytes := Bytes p @ field_enc f, Spare := sp,
      Offset := int (length (Bytes p) + length (field_enc f))\<rparr>)"
    using pack_field_append [of p f g] by auto
  let ?q = "p\<lparr>Bytes := Bytes p @ field_enc f, Spare := sp,
      Offset := int (length (Bytes p) + length (field_enc f))\<rparr>"
  have "at_end ?q" using Cons.prems(1) by (simp add: at_end_def)
  then obtain sp' where "pack_all g fs ?q = Some (?q\<lparr>Bytes := Bytes ?q @ concat (map field_enc fs), Spare := sp',
      Offset := int (length (Bytes ?q) + length (concat (map field_enc fs)))\<rparr>)"
    using Cons.IH [of ?q] Cons.prems(2,3) by (auto simp: add.assoc)
  with 1 show ?case by (auto simp: add.assoc)
qed

lemma unpack_all_read:
  assumes "Err p = None" and "Bytes p = xs @ concat (map field_enc fs) @ ys"
    and "Offset p = int (length xs)" and "\<forall>f\<in>set fs. field_ok f"
  shows "unpack_all fs p = (fs, p\<lparr>Offset := int (length xs + length (concat (map field_enc fs)))\<rparr>)"
  using assms
proof (induction fs arbitrary: p xs)
  case (Cons f fs)
  let ?q = "p\<lparr>Offset := int (length xs + length (field_enc f))\<rparr>"
  have "unpack_field f p = (f, ?q)"
    using Cons.prems by (intro unpack_field_read [of p xs f "concat (map field_enc fs) @ ys"]) simp_all
  moreover have "unpack_all fs ?q =
      (fs, ?q\<lparr>Offset := int (length (xs @ field_enc f) + length (concat (map field_enc fs)))\<rparr>)"
    using Cons.prems by (intro Cons.IH) simp_all
  ultimately show ?case by (simp add: add.assoc)
qed simp

text \<open>
  C17. What is packed is what is unpacked: writing any sequence of bytes, shorts, ints, longs,
  bools, fixed and length-prefixed byte slices and strings to a packer with room for them succeeds
  whatever capacity Go's allocator chooses, appends exactly their encodings, and reading the same
  sequence of types back from there returns the values, without error and without reading past
  them.
\<close>

theorem packer_roundtrip:
  assumes "at_end p" and "\<forall>f\<in>set fs. field_ok f"
    and "int (length (Bytes p) + length (concat (map field_enc fs))) \<le> MaxSize p"
  shows "\<exists>p'. pack_all grow fs p = Some p' \<and> at_end p'
    \<and> Bytes p' = Bytes p @ concat (map field_enc fs)
    \<and> unpack_all fs (p'\<lparr>Offset := Offset p\<rparr>) = (fs, p')"
proof -
  obtain sp where pa: "pack_all grow fs p = Some (p\<lparr>Bytes := Bytes p @ concat (map field_enc fs), Spare := sp,
      Offset := int (length (Bytes p) + length (concat (map field_enc fs)))\<rparr>)"
    using pack_all_append [OF assms] by blast
  let ?p = "p\<lparr>Bytes := Bytes p @ concat (map field_enc fs), Spare := sp,
      Offset := int (length (Bytes p) + length (concat (map field_enc fs)))\<rparr>"
  have "unpack_all fs (?p\<lparr>Offset := Offset p\<rparr>) = (fs, ?p)"
    using unpack_all_read [of "?p\<lparr>Offset := Offset p\<rparr>" "Bytes p" fs "[]"] assms(1,2)
    by (simp add: at_end_def)
  moreover have "at_end ?p" using assms(1) by (simp add: at_end_def)
  ultimately show ?thesis using pa by auto
qed

lemma packer_roundtrip_witness:
  "let p = \<lparr>Err = None, MaxSize = 64, Bytes = [], Spare = [], Offset = 0\<rparr>;
       fs = [FByte 7, FLong 258, FBool True, FBytes [1, 2, 3], FStr [65]]
   in \<exists>p'. pack_all (\<lambda>c n. n) fs p = Some p' \<and> at_end p'
        \<and> Bytes p' = [7, 0, 0, 0, 0, 0, 0, 1, 2, 1, 0, 0, 0, 3, 1, 2, 3, 0, 1, 65]
        \<and> unpack_all fs (p'\<lparr>Offset := 0\<rparr>) = (fs, p')"
proof -
  define p where "p = \<lparr>Err = None, MaxSize = 64, Bytes = [], Spare = [], Offset = 0\<rparr>"
  define fs where "fs = [FByte 7, FLong 258, FBool True, FBytes [1, 2, 3], FStr [65]]"
  have enc: "concat (map field_enc fs) = [7, 0, 0, 0, 0, 0, 0, 1, 2, 1, 0, 0, 0, 3, 1, 2, 3, 0, 1, 65]"
    unfolding fs_def by code_simp
  have "at_end p" "\<forall>f\<in>set fs. field_ok f"
    by (simp_all add: p_def fs_def at_end_def MaxStringLen_def)
  moreover have "int (length (Bytes p) + length (concat (map field_enc fs))) \<le> MaxSize p"
    unfolding enc by (simp add: p_def)
  ultimately show ?thesis
    using packer_roundtrip [of p fs "\<lambda>c n. n"] unfolding Let_def p_def [symmetric] fs_def [symmetric]
    by (simp add: enc) (simp add: p_def)
qed

subsection \<open>Safety of unpacking arbitrary bytes\<close>

lemma Err_AddErr: "Err (AddErr e p) \<noteq> None"
  by (simp add: AddErr_def)

lemma checkSpace_ok_iff:
  "Err (checkSpace n p) = None \<longleftrightarrow>
     Err p = None \<and> 0 \<le> Offset p \<and> 0 \<le> n \<and> Offset p + n \<le> int (length (Bytes p))"
  by (auto simp: checkSpace_def AddErr_def)

lemma checkSpace_ok: "Err (checkSpace n p) = None \<Longrightarrow> checkSpace n p = p"
  by (auto simp: checkSpace_def AddErr_def split: if_splits)

lemma checkSpace_sticky: "Err p = Some e \<Longrightarrow> checkSpace n p = p"
  by (simp add: checkSpace_def AddErr_def)

text \<open>
  C30. Unpacking untrusted bytes is safe. A read of \<open>n\<close> bytes succeeds exactly when there is no
  earlier error, the offset and \<open>n\<close> are not negative and \<open>n\<close> bytes are left; it then returns
  exactly those bytes and advances by \<open>n\<close>. Otherwise it returns nothing, keeps bytes and offset,
  and an error is set, the first error being kept.
\<close>

theorem unpack_fixed_safe:
  "if Err p = None \<and> 0 \<le> Offset p \<and> 0 \<le> n \<and> Offset p + n \<le> int (length (Bytes p))
   then UnpackFixedBytes n p = (take (nat n) (drop (nat (Offset p)) (Bytes p)), p\<lparr>Offset := Offset p + n\<rparr>)
      \<and> length (fst (UnpackFixedBytes n p)) = nat n
   else (\<exists>e. UnpackFixedBytes n p = ([], p\<lparr>Err := Some e\<rparr>)
          \<and> (case Err p of Some e0 \<Rightarrow> e = e0 | None \<Rightarrow>
               e = (if Offset p < 0 then ErrNegativeOffset
                    else if n < 0 then ErrInvalidInput else ErrInsufficientLength)))"
proof (cases "Err p = None \<and> 0 \<le> Offset p \<and> 0 \<le> n \<and> Offset p + n \<le> int (length (Bytes p))")
  case True
  then have "Err (checkSpace n p) = None" by (simp add: checkSpace_ok_iff)
  moreover have "nat n \<le> length (Bytes p) - nat (Offset p)" using True by arith
  ultimately show ?thesis
    using checkSpace_ok [of n p] True
    by (simp add: UnpackFixedBytes_def Errored_def read_at_def Let_def)
next
  case False
  have "\<exists>e. checkSpace n p = p\<lparr>Err := Some e\<rparr>
      \<and> (case Err p of Some e0 \<Rightarrow> e = e0 | None \<Rightarrow>
          e = (if Offset p < 0 then ErrNegativeOffset
               else if n < 0 then ErrInvalidInput else ErrInsufficientLength))"
  proof (cases "Err p")
    case None
    with False show ?thesis by (auto simp: checkSpace_def AddErr_def)
  next
    case (Some e0)
    then show ?thesis by (auto simp: checkSpace_sticky intro!: exI [of _ e0])
  qed
  with False show ?thesis
    by (auto simp: UnpackFixedBytes_def Errored_def Let_def)
qed

lemma expand_bound:
  assumes "int (length (Bytes p)) \<le> MaxSize p"
  shows "int (length (Bytes (expand g n p))) \<le> MaxSize p"
  using assms by (auto simp: expand_def Let_def)

definition within_max :: "packer \<Rightarrow> packer \<Rightarrow> bool" where
  "within_max p q \<longleftrightarrow> int (length (Bytes q)) \<le> MaxSize q \<and> MaxSize q = MaxSize p"

lemma pack_raw_bound:
  assumes "within_max r p" and "pack_raw g bs p = Some p'"
  shows "within_max r p'"
proof -
  have "length (Bytes p') = length (Bytes (expand g (int (length bs)) p))
      \<and> MaxSize p' = MaxSize (expand g (int (length bs)) p)"
    using assms(2) by (auto simp: pack_raw_def Let_def write_at_def split: if_splits)
  moreover have "MaxSize (expand g (int (length bs)) p) = MaxSize p"
    by (simp add: expand_def Let_def)
  ultimately show ?thesis using expand_bound [of p g "int (length bs)"] assms(1)
    by (simp add: within_max_def)
qed

lemma pack_field_bound:
  assumes "within_max r p" and "pack_field g f p = Some p'"
  shows "within_max r p'"
proof -
  have err: "within_max r (AddErr e p)" for e
    using assms(1) by (simp add: AddErr_def within_max_def)
  show ?thesis
    using assms err
    by (cases f)
      (auto simp: PackByte_def PackShort_def PackInt_def PackLong_def PackBool_def bind_eq_Some_conv
        PackFixedBytes_def PackBytes_def PackStr_def intro: pack_raw_bound split: if_splits)
qed



end
