(* ===== verification/Bimap.thy ===== *)
theory Bimap
  imports Slide_Prelude
begin

text \<open>
  The bidirectional map of \<open>utils/bimap/bimap.go\<close>: two built-in maps that every operation keeps
  inverse to each other.
\<close>

record ('k, 'v) bimap =
  keyToValue :: "'k \<rightharpoonup> 'v"
  valueToKey :: "'v \<rightharpoonup> 'k"

datatype ('e) bimap_err = JSONError 'e | ErrNotBijective

definition bm_New :: "('k, 'v) bimap" where
  "bm_New = \<lparr>keyToValue = Map.empty, valueToKey = Map.empty\<rparr>"

definition bm_DeleteKey :: "('k, 'v) bimap \<Rightarrow> 'k \<Rightarrow> 'v option \<times> ('k, 'v) bimap" where
  "bm_DeleteKey m k =
     (case keyToValue m k of
        None \<Rightarrow> (None, m)
      | Some v \<Rightarrow> (Some v, \<lparr>keyToValue = (keyToValue m)(k := None),
                              valueToKey = (valueToKey m)(v := None)\<rparr>))"

definition bm_DeleteValue :: "('k, 'v) bimap \<Rightarrow> 'v \<Rightarrow> 'k option \<times> ('k, 'v) bimap" where
  "bm_DeleteValue m v =
     (case valueToKey m v of
        None \<Rightarrow> (None, m)
      | Some k \<Rightarrow> (Some k, \<lparr>keyToValue = (keyToValue m)(k := None),
                              valueToKey = (valueToKey m)(v := None)\<rparr>))"

definition bm_Put :: "('k, 'v) bimap \<Rightarrow> 'k \<Rightarrow> 'v \<Rightarrow> ('k \<times> 'v) list \<times> ('k, 'v) bimap" where
  "bm_Put m k v =
     (let (oldVal, m1) = bm_DeleteKey m k;
          removed1 = (case oldVal of None \<Rightarrow> [] | Some w \<Rightarrow> [(k, w)]);
          (oldKey, m2) = bm_DeleteValue m1 v;
          removed2 = (case oldKey of None \<Rightarrow> [] | Some l \<Rightarrow> [(l, v)])
      in (removed1 @ removed2,
          \<lparr>keyToValue = (keyToValue m2)(k \<mapsto> v), valueToKey = (valueToKey m2)(v \<mapsto> k)\<rparr>))"

definition bm_GetKey :: "('k, 'v) bimap \<Rightarrow> 'v \<Rightarrow> 'k option" where
  "bm_GetKey m v = valueToKey m v"

definition bm_GetValue :: "('k, 'v) bimap \<Rightarrow> 'k \<Rightarrow> 'v option" where
  "bm_GetValue m k = keyToValue m k"

definition bm_HasKey :: "('k, 'v) bimap \<Rightarrow> 'k \<Rightarrow> bool" where
  "bm_HasKey m k = (keyToValue m k \<noteq> None)"

definition bm_HasValue :: "('k, 'v) bimap \<Rightarrow> 'v \<Rightarrow> bool" where
  "bm_HasValue m v = (valueToKey m v \<noteq> None)"

definition bm_Len :: "('k, 'v) bimap \<Rightarrow> nat" where
  "bm_Len m = card (dom (keyToValue m))"

text \<open>
  \<open>UnmarshalJSON\<close>: the JSON decoder is the parameter \<open>unmarshal\<close>, which yields the pairs of the decoded
  built-in map in the order Go's \<open>range\<close> visits them (any order).
\<close>

definition nullBytes :: "byte list" where
  "nullBytes = [110, 117, 108, 108]"

fun fill_inverse :: "('v \<rightharpoonup> 'k) \<Rightarrow> ('k \<times> 'v) list \<Rightarrow> ('v \<rightharpoonup> 'k)" where
  "fill_inverse acc [] = acc"
| "fill_inverse acc ((k, v) # kvs) = fill_inverse (acc(v \<mapsto> k)) kvs"

definition bm_UnmarshalJSON ::
  "(byte list \<Rightarrow> 'e + ('k \<times> 'v) list) \<Rightarrow> ('k, 'v) bimap \<Rightarrow> byte list
    \<Rightarrow> ('e bimap_err, ('k, 'v) bimap) go_result" where
  "bm_UnmarshalJSON unmarshal m b =
     (if b = nullBytes then Inr m
      else case unmarshal b of
        Inl e \<Rightarrow> Inl (JSONError e)
      | Inr kvs \<Rightarrow>
          (let ktv = map_of kvs; vtk = fill_inverse Map.empty kvs in
           if card (dom ktv) \<noteq> card (dom vtk) then Inl ErrNotBijective
           else Inr \<lparr>keyToValue = ktv, valueToKey = vtk\<rparr>))"

subsection \<open>The two maps stay inverse\<close>

definition bm_inv :: "('k, 'v) bimap \<Rightarrow> bool" where
  "bm_inv m \<longleftrightarrow> (\<forall>k v. keyToValue m k = Some v \<longleftrightarrow> valueToKey m v = Some k)"

lemma bm_invD: "bm_inv m \<Longrightarrow> keyToValue m k = Some v \<longleftrightarrow> valueToKey m v = Some k"
  by (simp add: bm_inv_def)

lemma bm_inv_New: "bm_inv bm_New"
  by (simp add: bm_inv_def bm_New_def)

lemma bm_inv_del: "\<lbrakk>bm_inv m; keyToValue m k = Some v\<rbrakk> \<Longrightarrow>
    bm_inv \<lparr>keyToValue = (keyToValue m)(k := None), valueToKey = (valueToKey m)(v := None)\<rparr>"
  by (auto simp: bm_inv_def) (metis option.inject)+

lemma bm_inv_DeleteKey: "bm_inv m \<Longrightarrow> bm_inv (snd (bm_DeleteKey m k))"
  by (auto simp: bm_DeleteKey_def bm_inv_del split: option.split)

lemma bm_inv_DeleteValue: "bm_inv m \<Longrightarrow> bm_inv (snd (bm_DeleteValue m v))"
  by (auto simp: bm_DeleteValue_def bm_inv_del bm_invD split: option.split)

lemma DeleteKey_keys: "keyToValue (snd (bm_DeleteKey m k)) = (keyToValue m)(k := None)"
  by (auto simp: bm_DeleteKey_def split: option.split)

lemma DeleteValue_vals: "valueToKey (snd (bm_DeleteValue m v)) = (valueToKey m)(v := None)"
  by (auto simp: bm_DeleteValue_def split: option.split)

lemma bm_Put_unfold:
  "bm_Put m k v =
    ((case keyToValue m k of None \<Rightarrow> [] | Some w \<Rightarrow> [(k, w)])
     @ (case valueToKey (snd (bm_DeleteKey m k)) v of None \<Rightarrow> [] | Some l \<Rightarrow> [(l, v)]),
     let m2 = snd (bm_DeleteValue (snd (bm_DeleteKey m k)) v)
     in \<lparr>keyToValue = (keyToValue m2)(k \<mapsto> v), valueToKey = (valueToKey m2)(v \<mapsto> k)\<rparr>)"
proof -
  have 1: "fst (bm_DeleteKey m k) = keyToValue m k"
    by (simp add: bm_DeleteKey_def split: option.split)
  have 2: "fst (bm_DeleteValue n v) = valueToKey n v" for n :: "('a, 'b) bimap"
    by (simp add: bm_DeleteValue_def split: option.split)
  show ?thesis by (simp add: bm_Put_def Let_def split_beta 1 2)
qed

lemma bm_inv_insert: "\<lbrakk>bm_inv m; keyToValue m k = None; valueToKey m v = None\<rbrakk> \<Longrightarrow>
    bm_inv \<lparr>keyToValue = (keyToValue m)(k \<mapsto> v), valueToKey = (valueToKey m)(v \<mapsto> k)\<rparr>"
  unfolding bm_inv_def by (simp, metis option.distinct(1))

lemma DeleteValue_keys:
  assumes "bm_inv m"
  shows "keyToValue (snd (bm_DeleteValue m v)) l =
    (if keyToValue m l = Some v then None else keyToValue m l)"
  using bm_invD [OF assms, of l v] by (auto simp: bm_DeleteValue_def split: option.split)

lemma bm_Put_result:
  assumes "bm_inv m"
  shows "keyToValue (snd (bm_Put m k v)) l =
      (if l = k then Some v else if keyToValue m l = Some v then None else keyToValue m l)"
    and "bm_inv (snd (bm_Put m k v))"
proof -
  let ?m1 = "snd (bm_DeleteKey m k)"
  let ?m2 = "snd (bm_DeleteValue ?m1 v)"
  have i1: "bm_inv ?m1" and i2: "bm_inv ?m2"
    using assms by (simp_all add: bm_inv_DeleteKey bm_inv_DeleteValue)
  have k2: "keyToValue ?m2 l = (if l = k \<or> keyToValue m l = Some v then None else keyToValue m l)" for l
    unfolding DeleteValue_keys [OF i1] DeleteKey_keys by simp
  show "keyToValue (snd (bm_Put m k v)) l =
      (if l = k then Some v else if keyToValue m l = Some v then None else keyToValue m l)"
    by (simp add: bm_Put_unfold Let_def k2)
  show "bm_inv (snd (bm_Put m k v))"
    unfolding bm_Put_unfold Let_def snd_conv
    by (rule bm_inv_insert [OF i2]) (simp_all add: k2 DeleteValue_vals)
qed

lemma fill_inverse_map_of: "fill_inverse acc kvs = acc ++ map_of (rev (map prod.swap kvs))"
proof (induction kvs arbitrary: acc)
  case (Cons kv kvs)
  obtain k v where kv: "kv = (k, v)" by (cases kv)
  show ?case unfolding kv fill_inverse.simps Cons.IH
    by (rule ext) (simp add: map_add_def split: option.split)
qed simp

lemma fill_inverse_dom: "dom (fill_inverse Map.empty kvs) = snd ` set kvs"
  by (simp add: fill_inverse_map_of dom_map_of_conv_image_fst image_image)

lemma distinct_vals_iff:
  assumes "distinct (map fst kvs)"
  shows "card (dom (map_of kvs)) = card (dom (fill_inverse Map.empty kvs))
    \<longleftrightarrow> distinct (map snd kvs)"
proof -
  have "card (dom (map_of kvs)) = length (map snd kvs)"
    using distinct_card [OF assms] by (simp add: dom_map_of_conv_image_fst)
  moreover have "dom (fill_inverse Map.empty kvs) = set (map snd kvs)"
    by (simp add: fill_inverse_dom)
  ultimately show ?thesis by (metis card_distinct distinct_card)
qed

lemma fill_inverse_inv:
  assumes "distinct (map fst kvs)" "distinct (map snd kvs)"
  shows "bm_inv \<lparr>keyToValue = map_of kvs, valueToKey = fill_inverse Map.empty kvs\<rparr>"
proof -
  have "map fst (rev (map prod.swap kvs)) = rev (map snd kvs)"
    by (simp add: rev_map comp_def)
  then have d: "distinct (map fst (rev (map prod.swap kvs)))"
    using assms(2) by simp
  have "map_of (rev (map prod.swap kvs)) v = Some k \<longleftrightarrow> (k, v) \<in> set kvs" for k v
    unfolding map_of_eq_Some_iff [OF d] by force
  then show ?thesis
    by (simp add: bm_inv_def fill_inverse_map_of map_of_eq_Some_iff [OF assms(1)])
qed

datatype ('k, 'v) bm_op = BPut 'k 'v | BDeleteKey 'k | BDeleteValue 'v

fun bm_exec :: "('k, 'v) bimap \<Rightarrow> ('k, 'v) bm_op \<Rightarrow> ('k, 'v) bimap" where
  "bm_exec m (BPut k v) = snd (bm_Put m k v)"
| "bm_exec m (BDeleteKey k) = snd (bm_DeleteKey m k)"
| "bm_exec m (BDeleteValue v) = snd (bm_DeleteValue m v)"

lemma bm_exec_inv: "bm_inv m \<Longrightarrow> bm_inv (bm_exec m op)"
  by (cases op) (simp_all add: bm_Put_result(2) bm_inv_DeleteKey bm_inv_DeleteValue)

lemma bm_run_inv: "bm_inv m \<Longrightarrow> bm_inv (foldl bm_exec m ops)"
  by (induction ops arbitrary: m) (simp_all add: bm_exec_inv)

lemma bm_Put_removed:
  assumes "bm_inv m"
  shows "set (fst (bm_Put m k v)) = {(l, w). keyToValue m l = Some w \<and> (l = k \<or> w = v)}"
proof -
  have v1: "valueToKey (snd (bm_DeleteKey m k)) v = Some l \<longleftrightarrow> l \<noteq> k \<and> keyToValue m l = Some v" for l
    using bm_invD [OF bm_inv_DeleteKey [OF assms, of k], of l v, symmetric]
    by (simp add: DeleteKey_keys)
  have sp: "set (case x of None \<Rightarrow> [] | Some y \<Rightarrow> [f y]) = {f y |y. x = Some y}"
    for x :: "'c option" and f :: "'c \<Rightarrow> 'd"
    by (cases x) auto
  show ?thesis unfolding bm_Put_unfold by (auto simp: sp v1)
qed

text \<open>
  C32. Every bidirectional map built by \<open>Put\<close>, \<open>DeleteKey\<close> and \<open>DeleteValue\<close> from \<open>New\<close> is
  one-to-one: \<open>GetValue(k)\<close> is \<open>v\<close> exactly when \<open>GetKey(v)\<close> is \<open>k\<close>.  A further \<open>Put(k, v)\<close> returns
  exactly the old entries that share the key or the value, and afterwards every other entry is as before.
\<close>

theorem bimap_put_exact:
  fixes ops :: "('k, 'v) bm_op list"
  defines "m \<equiv> foldl bm_exec bm_New ops"
  shows "(bm_GetValue m k = Some v \<longleftrightarrow> bm_GetKey m v = Some k)
    \<and> set (fst (bm_Put m k v)) = {(l, w). bm_GetValue m l = Some w \<and> (l = k \<or> w = v)}
    \<and> bm_GetValue (snd (bm_Put m k v)) l =
        (if l = k then Some v else if bm_GetValue m l = Some v then None else bm_GetValue m l)"
proof -
  have "bm_inv m" unfolding m_def by (rule bm_run_inv [OF bm_inv_New])
  then show ?thesis
    by (simp add: bm_GetValue_def bm_GetKey_def bm_invD bm_Put_removed bm_Put_result(1))
qed

text \<open>
  C40. Given the pairs of a JSON object with distinct keys, in whatever order they are visited,
  \<open>UnmarshalJSON\<close> succeeds exactly when no value occurs twice; the result then holds exactly the decoded
  pairs and is one-to-one.
\<close>

theorem bimap_unmarshal_bijective:
  assumes "unmarshal b = Inr kvs" and "distinct (map fst kvs)" and "b \<noteq> nullBytes"
  shows "if distinct (map snd kvs)
         then \<exists>n. bm_UnmarshalJSON unmarshal m b = Inr n \<and> bm_inv n \<and> keyToValue n = map_of kvs
         else bm_UnmarshalJSON unmarshal m b = Inl ErrNotBijective"
  using assms distinct_vals_iff [OF assms(2)] fill_inverse_inv [OF assms(2)]
  by (simp add: bm_UnmarshalJSON_def Let_def)

theorem bimap_unmarshal_bijective_witness:
  "\<exists>n. bm_UnmarshalJSON (\<lambda>_. (Inr [(1 :: nat, True), (2, False)]) :: unit + _) bm_New [123] = Inr n
     \<and> bm_inv n \<and> keyToValue n = map_of [(1, True), (2, False)]"
  using bimap_unmarshal_bijective [of "\<lambda>_. Inr [(1 :: nat, True), (2, False)] :: unit + _" "[123]"
      "[(1, True), (2, False)]" bm_New]
  by (simp add: nullBytes_def)

end
