(* ===== verification/Validator_Set.thy ===== *)
theory Validator_Set
  imports Safe_Math
begin

text \<open>
  The weighted validator set of \<open>utils/evm/warp/validators/set.go\<close>. \<open>Validator\<close> objects are
  shared between the map \<open>vdrs\<close> and the slice \<open>vdrSlice\<close> and updated in place, so they live in an
  explicit store \<open>vheap\<close>: a pointer is a position of the store and \<open>new\<close> appends. An operation
  returns the new set, the calls it makes on the registered listeners in order, and its error;
  \<open>None\<close> is a run-time panic (a slice index out of range). Listeners are opaque handles, and a
  public key is the pointer the code holds (\<open>None\<close> for nil).
\<close>

type_synonym vptr = nat
type_synonym listener = nat
type_synonym public_key = "nat option"

record validator =
  vNodeID :: node_id
  vPublicKey :: public_key
  vTxID :: ids_id
  vWeight :: uint64
  vindex :: nat

datatype vdr_event =
    OnValidatorAdded node_id public_key ids_id uint64
  | OnValidatorRemoved node_id uint64
  | OnValidatorWeightChanged node_id uint64 uint64

datatype callback = ManagerCall listener ids_id vdr_event | SetCall listener vdr_event

datatype vdr_err = errDuplicateValidator | errMissingValidator | errTotalWeightNotUint64
  | ErrZeroWeight | ErrMissingValidators | MathErr math_err

record vdrSet =
  subnetID :: ids_id
  vheap :: "validator list"
  vdrs :: "node_id \<rightharpoonup> vptr"
  vdrSlice :: "vptr list"
  weights :: "uint64 list"
  totalWeight :: int
  samplerInitialized :: bool
  managerCallbackListeners :: "listener list"
  setCallbackListeners :: "listener list"

type_synonym vs_result = "(vdrSet \<times> callback list \<times> vdr_err option) option"

definition newSet :: "ids_id \<Rightarrow> listener list \<Rightarrow> vdrSet" where
  "newSet sid ls = \<lparr>subnetID = sid, vheap = [], vdrs = Map.empty, vdrSlice = [], weights = [],
     totalWeight = 0, samplerInitialized = False, managerCallbackListeners = ls,
     setCallbackListeners = []\<rparr>"

definition notify :: "vdrSet \<Rightarrow> vdr_event \<Rightarrow> callback list" where
  "notify s e = map (\<lambda>l. ManagerCall l (subnetID s) e) (managerCallbackListeners s)
     @ map (\<lambda>l. SetCall l e) (setCallbackListeners s)"

definition callWeightChangeCallbacks :: "vdrSet \<Rightarrow> node_id \<Rightarrow> uint64 \<Rightarrow> uint64 \<Rightarrow> callback list" where
  "callWeightChangeCallbacks s n old new = notify s (OnValidatorWeightChanged n old new)"

definition callValidatorAddedCallbacks ::
  "vdrSet \<Rightarrow> node_id \<Rightarrow> public_key \<Rightarrow> ids_id \<Rightarrow> uint64 \<Rightarrow> callback list" where
  "callValidatorAddedCallbacks s n pk tx w = notify s (OnValidatorAdded n pk tx w)"

definition callValidatorRemovedCallbacks :: "vdrSet \<Rightarrow> node_id \<Rightarrow> uint64 \<Rightarrow> callback list" where
  "callValidatorRemovedCallbacks s n w = notify s (OnValidatorRemoved n w)"

definition vs_add :: "node_id \<Rightarrow> public_key \<Rightarrow> ids_id \<Rightarrow> uint64 \<Rightarrow> vdrSet \<Rightarrow> vs_result" where
  "vs_add n pk tx w s =
     (if vdrs s n \<noteq> None then Some (s, [], Some errDuplicateValidator)
      else
        let vdr = \<lparr>vNodeID = n, vPublicKey = pk, vTxID = tx, vWeight = w, vindex = length (vdrSlice s)\<rparr>;
            p = length (vheap s);
            s' = s\<lparr>vheap := vheap s @ [vdr],
                    vdrs := (vdrs s)(n \<mapsto> p),
                    vdrSlice := vdrSlice s @ [p],
                    weights := weights s @ [w],
                    totalWeight := totalWeight s + uint w,
                    samplerInitialized := False\<rparr>
        in Some (s', callValidatorAddedCallbacks s' n pk tx w, None))"

definition vs_addWeight :: "node_id \<Rightarrow> uint64 \<Rightarrow> vdrSet \<Rightarrow> vs_result" where
  "vs_addWeight n w s =
     (case vdrs s n of
        None \<Rightarrow> Some (s, [], Some errMissingValidator)
      | Some p \<Rightarrow>
          let oldWeight = vWeight (vheap s ! p) in
          case Add oldWeight w of
            Inl e \<Rightarrow> Some (s, [], Some (MathErr e))
          | Inr newWeight \<Rightarrow>
              let s1 = s\<lparr>vheap := (vheap s)[p := (vheap s ! p)\<lparr>vWeight := newWeight\<rparr>]\<rparr>;
                  i = vindex (vheap s1 ! p)
              in if length (weights s1) \<le> i then None
                 else
                   let s2 = s1\<lparr>weights := (weights s1)[i := newWeight],
                               totalWeight := totalWeight s1 + uint w,
                               samplerInitialized := False\<rparr>
                   in Some (s2, callWeightChangeCallbacks s2 n oldWeight (vWeight (vheap s2 ! p)), None))"

definition vs_getWeight :: "vdrSet \<Rightarrow> node_id \<Rightarrow> uint64" where
  "vs_getWeight s n = (case vdrs s n of Some p \<Rightarrow> vWeight (vheap s ! p) | None \<Rightarrow> 0)"

text \<open>
  \<open>range\<close> over a Go set visits its elements in any order: the second argument of
  \<open>vs_subsetWeight\<close> lists them in the order visited.
\<close>

fun subset_fold :: "vdrSet \<Rightarrow> uint64 \<Rightarrow> node_id list \<Rightarrow> (math_err, uint64) go_result" where
  "subset_fold s acc [] = Inr acc"
| "subset_fold s acc (n # ns) =
     (case Add acc (vs_getWeight s n) of Inl e \<Rightarrow> Inl e | Inr acc' \<Rightarrow> subset_fold s acc' ns)"

definition vs_subsetWeight :: "vdrSet \<Rightarrow> node_id list \<Rightarrow> (math_err, uint64) go_result" where
  "vs_subsetWeight s ns = subset_fold s 0 ns"

text \<open>Removal of a validator: the last slot moves to the slot of the removed one.\<close>

definition vs_swapRemove :: "node_id \<Rightarrow> vptr \<Rightarrow> vdrSet \<Rightarrow> vdrSet option" where
  "vs_swapRemove n p s =
     (if vdrSlice s = [] then None
      else
        let lastIndex = length (vdrSlice s) - 1;
            q = vdrSlice s ! lastIndex;
            h = (vheap s)[q := (vheap s ! q)\<lparr>vindex := vindex (vheap s ! p)\<rparr>];
            i = vindex (h ! p)
        in if length (vdrSlice s) \<le> i \<or> length (weights s) \<le> i then None
           else Some (s\<lparr>vheap := h,
                        vdrs := (vdrs s)(n := None),
                        vdrSlice := take lastIndex ((vdrSlice s)[i := q]),
                        weights := take lastIndex ((weights s)[i := vWeight (h ! q)])\<rparr>))"

definition vs_removeWeight :: "node_id \<Rightarrow> uint64 \<Rightarrow> vdrSet \<Rightarrow> vs_result" where
  "vs_removeWeight n w s =
     (case vdrs s n of
        None \<Rightarrow> Some (s, [], Some errMissingValidator)
      | Some p \<Rightarrow>
          let oldWeight = vWeight (vheap s ! p);
              done = (\<lambda>t. t\<lparr>totalWeight := totalWeight t - uint w, samplerInitialized := False\<rparr>)
          in case Sub oldWeight w of
            Inl e \<Rightarrow> Some (s, [], Some (MathErr e))
          | Inr newWeight \<Rightarrow>
              if newWeight = 0 then
                (case vs_swapRemove n p s of
                   None \<Rightarrow> None
                 | Some t \<Rightarrow> Some (done t, callValidatorRemovedCallbacks t n oldWeight, None))
              else
                let s1 = s\<lparr>vheap := (vheap s)[p := (vheap s ! p)\<lparr>vWeight := newWeight\<rparr>]\<rparr>;
                    i = vindex (vheap s1 ! p)
                in if length (weights s1) \<le> i then None
                   else
                     let s2 = s1\<lparr>weights := (weights s1)[i := newWeight]\<rparr>
                     in Some (done s2, callWeightChangeCallbacks s2 n oldWeight newWeight, None))"

definition vs_get :: "vdrSet \<Rightarrow> node_id \<Rightarrow> validator option" where
  "vs_get s n = (case vdrs s n of None \<Rightarrow> None | Some p \<Rightarrow> Some (vheap s ! p))"

definition vs_len :: "vdrSet \<Rightarrow> nat" where
  "vs_len s = length (vdrSlice s)"

definition HasCallbackRegistered :: "vdrSet \<Rightarrow> bool" where
  "HasCallbackRegistered s = (setCallbackListeners s \<noteq> [])"

definition vs_Map :: "vdrSet \<Rightarrow> (node_id \<rightharpoonup> public_key \<times> uint64)" where
  "vs_Map s = foldl (\<lambda>m p. let v = vheap s ! p in m(vNodeID v \<mapsto> (vPublicKey v, vWeight v)))
     Map.empty (vdrSlice s)"

text \<open>\<open>sample\<close> is marked as to be implemented; it returns \<open>size\<close> zero node ids (a negative size panics).\<close>

definition vs_sample :: "int \<Rightarrow> node_id list option" where
  "vs_sample n = (if n < 0 then None else Some (replicate (nat n) (replicate 20 0)))"

definition vs_TotalWeight :: "vdrSet \<Rightarrow> (vdr_err, uint64) go_result" where
  "vs_TotalWeight s =
     (if 0 \<le> totalWeight s \<and> totalWeight s < 2 ^ 64 then Inr (of_int (totalWeight s))
      else Inl errTotalWeightNotUint64)"

definition vs_replay :: "vdrSet \<Rightarrow> vdr_event list" where
  "vs_replay s = map (\<lambda>p. let v = vheap s ! p
     in OnValidatorAdded (vNodeID v) (vPublicKey v) (vTxID v) (vWeight v)) (vdrSlice s)"

definition RegisterManagerCallbackListener :: "listener \<Rightarrow> vdrSet \<Rightarrow> vdrSet \<times> callback list" where
  "RegisterManagerCallbackListener l s =
     (s\<lparr>managerCallbackListeners := managerCallbackListeners s @ [l]\<rparr>,
      map (ManagerCall l (subnetID s)) (vs_replay s))"

definition vs_RegisterCallbackListener :: "listener \<Rightarrow> vdrSet \<Rightarrow> vdrSet \<times> callback list" where
  "vs_RegisterCallbackListener l s =
     (s\<lparr>setCallbackListeners := setCallbackListeners s @ [l]\<rparr>, map (SetCall l) (vs_replay s))"

definition vs_GetValidatorIDs :: "vdrSet \<Rightarrow> node_id list" where
  "vs_GetValidatorIDs s = map (\<lambda>p. vNodeID (vheap s ! p)) (vdrSlice s)"

subsection \<open>Well-formedness and what each operation does to the contents\<close>

definition slot_ok :: "vdrSet \<Rightarrow> nat \<Rightarrow> bool" where
  "slot_ok s i \<longleftrightarrow> (let p = vdrSlice s ! i in
     p < length (vheap s) \<and> vindex (vheap s ! p) = i \<and> weights s ! i = vWeight (vheap s ! p)
     \<and> vdrs s (vNodeID (vheap s ! p)) = Some p)"

definition vs_shape :: "vdrSet \<Rightarrow> bool" where
  "vs_shape s \<longleftrightarrow> length (weights s) = length (vdrSlice s)
     \<and> (\<forall>i < length (vdrSlice s). slot_ok s i)
     \<and> (\<forall>n p. vdrs s n = Some p \<longrightarrow>
          (\<exists>i < length (vdrSlice s). vdrSlice s ! i = p \<and> vNodeID (vheap s ! p) = n))"

definition vs_ok :: "vdrSet \<Rightarrow> bool" where
  "vs_ok s \<longleftrightarrow> vs_shape s \<and> totalWeight s = sum_list (map uint (weights s))"

definition vs_view :: "vdrSet \<Rightarrow> (node_id \<rightharpoonup> public_key \<times> ids_id \<times> uint64)" where
  "vs_view s n = map_option (\<lambda>p. let v = vheap s ! p in (vPublicKey v, vTxID v, vWeight v)) (vdrs s n)"

lemma vs_slot:
  assumes "vs_shape s" "vdrs s n = Some p"
  shows "p < length (vheap s)" "vindex (vheap s ! p) < length (vdrSlice s)"
    "vdrSlice s ! vindex (vheap s ! p) = p" "vNodeID (vheap s ! p) = n"
    "weights s ! vindex (vheap s ! p) = vWeight (vheap s ! p)"
proof -
  obtain i where "i < length (vdrSlice s)" "vdrSlice s ! i = p" "vNodeID (vheap s ! p) = n" "slot_ok s i"
    using assms unfolding vs_shape_def by blast
  then show "p < length (vheap s)" "vindex (vheap s ! p) < length (vdrSlice s)"
    "vdrSlice s ! vindex (vheap s ! p) = p" "vNodeID (vheap s ! p) = n"
    "weights s ! vindex (vheap s ! p) = vWeight (vheap s ! p)"
    by (simp_all add: slot_ok_def Let_def)
qed

lemma vs_inj:
  assumes "vs_shape s" "i < length (vdrSlice s)" "j < length (vdrSlice s)"
  shows "vdrSlice s ! i = vdrSlice s ! j \<longleftrightarrow> i = j"
  using assms by (metis (no_types, lifting) slot_ok_def vs_shape_def)

lemma vs_length: "vs_shape s \<Longrightarrow> length (weights s) = length (vdrSlice s)"
  by (simp add: vs_shape_def)

lemma newSet_ok: "vs_ok (newSet sid ls)" "vs_view (newSet sid ls) = Map.empty"
  by (auto simp: vs_ok_def vs_shape_def newSet_def vs_view_def)

text \<open>A change of one validator's weight, shared by \<open>addWeight\<close> and \<open>removeWeight\<close>.\<close>

definition set_weight :: "vptr \<Rightarrow> uint64 \<Rightarrow> vdrSet \<Rightarrow> vdrSet" where
  "set_weight p w s = s\<lparr>vheap := (vheap s)[p := (vheap s ! p)\<lparr>vWeight := w\<rparr>],
     weights := (weights s)[vindex (vheap s ! p) := w]\<rparr>"

lemma set_weight_heap:
  assumes "vs_shape s" "vdrs s n = Some p"
  shows "vheap (set_weight p w s) ! q = (if q = p then (vheap s ! p)\<lparr>vWeight := w\<rparr> else vheap s ! q)"
  using vs_slot(1) [OF assms] by (simp add: set_weight_def nth_list_update)

lemma set_weight_frame [simp]:
  "vdrs (set_weight p w s) = vdrs s" "vdrSlice (set_weight p w s) = vdrSlice s"
  "length (vheap (set_weight p w s)) = length (vheap s)"
  "length (weights (set_weight p w s)) = length (weights s)"
  "totalWeight (set_weight p w s) = totalWeight s"
  "subnetID (set_weight p w s) = subnetID s"
  "managerCallbackListeners (set_weight p w s) = managerCallbackListeners s"
  "setCallbackListeners (set_weight p w s) = setCallbackListeners s"
  by (simp_all add: set_weight_def)

lemma set_weight_shape:
  assumes "vs_shape s" "vdrs s n = Some p"
  shows "vs_shape (set_weight p w s)"
proof -
  let ?s = "set_weight p w s"
  have len: "length (weights s) = length (vdrSlice s)" using assms(1) by (rule vs_length)
  have "slot_ok ?s i" if i: "i < length (vdrSlice s)" for i
  proof -
    have old: "slot_ok s i" using assms(1) i by (simp add: vs_shape_def)
    have iff: "vdrSlice s ! i = p \<longleftrightarrow> i = vindex (vheap s ! p)"
      using vs_inj [OF assms(1) i vs_slot(2) [OF assms]] vs_slot(3) [OF assms] by simp
    have "weights ?s ! i = (if i = vindex (vheap s ! p) then w else weights s ! i)"
      using i len by (simp add: set_weight_def nth_list_update)
    with old iff show ?thesis
      by (auto simp: slot_ok_def Let_def set_weight_heap [OF assms])
  qed
  moreover have "vNodeID (vheap ?s ! q) = vNodeID (vheap s ! q)" for q
    by (simp add: set_weight_heap [OF assms])
  ultimately show ?thesis using assms(1) by (simp add: vs_shape_def)
qed

lemma set_weight_view:
  assumes "vs_shape s" "vdrs s n = Some p"
  shows "vs_view (set_weight p w s) = (vs_view s)(n \<mapsto> (vPublicKey (vheap s ! p), vTxID (vheap s ! p), w))"
proof
  fix m
  show "vs_view (set_weight p w s) m = ((vs_view s)(n \<mapsto> (vPublicKey (vheap s ! p), vTxID (vheap s ! p), w))) m"
  proof (cases "m = n")
    case True
    then show ?thesis using assms by (simp add: vs_view_def Let_def set_weight_heap [OF assms])
  next
    case False
    have "q \<noteq> p" if "vdrs s m = Some q" for q
      using vs_slot(4) [OF assms] vs_slot(4) [OF assms(1) that] False by auto
    with False show ?thesis
      by (cases "vdrs s m") (simp_all add: vs_view_def Let_def set_weight_heap [OF assms])
  qed
qed

lemma set_weight_sum:
  assumes "vs_shape s" "vdrs s n = Some p"
  shows "sum_list (map uint (weights (set_weight p w s)))
    = sum_list (map uint (weights s)) + uint w - uint (vWeight (vheap s ! p))"
proof -
  let ?i = "vindex (vheap s ! p)"
  have i: "?i < length (map uint (weights s))"
    using vs_slot(2) [OF assms] vs_length [OF assms(1)] by simp
  have "map uint (weights (set_weight p w s)) = (map uint (weights s))[?i := uint w]"
    by (simp add: set_weight_def map_update)
  moreover have "map uint (weights s) ! ?i = uint (vWeight (vheap s ! p))"
    using i vs_slot(5) [OF assms] by simp
  ultimately show ?thesis
    using sum_list_update_group [OF i, of "uint w"] by simp
qed

lemma vs_add_ok:
  assumes "vs_ok s" "vdrs s n = None"
  obtains s' where "vs_add n pk tx w s = Some (s', notify s (OnValidatorAdded n pk tx w), None)"
    "vs_ok s'" "vs_view s' = (vs_view s)(n \<mapsto> (pk, tx, w))"
    "subnetID s' = subnetID s" "managerCallbackListeners s' = managerCallbackListeners s"
    "setCallbackListeners s' = setCallbackListeners s"
proof -
  define vdr where "vdr = \<lparr>vNodeID = n, vPublicKey = pk, vTxID = tx, vWeight = w, vindex = length (vdrSlice s)\<rparr>"
  define s' where "s' = s\<lparr>vheap := vheap s @ [vdr], vdrs := (vdrs s)(n \<mapsto> length (vheap s)),
      vdrSlice := vdrSlice s @ [length (vheap s)], weights := weights s @ [w],
      totalWeight := totalWeight s + uint w, samplerInitialized := False\<rparr>"
  have sh: "vs_shape s" and tot: "totalWeight s = sum_list (map uint (weights s))"
    using assms(1) by (simp_all add: vs_ok_def)
  have lt: "p < length (vheap s)" if "vdrs s m = Some p" for m p
    using vs_slot(1) [OF sh that] .
  have node: "vNodeID (vheap s ! p) \<noteq> n" if "vdrs s (vNodeID (vheap s ! p)) = Some p" for p
    using that assms(2) by auto
  have "slot_ok s' i" if "i < length (vdrSlice s')" for i
  proof (cases "i < length (vdrSlice s)")
    case True
    then have "slot_ok s i" using sh by (simp add: vs_shape_def)
    with True node show ?thesis
      by (auto simp: slot_ok_def s'_def Let_def nth_append vs_length [OF sh])
  next
    case False
    with that have "i = length (vdrSlice s)" by (simp add: s'_def)
    then show ?thesis by (simp add: slot_ok_def s'_def vdr_def Let_def vs_length [OF sh] nth_append)
  qed
  moreover have "\<exists>i < length (vdrSlice s'). vdrSlice s' ! i = p \<and> vNodeID (vheap s' ! p) = m"
    if "vdrs s' m = Some p" for m p
  proof (cases "m = n")
    case True
    with that have "p = length (vheap s)" by (simp add: s'_def)
    with True show ?thesis by (intro exI [of _ "length (vdrSlice s)"]) (simp add: s'_def vdr_def)
  next
    case False
    with that have "vdrs s m = Some p" by (simp add: s'_def)
    from vs_slot [OF sh this] show ?thesis
      by (intro exI [of _ "vindex (vheap s ! p)"]) (simp add: s'_def nth_append)
  qed
  ultimately have "vs_ok s'"
    using tot by (auto simp: vs_ok_def vs_shape_def vs_length [OF sh] s'_def)
  moreover have "vs_view s' = (vs_view s)(n \<mapsto> (pk, tx, w))"
  proof
    show "vs_view s' m = ((vs_view s)(n \<mapsto> (pk, tx, w))) m" for m
      using lt [of m] by (cases "vdrs s m") (auto simp: vs_view_def s'_def vdr_def Let_def nth_append)
  qed
  moreover have "vs_add n pk tx w s = Some (s', notify s (OnValidatorAdded n pk tx w), None)"
    using assms(2)
    by (simp add: vs_add_def s'_def vdr_def Let_def callValidatorAddedCallbacks_def notify_def)
  ultimately show ?thesis using that by (simp add: s'_def)
qed

text \<open>The set after \<open>removeWeight\<close> dropped the validator at \<open>p\<close>, before the total is adjusted.\<close>

definition last_ptr :: "vdrSet \<Rightarrow> vptr" where
  "last_ptr s = vdrSlice s ! (length (vdrSlice s) - 1)"

definition swap_removed :: "node_id \<Rightarrow> vptr \<Rightarrow> vdrSet \<Rightarrow> vdrSet" where
  "swap_removed n p s = (let k = length (vdrSlice s) - 1; i = vindex (vheap s ! p); q = last_ptr s in
     s\<lparr>vheap := (vheap s)[q := (vheap s ! q)\<lparr>vindex := i\<rparr>], vdrs := (vdrs s)(n := None),
       vdrSlice := take k ((vdrSlice s)[i := q]),
       weights := take k ((weights s)[i := vWeight (vheap s ! q)])\<rparr>)"

lemma swap_removed_frame [simp]:
  "vdrs (swap_removed n p s) = (vdrs s)(n := None)"
  "length (vheap (swap_removed n p s)) = length (vheap s)"
  "totalWeight (swap_removed n p s) = totalWeight s"
  "subnetID (swap_removed n p s) = subnetID s"
  "managerCallbackListeners (swap_removed n p s) = managerCallbackListeners s"
  "setCallbackListeners (swap_removed n p s) = setCallbackListeners s"
  by (simp_all add: swap_removed_def Let_def)

lemma last_slot:
  assumes "vs_shape s" "vdrs s n = Some p"
  defines "k \<equiv> length (vdrSlice s) - 1"
  shows "k < length (vdrSlice s)" "vindex (vheap s ! p) \<le> k" "last_ptr s < length (vheap s)"
    "vindex (vheap s ! last_ptr s) = k" "weights s ! k = vWeight (vheap s ! last_ptr s)"
    "vdrs s (vNodeID (vheap s ! last_ptr s)) = Some (last_ptr s)"
proof -
  show k: "k < length (vdrSlice s)" and "vindex (vheap s ! p) \<le> k"
    using vs_slot(2) [OF assms(1,2)] by (auto simp: k_def)
  have "slot_ok s k" using assms(1) k by (simp add: vs_shape_def)
  then show "last_ptr s < length (vheap s)" "vindex (vheap s ! last_ptr s) = k"
    "weights s ! k = vWeight (vheap s ! last_ptr s)"
    "vdrs s (vNodeID (vheap s ! last_ptr s)) = Some (last_ptr s)"
    unfolding slot_ok_def last_ptr_def Let_def k_def by simp_all
qed

lemma swap_removed_slots:
  assumes "vs_shape s" "vdrs s n = Some p"
  defines "k \<equiv> length (vdrSlice s) - 1" and "i \<equiv> vindex (vheap s ! p)"
  shows "length (vdrSlice (swap_removed n p s)) = k" "length (weights (swap_removed n p s)) = k"
    "j < k \<Longrightarrow> vdrSlice (swap_removed n p s) ! j = (if j = i then last_ptr s else vdrSlice s ! j)"
    "j < k \<Longrightarrow> weights (swap_removed n p s) ! j = (if j = i then vWeight (vheap s ! last_ptr s) else weights s ! j)"
    "vheap (swap_removed n p s) ! r = (if r = last_ptr s then (vheap s ! r)\<lparr>vindex := i\<rparr> else vheap s ! r)"
  using last_slot [OF assms(1,2)] vs_length [OF assms(1)] unfolding k_def i_def
  by (simp_all add: swap_removed_def Let_def nth_list_update)

lemma swap_removed_slot_ok:
  assumes sh: "vs_shape s" and n: "vdrs s n = Some p" and j: "j < length (vdrSlice s) - 1"
  shows "slot_ok (swap_removed n p s) j"
proof -
  note ls = last_slot [OF sh n] and slot = vs_slot [OF sh n] and t = swap_removed_slots [OF sh n]
  have other: "vNodeID (vheap s ! r) \<noteq> n" if "vdrs s (vNodeID (vheap s ! r)) = Some r" "r \<noteq> p" for r
    using that n by auto
  show ?thesis
  proof (cases "j = vindex (vheap s ! p)")
    case True
    with j have "last_ptr s \<noteq> p" using ls(4) by auto
    then show ?thesis using True j ls other [of "last_ptr s"] by (simp add: slot_ok_def Let_def t)
  next
    case False
    have s: "slot_ok s j" using sh j by (simp add: vs_shape_def)
    have "vdrSlice s ! j \<noteq> p" using vs_inj [OF sh, of j "vindex (vheap s ! p)"] j slot(2,3) False by simp
    moreover have "vdrSlice s ! j \<noteq> last_ptr s"
      using vs_inj [OF sh, of j "length (vdrSlice s) - 1"] j by (simp add: last_ptr_def)
    ultimately show ?thesis
      using s False j other [of "vdrSlice s ! j"] by (simp add: slot_ok_def Let_def t)
  qed
qed

lemma swap_removed_shape:
  assumes sh: "vs_shape s" and n: "vdrs s n = Some p"
  shows "vs_shape (swap_removed n p s)"
proof -
  let ?t = "swap_removed n p s" and ?k = "length (vdrSlice s) - 1" and ?i = "vindex (vheap s ! p)"
  note ls = last_slot [OF sh n] and slot = vs_slot [OF sh n] and t = swap_removed_slots [OF sh n]
  have "\<exists>j < ?k. vdrSlice ?t ! j = r \<and> vNodeID (vheap ?t ! r) = m" if m: "vdrs ?t m = Some r" for m r
  proof -
    have mn: "m \<noteq> n" and ms: "vdrs s m = Some r" using m by (auto split: if_splits)
    note rs = vs_slot [OF sh ms]
    have rp: "r \<noteq> p" using rs(4) slot(4) mn by auto
    have node: "vNodeID (vheap ?t ! r) = m" using rs(4) by (auto simp: t)
    show ?thesis
    proof (cases "vindex (vheap s ! r) = ?k")
      case True
      then have r: "r = last_ptr s" using rs(3) by (simp add: last_ptr_def)
      then have "?i \<noteq> ?k" using slot(3) rp by (auto simp: last_ptr_def)
      then have "?i < ?k" using ls(2) by linarith
      with r node t(3) [of ?i] show ?thesis by (intro exI [of _ ?i]) simp
    next
      case False
      then have "vindex (vheap s ! r) < ?k" using rs(2) by linarith
      moreover have "vindex (vheap s ! r) \<noteq> ?i" using rs(3) slot(3) rp by auto
      ultimately show ?thesis using node rs(3) t(3) by (intro exI [of _ "vindex (vheap s ! r)"]) simp
    qed
  qed
  then show ?thesis
    unfolding vs_shape_def t(1,2) using swap_removed_slot_ok [OF sh n] by blast
qed

lemma swap_removed_view:
  assumes "vs_shape s" "vdrs s n = Some p"
  shows "vs_view (swap_removed n p s) = (vs_view s)(n := None)"
proof
  show "vs_view (swap_removed n p s) m = ((vs_view s)(n := None)) m" for m
    by (cases "vdrs s m") (auto simp: vs_view_def Let_def swap_removed_slots(5) [OF assms])
qed

lemma swap_removed_weights:
  assumes "vs_shape s" "vdrs s n = Some p"
  shows "sum_list (map uint (weights (swap_removed n p s)))
      = sum_list (map uint (weights s)) - uint (vWeight (vheap s ! p))"
proof -
  let ?k = "length (weights s) - 1" and ?i = "vindex (vheap s ! p)"
  note ls = last_slot [OF assms] and len = vs_length [OF assms(1)]
  have w: "weights (swap_removed n p s) = take ?k ((weights s)[?i := weights s ! ?k])"
    using ls(5) len by (simp add: swap_removed_def Let_def)
  then have "map uint (weights (swap_removed n p s)) = take (length (map uint (weights s)) - 1)
        ((map uint (weights s))[?i := map uint (weights s) ! (length (map uint (weights s)) - 1)])"
    using ls(1) len by (simp add: take_map [symmetric] map_update)
  then show "sum_list (map uint (weights (swap_removed n p s)))
      = sum_list (map uint (weights s)) - uint (vWeight (vheap s ! p))"
    using sum_list_swap_remove [of ?i "map uint (weights s)"] vs_slot(2,5) [OF assms] len by simp
qed

lemma vs_swapRemove_eq:
  assumes "vs_shape s" "vdrs s n = Some p"
  shows "vs_swapRemove n p s = Some (swap_removed n p s)"
proof -
  note ls = last_slot [OF assms] and slot = vs_slot(2) [OF assms] and len = vs_length [OF assms(1)]
  let ?h = "(vheap s)[last_ptr s := (vheap s ! last_ptr s)\<lparr>vindex := vindex (vheap s ! p)\<rparr>]"
  have "vindex (?h ! p) = vindex (vheap s ! p)" "vWeight (?h ! last_ptr s) = vWeight (vheap s ! last_ptr s)"
    using ls(3) by (simp_all add: nth_list_update)
  then show ?thesis
    unfolding vs_swapRemove_def swap_removed_def Let_def last_ptr_def [symmetric]
    using ls(1) slot len by (simp add: not_le) auto
qed

lemma vs_total_upd [simp]:
  "vs_shape (s\<lparr>totalWeight := x, samplerInitialized := b\<rparr>) = vs_shape s"
  "vs_view (s\<lparr>totalWeight := x, samplerInitialized := b\<rparr>) = vs_view s"
  by (simp_all add: vs_shape_def slot_ok_def vs_view_def fun_eq_iff)

lemma notify_set_weight [simp]: "notify (set_weight p w s) e = notify s e"
  by (simp add: notify_def)

lemma notify_swap_removed [simp]: "notify (swap_removed n p s) e = notify s e"
  by (simp add: notify_def)

lemma notify_total_upd [simp]: "notify (s\<lparr>totalWeight := x, samplerInitialized := b\<rparr>) e = notify s e"
  by (simp add: notify_def)

lemma vs_addWeight_eq:
  assumes "vs_shape s" "vdrs s n = Some p"
  defines "v \<equiv> vheap s ! p"
  shows "vs_addWeight n w s =
    (if unat (vWeight v) + unat w < 2 ^ 64
     then Some ((set_weight p (vWeight v + w) s)\<lparr>totalWeight := totalWeight s + uint w, samplerInitialized := False\<rparr>,
                notify s (OnValidatorWeightChanged n (vWeight v) (vWeight v + w)), None)
     else Some (s, [], Some (MathErr ErrOverflow)))"
proof -
  have "(vheap s)[p := (vheap s ! p)\<lparr>vWeight := x\<rparr>] ! p = (vheap s ! p)\<lparr>vWeight := x\<rparr>" for x
    using vs_slot(1) [OF assms(1,2)] by simp
  moreover have "vindex (vheap s ! p) < length (weights s)"
    using vs_slot(2) [OF assms(1,2)] vs_length [OF assms(1)] by simp
  ultimately show ?thesis
    by (simp add: vs_addWeight_def assms(2) Let_def Add_cases v_def callWeightChangeCallbacks_def
        set_weight_def notify_def not_le)
qed

lemma vs_removeWeight_eq:
  assumes "vs_shape s" "vdrs s n = Some p"
  defines "v \<equiv> vheap s ! p"
  shows "vs_removeWeight n w s =
    (if vWeight v < w then Some (s, [], Some (MathErr ErrUnderflow))
     else if vWeight v = w
     then Some ((swap_removed n p s)\<lparr>totalWeight := totalWeight s - uint w, samplerInitialized := False\<rparr>,
                notify s (OnValidatorRemoved n (vWeight v)), None)
     else Some ((set_weight p (vWeight v - w) s)\<lparr>totalWeight := totalWeight s - uint w, samplerInitialized := False\<rparr>,
                notify s (OnValidatorWeightChanged n (vWeight v) (vWeight v - w)), None))"
proof -
  have "(vheap s)[p := (vheap s ! p)\<lparr>vWeight := x\<rparr>] ! p = (vheap s ! p)\<lparr>vWeight := x\<rparr>" for x
    using vs_slot(1) [OF assms(1,2)] by simp
  moreover have "vindex (vheap s ! p) < length (weights s)"
    using vs_slot(2) [OF assms(1,2)] vs_length [OF assms(1)] by simp
  ultimately show ?thesis
    by (simp add: vs_removeWeight_def assms(2) Let_def Sub_def v_def callWeightChangeCallbacks_def
        callValidatorRemovedCallbacks_def vs_swapRemove_eq [OF assms(1,2)] set_weight_def notify_def not_le)
qed

subsection \<open>The abstract validator set\<close>

text \<open>
  What the set promises: a finite map from node ids to key, transaction and weight. An abstract
  operation either fails, changing nothing, or yields the new map and the event that
  every listener receives.
\<close>

type_synonym vdr_view = "node_id \<rightharpoonup> public_key \<times> ids_id \<times> uint64"

datatype set_op = SetAdd node_id public_key ids_id uint64 | SetAddWeight node_id uint64
  | SetRemoveWeight node_id uint64

fun spec_set :: "set_op \<Rightarrow> vdr_view \<Rightarrow> (vdr_err, vdr_view \<times> vdr_event) go_result" where
  "spec_set (SetAdd n pk tx w) V =
     (if V n \<noteq> None then Inl errDuplicateValidator
      else Inr (V(n \<mapsto> (pk, tx, w)), OnValidatorAdded n pk tx w))"
| "spec_set (SetAddWeight n w) V =
     (case V n of None \<Rightarrow> Inl errMissingValidator
      | Some (pk, tx, old) \<Rightarrow>
          if unat old + unat w < 2 ^ 64
          then Inr (V(n \<mapsto> (pk, tx, old + w)), OnValidatorWeightChanged n old (old + w))
          else Inl (MathErr ErrOverflow))"
| "spec_set (SetRemoveWeight n w) V =
     (case V n of None \<Rightarrow> Inl errMissingValidator
      | Some (pk, tx, old) \<Rightarrow>
          if old < w then Inl (MathErr ErrUnderflow)
          else if old = w then Inr (V(n := None), OnValidatorRemoved n old)
          else Inr (V(n \<mapsto> (pk, tx, old - w)), OnValidatorWeightChanged n old (old - w)))"

fun vs_exec :: "set_op \<Rightarrow> vdrSet \<Rightarrow> vs_result" where
  "vs_exec (SetAdd n pk tx w) s = vs_add n pk tx w s"
| "vs_exec (SetAddWeight n w) s = vs_addWeight n w s"
| "vs_exec (SetRemoveWeight n w) s = vs_removeWeight n w s"

definition vs_frame :: "vdrSet \<Rightarrow> vdrSet \<Rightarrow> bool" where
  "vs_frame s s' \<longleftrightarrow> subnetID s' = subnetID s
     \<and> managerCallbackListeners s' = managerCallbackListeners s
     \<and> setCallbackListeners s' = setCallbackListeners s"

definition vs_refines :: "set_op \<Rightarrow> vdrSet \<Rightarrow> bool" where
  "vs_refines op s \<longleftrightarrow>
     (case spec_set op (vs_view s) of
        Inl e \<Rightarrow> vs_exec op s = Some (s, [], Some e)
      | Inr (V, ev) \<Rightarrow> \<exists>s'. vs_exec op s = Some (s', notify s ev, None) \<and> vs_ok s' \<and> vs_view s' = V
          \<and> vs_frame s s')"

lemma vs_view_Some: "vdrs s n = Some p \<Longrightarrow>
    vs_view s n = Some (vPublicKey (vheap s ! p), vTxID (vheap s ! p), vWeight (vheap s ! p))"
  by (simp add: vs_view_def Let_def)

lemma vs_view_None: "vs_view s n = None \<longleftrightarrow> vdrs s n = None"
  by (simp add: vs_view_def)

lemma vs_refines_add:
  assumes "vs_ok s"
  shows "vs_refines (SetAdd n pk tx w) s"
proof (cases "vdrs s n")
  case None
  from assms this obtain s' where
      "vs_add n pk tx w s = Some (s', notify s (OnValidatorAdded n pk tx w), None)"
      "vs_ok s'" "vs_view s' = (vs_view s)(n \<mapsto> (pk, tx, w))" "subnetID s' = subnetID s"
      "managerCallbackListeners s' = managerCallbackListeners s"
      "setCallbackListeners s' = setCallbackListeners s"
    by (rule vs_add_ok)
  with None show ?thesis
    by (simp add: vs_refines_def vs_frame_def vs_view_None [of s n, THEN iffD2])
next
  case (Some p)
  then show ?thesis by (simp add: vs_refines_def vs_view_Some vs_add_def)
qed

lemma vs_refines_addWeight:
  assumes "vs_ok s"
  shows "vs_refines (SetAddWeight n w) s"
proof (cases "vdrs s n")
  case None
  then show ?thesis by (simp add: vs_refines_def vs_view_def vs_addWeight_def)
next
  case (Some p)
  have sh: "vs_shape s" and tot: "totalWeight s = sum_list (map uint (weights s))"
    using assms by (simp_all add: vs_ok_def)
  let ?v = "vheap s ! p"
  show ?thesis
  proof (cases "unat (vWeight ?v) + unat w < 2 ^ 64")
    case True
    let ?s = "(set_weight p (vWeight ?v + w) s)\<lparr>totalWeight := totalWeight s + uint w, samplerInitialized := False\<rparr>"
    have "uint (vWeight ?v + w) = uint (vWeight ?v) + uint w"
      by (rule uint_add_no_overflow) (use True in simp)
    then have "vs_ok ?s"
      unfolding vs_ok_def using set_weight_shape [OF sh Some] set_weight_sum [OF sh Some] tot by simp
    with True show ?thesis
      unfolding vs_refines_def spec_set.simps vs_view_Some [OF Some] vs_exec.simps vs_addWeight_eq [OF sh Some]
      by (auto simp: set_weight_view [OF sh Some] vs_frame_def)
  next
    case False
    then show ?thesis
      unfolding vs_refines_def spec_set.simps vs_view_Some [OF Some] vs_exec.simps vs_addWeight_eq [OF sh Some]
      by simp
  qed
qed

lemma vs_refines_removeWeight:
  assumes "vs_ok s"
  shows "vs_refines (SetRemoveWeight n w) s"
proof (cases "vdrs s n")
  case None
  then show ?thesis by (simp add: vs_refines_def vs_view_def vs_removeWeight_def)
next
  case (Some p)
  have sh: "vs_shape s" and tot: "totalWeight s = sum_list (map uint (weights s))"
    using assms by (simp_all add: vs_ok_def)
  let ?v = "vheap s ! p"
  have "uint (vWeight ?v - w) = uint (vWeight ?v) - uint w" if "\<not> vWeight ?v < w"
    using that by (simp add: uint_diff_no_underflow not_less)
  then show ?thesis
    using set_weight_shape [OF sh Some] set_weight_sum [OF sh Some] tot
      swap_removed_shape [OF sh Some] swap_removed_weights [OF sh Some]
    by (simp add: vs_refines_def vs_view_Some [OF Some] vs_removeWeight_eq [OF sh Some] vs_ok_def
        set_weight_view [OF sh Some] swap_removed_view [OF sh Some] vs_frame_def)
qed

lemma vs_refines: "vs_ok s \<Longrightarrow> vs_refines op s"
  by (cases op) (simp_all add: vs_refines_add vs_refines_addWeight vs_refines_removeWeight)

subsection \<open>Reading the set\<close>

lemma vs_ids:
  assumes "vs_shape s"
  shows "distinct (vs_GetValidatorIDs s)" "set (vs_GetValidatorIDs s) = dom (vs_view s)"
    "length (vs_GetValidatorIDs s) = vs_len s"
proof -
  have node: "vdrs s (vNodeID (vheap s ! (vdrSlice s ! i))) = Some (vdrSlice s ! i)"
    if "i < length (vdrSlice s)" for i
    using assms that by (simp add: vs_shape_def slot_ok_def Let_def)
  show "distinct (vs_GetValidatorIDs s)"
    unfolding distinct_conv_nth vs_GetValidatorIDs_def
    using node vs_inj [OF assms] by simp (metis option.inject)
  show "set (vs_GetValidatorIDs s) = dom (vs_view s)"
  proof (rule set_eqI)
    fix n
    show "n \<in> set (vs_GetValidatorIDs s) \<longleftrightarrow> n \<in> dom (vs_view s)"
    proof
      assume "n \<in> set (vs_GetValidatorIDs s)"
      then obtain i where "i < length (vdrSlice s)" "n = vNodeID (vheap s ! (vdrSlice s ! i))"
        by (auto simp: vs_GetValidatorIDs_def in_set_conv_nth)
      with node show "n \<in> dom (vs_view s)" by (simp add: domIff vs_view_None)
    next
      assume "n \<in> dom (vs_view s)"
      then obtain p where p: "vdrs s n = Some p" by (auto simp: domIff vs_view_None)
      from vs_slot(2-4) [OF assms p] show "n \<in> set (vs_GetValidatorIDs s)"
        unfolding vs_GetValidatorIDs_def set_map by (metis imageI nth_mem)
    qed
  qed
  show "length (vs_GetValidatorIDs s) = vs_len s"
    by (simp add: vs_GetValidatorIDs_def vs_len_def)
qed

definition view_weight :: "vdr_view \<Rightarrow> node_id \<Rightarrow> uint64" where
  "view_weight V n = (case V n of None \<Rightarrow> 0 | Some (pk, tx, w) \<Rightarrow> w)"

lemma vs_getWeight_view: "vs_getWeight s n = view_weight (vs_view s) n"
  by (simp add: vs_getWeight_def view_weight_def vs_view_def Let_def split: option.split)

lemma vs_weights_view:
  assumes "vs_shape s"
  shows "weights s = map (view_weight (vs_view s)) (vs_GetValidatorIDs s)"
proof (rule nth_equalityI)
  show "length (weights s) = length (map (view_weight (vs_view s)) (vs_GetValidatorIDs s))"
    using vs_length [OF assms] vs_ids(3) [OF assms] by (simp add: vs_len_def)
  fix i assume "i < length (weights s)"
  then have i: "i < length (vdrSlice s)" using vs_length [OF assms] by simp
  then have "slot_ok s i" using assms by (simp add: vs_shape_def)
  with i show "weights s ! i = map (view_weight (vs_view s)) (vs_GetValidatorIDs s) ! i"
    by (simp add: slot_ok_def Let_def view_weight_def vs_GetValidatorIDs_def vs_view_def)
qed

lemma vs_total:
  assumes "vs_ok s"
  shows "totalWeight s = int (\<Sum>n\<in>dom (vs_view s). unat (view_weight (vs_view s) n))"
proof -
  have sh: "vs_shape s" using assms by (simp add: vs_ok_def)
  let ?f = "\<lambda>n. uint (view_weight (vs_view s) n)"
  have "totalWeight s = sum_list (map ?f (vs_GetValidatorIDs s))"
    using assms unfolding vs_ok_def vs_weights_view [OF sh] map_map comp_def by simp
  also have "\<dots> = sum ?f (dom (vs_view s))"
    using sum.distinct_set_conv_list [OF vs_ids(1) [OF sh], of ?f] vs_ids(2) [OF sh] by simp
  finally show ?thesis by (simp only: uint_nat of_nat_sum)
qed

lemma foldl_upd_consistent:
  assumes "\<forall>p\<in>set ps. H (f p) = Some (g p)"
  shows "foldl (\<lambda>m p. m(f p \<mapsto> g p)) M ps n = (if n \<in> f ` set ps then H n else M n)"
  using assms by (induction ps arbitrary: M) auto

lemma vs_Map_view:
  assumes "vs_shape s"
  shows "vs_Map s n = map_option (\<lambda>(pk, tx, w). (pk, w)) (vs_view s n)"
proof -
  let ?H = "\<lambda>n. map_option (\<lambda>(pk, tx, w). (pk, w)) (vs_view s n)"
  let ?node = "\<lambda>p. vNodeID (vheap s ! p)"
  have "\<forall>p\<in>set (vdrSlice s). ?H (?node p) = Some (vPublicKey (vheap s ! p), vWeight (vheap s ! p))"
    using assms by (auto simp: in_set_conv_nth vs_shape_def slot_ok_def Let_def vs_view_def)
  then have "vs_Map s n = (if n \<in> ?node ` set (vdrSlice s) then ?H n else None)"
    unfolding vs_Map_def Let_def by (rule foldl_upd_consistent)
  moreover have "?node ` set (vdrSlice s) = dom (vs_view s)"
    using vs_ids(2) [OF assms] by (simp add: vs_GetValidatorIDs_def)
  ultimately show ?thesis by (cases "vs_view s n") (auto simp: domIff)
qed

lemma subset_fold_eq:
  "subset_fold s acc ns =
    (let total = unat acc + sum_list (map (\<lambda>n. unat (vs_getWeight s n)) ns) in
     if total < 2 ^ 64 then Inr (of_nat total) else Inl ErrOverflow)"
proof (induction ns arbitrary: acc)
  case Nil
  have "unat acc < 2 ^ 64" using unat_lt2p [of acc] by simp
  then show ?case by simp
next
  case (Cons n ns)
  let ?w = "vs_getWeight s n"
  show ?case
  proof (cases "unat acc + unat ?w < 2 ^ 64")
    case True
    then have a: "Add acc ?w = Inr (acc + ?w)" by (simp add: Add_cases)
    then have "unat (acc + ?w) = unat acc + unat ?w" by (simp add: Add_Inr_iff)
    then show ?thesis unfolding subset_fold.simps a sum.case Cons.IH by (simp add: add.assoc)
  next
    case False
    then have "Add acc ?w = Inl ErrOverflow" by (simp add: Add_cases)
    with False show ?thesis by (simp add: Let_def)
  qed
qed

lemma vs_subsetWeight_eq:
  assumes "distinct ns"
  shows "vs_subsetWeight s ns =
    (let total = (\<Sum>n\<in>set ns. unat (view_weight (vs_view s) n)) in
     if total < 2 ^ 64 then Inr (of_nat total) else Inl ErrOverflow)"
  by (simp add: vs_subsetWeight_def subset_fold_eq vs_getWeight_view
      sum.distinct_set_conv_list [OF assms])

lemma vs_TotalWeight_eq:
  assumes "vs_ok s"
  shows "vs_TotalWeight s =
    (let total = (\<Sum>n\<in>dom (vs_view s). unat (view_weight (vs_view s) n)) in
     if total < 2 ^ 64 then Inr (of_nat total) else Inl errTotalWeightNotUint64)"
proof -
  obtain k where k: "k = (\<Sum>n\<in>dom (vs_view s). unat (view_weight (vs_view s) n))" by blast
  have "int k < 2 ^ 64 \<longleftrightarrow> k < 2 ^ 64"
    by (metis of_nat_less_iff of_nat_numeral of_nat_power)
  then show ?thesis unfolding vs_TotalWeight_def vs_total [OF assms] k [symmetric] Let_def by simp
qed

lemma vs_empty_iff: "vs_shape s \<Longrightarrow> vs_len s = 0 \<longleftrightarrow> vs_view s = Map.empty"
  using vs_ids(2,3) [of s] by (metis dom_eq_empty_conv length_0_conv set_empty)

lemma vs_finite_view: "vs_shape s \<Longrightarrow> finite (dom (vs_view s))"
  using vs_ids(2) [of s] by (metis List.finite_set)

subsection \<open>What a listener sees\<close>

fun apply_event :: "vdr_event \<Rightarrow> vdr_view \<Rightarrow> vdr_view" where
  "apply_event (OnValidatorAdded n pk tx w) V = V(n \<mapsto> (pk, tx, w))"
| "apply_event (OnValidatorRemoved n w) V = V(n := None)"
| "apply_event (OnValidatorWeightChanged n old new) V =
     V(n := map_option (\<lambda>(pk, tx, _). (pk, tx, new)) (V n))"

lemma apply_event_twice [simp]: "apply_event e (apply_event e V) = apply_event e V"
  by (cases e) (auto simp: option.map_comp comp_def split_def)

lemma spec_set_event: "spec_set op V = Inr (V', ev) \<Longrightarrow> apply_event ev V = V'"
  by (cases op) (auto split: option.splits if_splits)

lemma replay_rebuilds:
  assumes "vs_shape s" and "V = Map.empty \<or> V = vs_view s"
  shows "foldl (\<lambda>V e. apply_event e V) V (vs_replay s) = vs_view s"
proof
  fix n
  let ?v = "\<lambda>p. vheap s ! p"
  have "foldl (\<lambda>V e. apply_event e V) V (vs_replay s)
      = foldl (\<lambda>m p. m(vNodeID (?v p) \<mapsto> (vPublicKey (?v p), vTxID (?v p), vWeight (?v p)))) V (vdrSlice s)"
    by (simp add: vs_replay_def foldl_map Let_def)
  moreover have "\<forall>p\<in>set (vdrSlice s). vs_view s (vNodeID (?v p)) = Some (vPublicKey (?v p), vTxID (?v p), vWeight (?v p))"
    using assms(1) by (auto simp: in_set_conv_nth vs_shape_def slot_ok_def Let_def vs_view_def)
  moreover have "(\<lambda>p. vNodeID (?v p)) ` set (vdrSlice s) = dom (vs_view s)"
    using vs_ids(2) [OF assms(1)] by (simp add: vs_GetValidatorIDs_def)
  ultimately show "foldl (\<lambda>V e. apply_event e V) V (vs_replay s) n = vs_view s n"
    using assms(2) by (cases "vs_view s n") (auto simp: foldl_upd_consistent [where H = "vs_view s"] domIff)
qed

end
