(* ===== verification/Validator_Manager.thy ===== *)
theory Validator_Manager
  imports Validator_Set
begin

text \<open>
  The validator manager of \<open>utils/evm/warp/validators/manager.go\<close>: one weighted set per subnet.
  The manager's lock makes each method atomic. Results have the shape of those of
  \<open>Validator_Set\<close>: the new manager, the listener calls in order, and the error; \<open>None\<close> is a panic.
\<close>

record vmanager =
  subnetToVdrs :: "ids_id \<rightharpoonup> vdrSet"
  callbackListeners :: "listener list"

type_synonym m_result = "(vmanager \<times> callback list \<times> vdr_err option) option"

definition NewManager :: vmanager where
  "NewManager = \<lparr>subnetToVdrs = Map.empty, callbackListeners = []\<rparr>"

definition put_set :: "ids_id \<Rightarrow> vdrSet \<Rightarrow> vmanager \<Rightarrow> vmanager" where
  "put_set sid s m = m\<lparr>subnetToVdrs := (subnetToVdrs m)(sid \<mapsto> s)\<rparr>"

definition set_or_new :: "ids_id \<Rightarrow> vmanager \<Rightarrow> vdrSet" where
  "set_or_new sid m =
     (case subnetToVdrs m sid of None \<Rightarrow> newSet sid (callbackListeners m) | Some s \<Rightarrow> s)"

definition m_AddStaker :: "ids_id \<Rightarrow> node_id \<Rightarrow> public_key \<Rightarrow> ids_id \<Rightarrow> uint64 \<Rightarrow> vmanager \<Rightarrow> m_result" where
  "m_AddStaker sid n pk tx w m =
     (if w = 0 then Some (m, [], Some ErrZeroWeight)
      else case vs_add n pk tx w (set_or_new sid m) of
        None \<Rightarrow> None
      | Some (s, cs, e) \<Rightarrow> Some (put_set sid s m, cs, e))"

definition m_AddWeight :: "ids_id \<Rightarrow> node_id \<Rightarrow> uint64 \<Rightarrow> vmanager \<Rightarrow> m_result" where
  "m_AddWeight sid n w m =
     (if w = 0 then Some (m, [], Some ErrZeroWeight)
      else case subnetToVdrs m sid of
        None \<Rightarrow> Some (m, [], Some errMissingValidator)
      | Some s0 \<Rightarrow>
          (case vs_addWeight n w s0 of
             None \<Rightarrow> None
           | Some (s, cs, e) \<Rightarrow> Some (put_set sid s m, cs, e)))"

definition m_GetWeight :: "vmanager \<Rightarrow> ids_id \<Rightarrow> node_id \<Rightarrow> uint64" where
  "m_GetWeight m sid n = (case subnetToVdrs m sid of None \<Rightarrow> 0 | Some s \<Rightarrow> vs_getWeight s n)"

definition m_GetValidator :: "vmanager \<Rightarrow> ids_id \<Rightarrow> node_id \<Rightarrow> validator option" where
  "m_GetValidator m sid n = (case subnetToVdrs m sid of None \<Rightarrow> None | Some s \<Rightarrow> vs_get s n)"

definition m_SubsetWeight :: "vmanager \<Rightarrow> ids_id \<Rightarrow> node_id list \<Rightarrow> (math_err, uint64) go_result" where
  "m_SubsetWeight m sid ns =
     (case subnetToVdrs m sid of None \<Rightarrow> Inr 0 | Some s \<Rightarrow> vs_subsetWeight s ns)"

definition m_RemoveWeight :: "ids_id \<Rightarrow> node_id \<Rightarrow> uint64 \<Rightarrow> vmanager \<Rightarrow> m_result" where
  "m_RemoveWeight sid n w m =
     (if w = 0 then Some (m, [], Some ErrZeroWeight)
      else case subnetToVdrs m sid of
        None \<Rightarrow> Some (m, [], Some errMissingValidator)
      | Some s0 \<Rightarrow>
          (case vs_removeWeight n w s0 of
             None \<Rightarrow> None
           | Some (s, cs, Some e) \<Rightarrow> Some (put_set sid s m, cs, Some e)
           | Some (s, cs, None) \<Rightarrow>
               if vs_len s = 0 \<and> \<not> HasCallbackRegistered s
               then Some (m\<lparr>subnetToVdrs := (subnetToVdrs m)(sid := None)\<rparr>, cs, None)
               else Some (put_set sid s m, cs, None)))"

definition m_NumSubnets :: "vmanager \<Rightarrow> nat" where
  "m_NumSubnets m = card (dom (subnetToVdrs m))"

definition m_NumValidators :: "vmanager \<Rightarrow> ids_id \<Rightarrow> nat" where
  "m_NumValidators m sid = (case subnetToVdrs m sid of None \<Rightarrow> 0 | Some s \<Rightarrow> vs_len s)"

definition m_TotalWeight :: "vmanager \<Rightarrow> ids_id \<Rightarrow> (vdr_err, uint64) go_result" where
  "m_TotalWeight m sid = (case subnetToVdrs m sid of None \<Rightarrow> Inr 0 | Some s \<Rightarrow> vs_TotalWeight s)"

definition m_Sample :: "vmanager \<Rightarrow> ids_id \<Rightarrow> int \<Rightarrow> (vdr_err, node_id list) go_result option" where
  "m_Sample m sid n =
     (if n = 0 then Some (Inr [])
      else case subnetToVdrs m sid of
        None \<Rightarrow> Some (Inl ErrMissingValidators)
      | Some s \<Rightarrow> map_option Inr (vs_sample n))"

definition m_GetMap :: "vmanager \<Rightarrow> ids_id \<Rightarrow> (node_id \<rightharpoonup> public_key \<times> uint64)" where
  "m_GetMap m sid = (case subnetToVdrs m sid of None \<Rightarrow> Map.empty | Some s \<Rightarrow> vs_Map s)"

definition m_GetValidatorIDs :: "vmanager \<Rightarrow> ids_id \<Rightarrow> node_id list" where
  "m_GetValidatorIDs m sid = (case subnetToVdrs m sid of None \<Rightarrow> [] | Some s \<Rightarrow> vs_GetValidatorIDs s)"

text \<open>
  \<open>RegisterCallbackListener\<close> ranges over a Go map, in an order the language leaves open: the first
  argument lists the subnets in the order visited.
\<close>

fun register_all :: "listener \<Rightarrow> ids_id list \<Rightarrow> vmanager \<Rightarrow> vmanager \<times> callback list" where
  "register_all l [] m = (m, [])"
| "register_all l (sid # sids) m =
     (case subnetToVdrs m sid of
        None \<Rightarrow> register_all l sids m
      | Some s \<Rightarrow>
          let (s', cs) = RegisterManagerCallbackListener l s;
              (m', ds) = register_all l sids (put_set sid s' m)
          in (m', cs @ ds))"

definition m_RegisterCallbackListener ::
  "ids_id list \<Rightarrow> listener \<Rightarrow> vmanager \<Rightarrow> vmanager \<times> callback list" where
  "m_RegisterCallbackListener order l m =
     register_all l order (m\<lparr>callbackListeners := callbackListeners m @ [l]\<rparr>)"

definition m_RegisterSetCallbackListener :: "ids_id \<Rightarrow> listener \<Rightarrow> vmanager \<Rightarrow> vmanager \<times> callback list" where
  "m_RegisterSetCallbackListener sid l m =
     (let (s, cs) = vs_RegisterCallbackListener l (set_or_new sid m) in (put_set sid s m, cs))"

text \<open>The reachable managers, each with the listener calls made so far.\<close>

datatype m_op = AddStaker ids_id node_id public_key ids_id uint64 | AddWeight ids_id node_id uint64
  | RemoveWeight ids_id node_id uint64

fun m_exec :: "m_op \<Rightarrow> vmanager \<Rightarrow> m_result" where
  "m_exec (AddStaker sid n pk tx w) m = m_AddStaker sid n pk tx w m"
| "m_exec (AddWeight sid n w) m = m_AddWeight sid n w m"
| "m_exec (RemoveWeight sid n w) m = m_RemoveWeight sid n w m"

inductive m_reach :: "vmanager \<Rightarrow> callback list \<Rightarrow> bool" where
  new: "m_reach NewManager []"
| exec: "\<lbrakk>m_reach m cs; m_exec op m = Some (m', ds, e)\<rbrakk> \<Longrightarrow> m_reach m' (cs @ ds)"
| register: "\<lbrakk>m_reach m cs; distinct order; set order = dom (subnetToVdrs m);
     m_RegisterCallbackListener order l m = (m', ds)\<rbrakk> \<Longrightarrow> m_reach m' (cs @ ds)"
| registerSet: "\<lbrakk>m_reach m cs; m_RegisterSetCallbackListener sid l m = (m', ds)\<rbrakk>
     \<Longrightarrow> m_reach m' (cs @ ds)"

subsection \<open>Invariant and refinement\<close>

definition positive :: "vdr_view \<Rightarrow> bool" where
  "positive V \<longleftrightarrow> (\<forall>n pk tx. V n \<noteq> Some (pk, tx, 0))"

definition set_inv :: "listener list \<Rightarrow> ids_id \<Rightarrow> vdrSet \<Rightarrow> bool" where
  "set_inv ls sid s \<longleftrightarrow> vs_ok s \<and> subnetID s = sid \<and> managerCallbackListeners s = ls \<and> positive (vs_view s)"

definition m_inv :: "vmanager \<Rightarrow> bool" where
  "m_inv m \<longleftrightarrow> finite (dom (subnetToVdrs m)) \<and>
     (\<forall>sid s. subnetToVdrs m sid = Some s \<longrightarrow> set_inv (callbackListeners m) sid s
        \<and> (vs_view s \<noteq> Map.empty \<or> HasCallbackRegistered s))"

definition m_view :: "vmanager \<Rightarrow> ids_id \<Rightarrow> vdr_view" where
  "m_view m sid = (case subnetToVdrs m sid of None \<Rightarrow> Map.empty | Some s \<Rightarrow> vs_view s)"

fun op_subnet :: "m_op \<Rightarrow> ids_id" where
  "op_subnet (AddStaker sid n pk tx w) = sid"
| "op_subnet (AddWeight sid n w) = sid"
| "op_subnet (RemoveWeight sid n w) = sid"

fun op_weight :: "m_op \<Rightarrow> uint64" where
  "op_weight (AddStaker sid n pk tx w) = w"
| "op_weight (AddWeight sid n w) = w"
| "op_weight (RemoveWeight sid n w) = w"

fun op_set :: "m_op \<Rightarrow> set_op" where
  "op_set (AddStaker sid n pk tx w) = SetAdd n pk tx w"
| "op_set (AddWeight sid n w) = SetAddWeight n w"
| "op_set (RemoveWeight sid n w) = SetRemoveWeight n w"

text \<open>The abstract manager: a validator map per subnet; a failing operation changes nothing.\<close>

definition spec_exec :: "m_op \<Rightarrow> (ids_id \<Rightarrow> vdr_view) \<Rightarrow> (ids_id \<Rightarrow> vdr_view) \<times> vdr_err option" where
  "spec_exec op W =
     (if op_weight op = 0 then (W, Some ErrZeroWeight)
      else case spec_set (op_set op) (W (op_subnet op)) of
        Inl e \<Rightarrow> (W, Some e)
      | Inr (V, ev) \<Rightarrow> (W(op_subnet op := V), None))"

lemma spec_set_positive:
  assumes "positive V" "op_weight op \<noteq> 0" "spec_set (op_set op) V = Inr (V', ev)"
  shows "positive V'"
proof -
  have "a + b \<noteq> 0" if "unat a + unat b < 2 ^ 64" "b \<noteq> 0" for a b :: uint64
    using unat_add_lem [of a b] that by (auto simp: unat_eq_zero)
  then show ?thesis using assms
    by (cases op) (auto simp: positive_def split: option.splits if_splits)
qed

lemma m_inv_set:
  "\<lbrakk>m_inv m; subnetToVdrs m sid = Some s\<rbrakk> \<Longrightarrow> set_inv (callbackListeners m) sid s"
  by (simp add: m_inv_def)

lemma set_inv_new: "set_inv ls sid (newSet sid ls)"
  using newSet_ok [of sid ls] by (simp add: set_inv_def positive_def) (simp add: newSet_def)

lemma set_or_new_inv: "m_inv m \<Longrightarrow> set_inv (callbackListeners m) sid (set_or_new sid m)"
  by (simp add: set_or_new_def set_inv_new m_inv_set split: option.split)

lemma set_or_new_view: "vs_view (set_or_new sid m) = m_view m sid"
  by (simp add: set_or_new_def m_view_def newSet_ok split: option.split)

lemma put_set_frame [simp]:
  "callbackListeners (put_set sid s m) = callbackListeners m"
  "m_view (put_set sid s m) = (m_view m)(sid := vs_view s)"
  by (auto simp: put_set_def m_view_def)

lemma put_set_inv:
  assumes "m_inv m" "set_inv (callbackListeners m) sid s" "vs_view s \<noteq> Map.empty \<or> HasCallbackRegistered s"
  shows "m_inv (put_set sid s m)"
  using assms by (auto simp: m_inv_def put_set_def)

lemma put_set_same: "subnetToVdrs m sid = Some s \<Longrightarrow> put_set sid s m = m"
  by (simp add: put_set_def fun_upd_idem)

lemma set_exec_cases:
  assumes "set_inv ls sid s" "op_weight op \<noteq> 0"
  obtains (error) e where "spec_set (op_set op) (vs_view s) = Inl e"
      "vs_exec (op_set op) s = Some (s, [], Some e)"
    | (success) s' V ev where "spec_set (op_set op) (vs_view s) = Inr (V, ev)"
      "vs_exec (op_set op) s = Some (s', notify s ev, None)"
      "set_inv ls sid s'" "vs_view s' = V" "setCallbackListeners s' = setCallbackListeners s"
proof (cases "spec_set (op_set op) (vs_view s)")
  case (Inl e)
  then show ?thesis using error vs_refines [of s "op_set op"] assms(1)
    by (simp add: vs_refines_def set_inv_def)
next
  case (Inr r)
  obtain V ev where r: "r = (V, ev)" by (cases r)
  obtain s' where s': "vs_exec (op_set op) s = Some (s', notify s ev, None)" "vs_ok s'" "vs_view s' = V" "vs_frame s s'"
    using vs_refines [of s "op_set op"] assms(1) Inr r by (auto simp: vs_refines_def set_inv_def)
  have "positive V" using spec_set_positive [of "vs_view s" op V ev] assms Inr r by (simp add: set_inv_def)
  then show ?thesis using success Inr r s' assms(1) by (simp add: set_inv_def vs_frame_def)
qed

text \<open>What an operation of the manager does, in terms of the abstract set.\<close>

definition m_correct :: "m_op \<Rightarrow> vmanager \<Rightarrow> bool" where
  "m_correct op m \<longleftrightarrow>
     (if op_weight op = 0 then m_exec op m = Some (m, [], Some ErrZeroWeight)
      else case spec_set (op_set op) (m_view m (op_subnet op)) of
        Inl e \<Rightarrow> m_exec op m = Some (m, [], Some e)
      | Inr (V, ev) \<Rightarrow> \<exists>m' s. m_exec op m = Some (m', notify s ev, None) \<and> m_inv m'
          \<and> m_view m' = (m_view m)(op_subnet op := V) \<and> callbackListeners m' = callbackListeners m
          \<and> subnetID s = op_subnet op \<and> managerCallbackListeners s = callbackListeners m)"

lemma m_correct_success:
  assumes "op_weight op \<noteq> 0" "spec_set (op_set op) (m_view m (op_subnet op)) = Inr (V, ev)"
    "m_exec op m = Some (m', notify s ev, None)" "m_inv m'"
    "m_view m' = (m_view m)(op_subnet op := V)" "callbackListeners m' = callbackListeners m"
    "set_inv (callbackListeners m) (op_subnet op) s"
  shows "m_correct op m"
  using assms by (auto simp: m_correct_def set_inv_def)

lemma spec_set_nonempty:
  "spec_set (SetAdd n pk tx w) V = Inr (V', ev) \<Longrightarrow> V' \<noteq> Map.empty"
  "spec_set (SetAddWeight n w) V = Inr (V', ev) \<Longrightarrow> V' \<noteq> Map.empty"
  by (auto split: if_splits option.splits)

lemma m_correct_AddStaker:
  assumes "m_inv m"
  shows "m_correct (AddStaker sid n pk tx w) m" (is "m_correct ?op m")
proof (cases "w = 0")
  case True
  then show ?thesis by (simp add: m_correct_def m_AddStaker_def)
next
  case False
  let ?s = "set_or_new sid m"
  have inv: "set_inv (callbackListeners m) sid ?s" by (rule set_or_new_inv [OF assms])
  from False have w: "op_weight ?op \<noteq> 0" by simp
  from inv w show ?thesis
  proof (cases rule: set_exec_cases)
    case (error e)
    then obtain v where "m_view m sid n = Some v" "e = errDuplicateValidator"
      by (auto simp: set_or_new_view split: if_splits)
    then have "subnetToVdrs m sid = Some ?s"
      by (auto simp: m_view_def set_or_new_def split: option.splits)
    with error False show ?thesis
      by (simp add: m_correct_def m_AddStaker_def put_set_same set_or_new_view)
  next
    case (success s' V ev)
    then have "vs_view s' \<noteq> Map.empty" using spec_set_nonempty(1) by auto
    with success have "m_inv (put_set sid s' m)" by (intro put_set_inv [OF assms]) simp_all
    moreover have "m_exec ?op m = Some (put_set sid s' m, notify ?s ev, None)"
      using success False by (simp add: m_AddStaker_def)
    ultimately show ?thesis
      using success inv w by (intro m_correct_success [of ?op m V ev "put_set sid s' m" ?s])
        (simp_all add: set_or_new_view)
  qed
qed

lemma m_correct_AddWeight:
  assumes "m_inv m"
  shows "m_correct (AddWeight sid n w) m" (is "m_correct ?op m")
proof (cases "w = 0 \<or> subnetToVdrs m sid = None")
  case True
  then show ?thesis by (auto simp: m_correct_def m_AddWeight_def m_view_def)
next
  case False
  then obtain s where s: "subnetToVdrs m sid = Some s" and w: "op_weight ?op \<noteq> 0" by auto
  then have v: "m_view m sid = vs_view s" by (simp add: m_view_def)
  have inv: "set_inv (callbackListeners m) sid s" by (rule m_inv_set [OF assms s])
  from inv w show ?thesis
  proof (cases rule: set_exec_cases)
    case (error e)
    with s w v show ?thesis
      by (simp add: m_correct_def m_AddWeight_def put_set_same)
  next
    case (success s' V ev)
    then have "vs_view s' \<noteq> Map.empty" using spec_set_nonempty(2) by auto
    with success have "m_inv (put_set sid s' m)" by (intro put_set_inv [OF assms]) simp_all
    moreover have "m_exec ?op m = Some (put_set sid s' m, notify s ev, None)"
      using success s w by (simp add: m_AddWeight_def)
    ultimately show ?thesis
      using success inv w v by (intro m_correct_success [of ?op m V ev "put_set sid s' m" s]) simp_all
  qed
qed

lemma drop_set_inv: "m_inv m \<Longrightarrow> m_inv (m\<lparr>subnetToVdrs := (subnetToVdrs m)(sid := None)\<rparr>)"
  by (auto simp: m_inv_def split: if_splits)

lemma drop_set_view: "m_view (m\<lparr>subnetToVdrs := (subnetToVdrs m)(sid := None)\<rparr>) = (m_view m)(sid := Map.empty)"
  by (auto simp: m_view_def)

lemma m_correct_RemoveWeight:
  assumes "m_inv m"
  shows "m_correct (RemoveWeight sid n w) m" (is "m_correct ?op m")
proof (cases "w = 0 \<or> subnetToVdrs m sid = None")
  case True
  then show ?thesis by (auto simp: m_correct_def m_RemoveWeight_def m_view_def)
next
  case False
  then obtain s where s: "subnetToVdrs m sid = Some s" and w: "op_weight ?op \<noteq> 0" by auto
  then have v: "m_view m sid = vs_view s" by (simp add: m_view_def)
  have inv: "set_inv (callbackListeners m) sid s" by (rule m_inv_set [OF assms s])
  from inv w show ?thesis
  proof (cases rule: set_exec_cases)
    case (error e)
    with s w v show ?thesis
      by (simp add: m_correct_def m_RemoveWeight_def put_set_same)
  next
    case (success s' V ev)
    have empty: "vs_len s' = 0 \<longleftrightarrow> V = Map.empty"
      using vs_empty_iff [of s'] success(3,4) by (simp add: set_inv_def vs_ok_def)
    let ?m = "if V = Map.empty \<and> \<not> HasCallbackRegistered s'
      then m\<lparr>subnetToVdrs := (subnetToVdrs m)(sid := None)\<rparr> else put_set sid s' m"
    have "m_inv ?m"
      using success drop_set_inv [OF assms] put_set_inv [OF assms, of sid s'] by auto
    moreover have "m_view ?m = (m_view m)(sid := V)"
      using success(4) by (simp add: drop_set_view)
    moreover have "m_exec ?op m = Some (?m, notify s ev, None)"
      using success s w empty by (simp add: m_RemoveWeight_def)
    moreover have "callbackListeners ?m = callbackListeners m" by simp
    ultimately show ?thesis
      using success inv w v by (intro m_correct_success [of ?op m V ev ?m s]) simp_all
  qed
qed

lemma m_correct: "m_inv m \<Longrightarrow> m_correct op m"
  by (cases op) (simp_all add: m_correct_AddStaker m_correct_AddWeight m_correct_RemoveWeight)

lemma m_exec_refines:
  assumes "m_inv m"
  shows "\<exists>m' ds. m_exec op m = Some (m', ds, snd (spec_exec op (m_view m))) \<and> m_inv m'
    \<and> m_view m' = fst (spec_exec op (m_view m))"
  using m_correct [OF assms, of op] assms
  by (auto simp: m_correct_def spec_exec_def split: if_splits sum.splits prod.splits)

subsection \<open>What a manager listener has seen\<close>

fun observe :: "listener \<Rightarrow> (ids_id \<Rightarrow> vdr_view) \<Rightarrow> callback \<Rightarrow> (ids_id \<Rightarrow> vdr_view)" where
  "observe l W (ManagerCall l' sid ev) = (if l' = l then W(sid := apply_event ev (W sid)) else W)"
| "observe l W (SetCall l' ev) = W"

definition observed :: "listener \<Rightarrow> callback list \<Rightarrow> ids_id \<Rightarrow> vdr_view" where
  "observed l cs = foldl (observe l) (\<lambda>_. Map.empty) cs"

lemma observe_set_calls [simp]: "foldl (observe l) W (map (\<lambda>x. SetCall x ev) ls) = W"
  "foldl (observe l) W (map (SetCall x) evs) = W"
  by (induction ls arbitrary: W) (auto, induction evs arbitrary: W, auto)

lemma observe_manager_calls:
  "foldl (observe l) W (map (\<lambda>x. ManagerCall x sid ev) ls)
    = (if l \<in> set ls then W(sid := apply_event ev (W sid)) else W)"
  by (induction ls arbitrary: W) auto

lemma observe_notify:
  "foldl (observe l) W (notify s ev) =
    (if l \<in> set (managerCallbackListeners s) then W(subnetID s := apply_event ev (W (subnetID s))) else W)"
  by (simp add: notify_def observe_manager_calls)

lemma observe_replay:
  "foldl (observe k) W (map (ManagerCall l sid) evs) =
    (if k = l then W(sid := foldl (\<lambda>V e. apply_event e V) (W sid) evs) else W)"
  by (induction evs arbitrary: W) auto

definition seen_ok :: "vmanager \<Rightarrow> callback list \<Rightarrow> bool" where
  "seen_ok m cs \<longleftrightarrow> (\<forall>l. observed l cs =
     (if l \<in> set (callbackListeners m) then m_view m else (\<lambda>_. Map.empty)))"

lemma seen_ok_exec:
  assumes "m_inv m" "seen_ok m cs" "m_exec op m = Some (m', ds, e)"
  shows "m_inv m'" "seen_ok m' (cs @ ds)"
proof -
  have "m_inv m' \<and> seen_ok m' (cs @ ds)"
  proof (cases "op_weight op = 0 \<or> (\<exists>e. spec_set (op_set op) (m_view m (op_subnet op)) = Inl e)")
    case True
    then have "m' = m \<and> ds = []"
      using m_correct [OF assms(1), of op] assms(3) by (auto simp: m_correct_def split: if_splits)
    with assms(1,2) show ?thesis by simp
  next
    case False
    then obtain V ev where sp: "spec_set (op_set op) (m_view m (op_subnet op)) = Inr (V, ev)"
      by (metis old.sum.exhaust surj_pair)
    then obtain s where s: "ds = notify s ev" "m_inv m'" "m_view m' = (m_view m)(op_subnet op := V)"
        "callbackListeners m' = callbackListeners m" "subnetID s = op_subnet op"
        "managerCallbackListeners s = callbackListeners m"
      using m_correct [OF assms(1), of op] assms(3) False by (auto simp: m_correct_def split: if_splits)
    then show ?thesis
      using assms(2) spec_set_event [OF sp]
      by (auto simp: seen_ok_def observed_def observe_notify)
  qed
  then show "m_inv m'" "seen_ok m' (cs @ ds)" by simp_all
qed

definition with_listener :: "listener \<Rightarrow> vdrSet \<Rightarrow> vdrSet" where
  "with_listener l s = s\<lparr>managerCallbackListeners := managerCallbackListeners s @ [l]\<rparr>"

lemma with_listener_simps [simp]:
  "vs_view (with_listener l s) = vs_view s" "vs_ok (with_listener l s) = vs_ok s"
  "subnetID (with_listener l s) = subnetID s"
  "managerCallbackListeners (with_listener l s) = managerCallbackListeners s @ [l]"
  "HasCallbackRegistered (with_listener l s) = HasCallbackRegistered s"
  by (simp_all add: with_listener_def vs_view_def fun_eq_iff vs_ok_def vs_shape_def slot_ok_def
      HasCallbackRegistered_def)

definition keyed :: "vmanager \<Rightarrow> bool" where
  "keyed m \<longleftrightarrow> (\<forall>sid s. subnetToVdrs m sid = Some s \<longrightarrow> subnetID s = sid)"

lemma register_all_Cons:
  assumes "keyed m" "subnetToVdrs m sid = Some s"
  shows "register_all l (sid # sids) m =
    (let (m', ds) = register_all l sids (put_set sid (with_listener l s) m)
     in (m', map (ManagerCall l sid) (vs_replay s) @ ds))"
  using assms
  by (simp add: RegisterManagerCallbackListener_def with_listener_def keyed_def split_def Let_def)

lemma register_all_spec:
  assumes "keyed m" "distinct sids"
  shows "callbackListeners (fst (register_all l sids m)) = callbackListeners m
    \<and> (\<forall>sid. subnetToVdrs (fst (register_all l sids m)) sid =
        (if sid \<in> set sids then map_option (with_listener l) (subnetToVdrs m sid) else subnetToVdrs m sid))
    \<and> (\<forall>sid. foldl (observe k) W (snd (register_all l sids m)) sid =
        (if k = l \<and> sid \<in> set sids then
           (case subnetToVdrs m sid of None \<Rightarrow> W sid
            | Some s \<Rightarrow> foldl (\<lambda>V e. apply_event e V) (W sid) (vs_replay s))
         else W sid))"
  using assms
proof (induction sids arbitrary: m W)
  case (Cons a sids)
  show ?case
  proof (cases "subnetToVdrs m a")
    case None
    with Cons.IH [of m W] Cons.prems show ?thesis by auto
  next
    case (Some s)
    define n where "n = put_set a (with_listener l s) m"
    define V where "V = foldl (observe k) W (map (ManagerCall l a) (vs_replay s))"
    have n: "subnetToVdrs n x = (if x = a then Some (with_listener l s) else subnetToVdrs m x)"
      "callbackListeners n = callbackListeners m" for x
      by (simp_all add: n_def put_set_def)
    have V: "V x = (if k = l \<and> x = a then foldl (\<lambda>V e. apply_event e V) (W a) (vs_replay s) else W x)" for x
      by (simp add: V_def observe_replay)
    have keyed: "keyed n" using Cons.prems(1) Some by (simp add: keyed_def n)
    have step: "fst (register_all l (a # sids) m) = fst (register_all l sids n)"
      "foldl (observe k) W (snd (register_all l (a # sids) m)) = foldl (observe k) V (snd (register_all l sids n))"
      unfolding register_all_Cons [OF Cons.prems(1) Some] V_def by (simp_all add: split_def n_def Let_def)
    have a: "a \<notin> set sids" "distinct sids" using Cons.prems(2) by simp_all
    note IH = Cons.IH [OF keyed a(2), of V]
    show ?thesis
    proof (intro conjI allI)
      show "callbackListeners (fst (register_all l (a # sids) m)) = callbackListeners m"
        unfolding step using IH n(2) by simp
      fix sid
      from IH have 2: "foldl (observe k) V (snd (register_all l sids n)) sid =
          (if k = l \<and> sid \<in> set sids then
             (case subnetToVdrs n sid of None \<Rightarrow> V sid
              | Some s \<Rightarrow> foldl (\<lambda>V e. apply_event e V) (V sid) (vs_replay s))
           else V sid)" by blast
      show "subnetToVdrs (fst (register_all l (a # sids) m)) sid =
          (if sid \<in> set (a # sids) then map_option (with_listener l) (subnetToVdrs m sid) else subnetToVdrs m sid)"
        unfolding step using IH n(1) [of sid] a(1) Some by (cases "sid = a") simp_all
      show "foldl (observe k) W (snd (register_all l (a # sids) m)) sid =
          (if k = l \<and> sid \<in> set (a # sids) then
             (case subnetToVdrs m sid of None \<Rightarrow> W sid
              | Some s \<Rightarrow> foldl (\<lambda>V e. apply_event e V) (W sid) (vs_replay s))
           else W sid)"
        unfolding step 2 using n(1) [of sid] V [of sid] a(1) Some
        by (cases "sid = a") (simp_all cong: option.case_cong)
    qed
  qed
qed simp

lemma m_inv_keyed: "m_inv m \<Longrightarrow> keyed m"
  by (simp add: m_inv_def set_inv_def keyed_def)

lemma register_correct:
  assumes inv: "m_inv m" and seen: "seen_ok m cs" and order: "distinct order" "set order = dom (subnetToVdrs m)"
    and reg: "m_RegisterCallbackListener order l m = (m', ds)"
  shows "m_inv m' \<and> m_view m' = m_view m \<and> seen_ok m' (cs @ ds)"
proof -
  let ?m = "m\<lparr>callbackListeners := callbackListeners m @ [l]\<rparr>"
  have k: "keyed ?m" using m_inv_keyed [OF inv] by (simp add: keyed_def)
  have m': "m' = fst (register_all l order ?m)" "ds = snd (register_all l order ?m)"
    using reg by (simp_all add: m_RegisterCallbackListener_def)
  note spec = register_all_spec [OF k order(1), of l, folded m']
  have ls: "callbackListeners m' = callbackListeners m @ [l]" using spec by simp
  have sets: "subnetToVdrs m' sid = map_option (with_listener l) (subnetToVdrs m sid)" for sid
    using spec order(2) by (auto simp: domIff)
  have view: "m_view m' = m_view m"
    by (rule ext) (simp add: m_view_def sets split: option.split)
  have "dom (subnetToVdrs m') = dom (subnetToVdrs m)" by (auto simp: domIff sets)
  then have "m_inv m'"
    using inv unfolding m_inv_def ls by (auto simp: sets set_inv_def)
  moreover have "observed k (cs @ ds) = (if k \<in> set (callbackListeners m') then m_view m' else (\<lambda>_. Map.empty))" for k
  proof
    fix sid
    let ?W = "observed k cs"
    have step: "observed k (cs @ ds) sid = (if k = l \<and> sid \<in> set order then
           (case subnetToVdrs m sid of None \<Rightarrow> ?W sid
            | Some s \<Rightarrow> foldl (\<lambda>V e. apply_event e V) (?W sid) (vs_replay s)) else ?W sid)"
      using spec [of k ?W] by (simp add: observed_def)
    have W: "?W = (if k \<in> set (callbackListeners m) then m_view m else (\<lambda>_. Map.empty))"
      using seen by (simp add: seen_ok_def)
    show "observed k (cs @ ds) sid = (if k \<in> set (callbackListeners m') then m_view m' else (\<lambda>_. Map.empty)) sid"
    proof (cases "subnetToVdrs m sid")
      case None
      then show ?thesis using W order(2) by (auto simp: step view ls m_view_def)
    next
      case (Some s)
      have "vs_shape s" using m_inv_set [OF inv Some] by (simp add: set_inv_def vs_ok_def)
      from replay_rebuilds [OF this, of "?W sid"] Some show ?thesis
        using W order(2) by (auto simp: step view ls m_view_def)
    qed
  qed
  ultimately show ?thesis using view by (simp add: seen_ok_def)
qed

lemma registerSet_correct:
  assumes inv: "m_inv m" and seen: "seen_ok m cs" and reg: "m_RegisterSetCallbackListener sid l m = (m', ds)"
  shows "m_inv m' \<and> m_view m' = m_view m \<and> seen_ok m' (cs @ ds)"
proof -
  let ?s = "set_or_new sid m"
  let ?t = "?s\<lparr>setCallbackListeners := setCallbackListeners ?s @ [l]\<rparr>"
  have m': "m' = put_set sid ?t m" "ds = map (SetCall l) (vs_replay ?s)"
    using reg by (simp_all add: m_RegisterSetCallbackListener_def vs_RegisterCallbackListener_def)
  have v: "vs_view ?t = m_view m sid"
    using set_or_new_view [of sid m] by (simp add: vs_view_def fun_eq_iff)
  have "vs_ok ?t = vs_ok ?s" by (simp add: vs_ok_def vs_shape_def slot_ok_def)
  then have "set_inv (callbackListeners m) sid ?t"
    using set_or_new_inv [OF inv, of sid] v by (simp add: set_inv_def set_or_new_view)
  then have "m_inv m'"
    unfolding m' by (rule put_set_inv [OF inv]) (simp add: HasCallbackRegistered_def)
  moreover have "m_view m' = m_view m" by (simp add: m' v)
  ultimately show ?thesis using seen by (simp add: seen_ok_def observed_def) (simp add: m')
qed

lemma reach_inv: "m_reach m cs \<Longrightarrow> m_inv m \<and> seen_ok m cs"
proof (induction rule: m_reach.induct)
  case new
  show ?case by (simp add: m_inv_def NewManager_def seen_ok_def observed_def)
next
  case (exec m cs op m' ds e)
  then show ?case using seen_ok_exec by blast
next
  case (register m cs order l m' ds)
  then show ?case using register_correct by blast
next
  case (registerSet m cs sid l m' ds)
  then show ?case using registerSet_correct by blast
qed

subsection \<open>Properties of the validator manager\<close>

text \<open>A concrete run: a listener registers, then a validator of weight 5 joins a subnet.\<close>

definition demo_manager :: vmanager where
  "demo_manager = \<lparr>subnetToVdrs = [[1] \<mapsto> \<lparr>subnetID = [1],
       vheap = [\<lparr>vNodeID = [2], vPublicKey = None, vTxID = [3], vWeight = 5, vindex = 0\<rparr>],
       vdrs = [[2] \<mapsto> 0], vdrSlice = [0], weights = [5], totalWeight = 5, samplerInitialized = False,
       managerCallbackListeners = [7], setCallbackListeners = []\<rparr>], callbackListeners = [7]\<rparr>"

lemma demo_reach: "m_reach demo_manager [ManagerCall 7 [1] (OnValidatorAdded [2] None [3] 5)]"
proof -
  let ?m = "\<lparr>subnetToVdrs = Map.empty, callbackListeners = [7]\<rparr>"
  have "m_RegisterCallbackListener [] 7 NewManager = (?m, [])"
    by (simp add: m_RegisterCallbackListener_def NewManager_def)
  then have "m_reach ?m []"
    using m_reach.register [OF m_reach.new, of "[]" 7 ?m "[]"] by (simp add: NewManager_def)
  moreover have "m_exec (AddStaker [1] [2] None [3] 5) ?m =
      Some (demo_manager, [ManagerCall 7 [1] (OnValidatorAdded [2] None [3] 5)], None)"
    by (simp add: m_AddStaker_def set_or_new_def newSet_def vs_add_def Let_def put_set_def
        callValidatorAddedCallbacks_def notify_def demo_manager_def)
  ultimately show ?thesis using m_reach.exec [of ?m "[]"] by fastforce
qed

lemma demo_view: "m_view demo_manager = (\<lambda>_. Map.empty)([1] := [[2] \<mapsto> (None, [3], 5)])"
  by (auto simp: fun_eq_iff m_view_def demo_manager_def vs_view_def Let_def)

text \<open>
  C9. Every manager reached by \<open>AddStaker\<close>, \<open>AddWeight\<close>, \<open>RemoveWeight\<close> and the registrations,
  starting from \<open>NewManager\<close>, behaves as a map from subnets to finite maps from nodes to key, transaction
  and weight: a further operation never panics and returns exactly the error of the abstract operation
  (zero weight, duplicate or missing validator, overflow, underflow), leaves everything unchanged on
  an error, and otherwise changes exactly the addressed validator; no validator ever has weight zero.
\<close>

theorem validator_manager_refines:
  assumes "m_reach m cs"
  shows "\<exists>m' ds. m_exec op m = Some (m', ds, snd (spec_exec op (m_view m)))
      \<and> m_view m' = fst (spec_exec op (m_view m)) \<and> positive (m_view m' sid)"
proof -
  have inv: "m_inv m" using reach_inv [OF assms] by simp
  from m_exec_refines [OF inv, of op] obtain m' ds where
      r: "m_exec op m = Some (m', ds, snd (spec_exec op (m_view m)))" "m_inv m'"
      "m_view m' = fst (spec_exec op (m_view m))"
    by auto
  moreover have "positive (m_view m' sid)"
    using r(2) by (auto simp: m_view_def m_inv_def set_inv_def positive_def split: option.split)
  ultimately show ?thesis by auto
qed

lemma reads_agree:
  fixes sid :: ids_id
  assumes "m_inv m" and "distinct ns"
  defines "V \<equiv> m_view m sid"
  shows "m_TotalWeight m sid =
      (let t = (\<Sum>n\<in>dom V. unat (view_weight V n)) in
       if t < 2 ^ 64 then Inr (of_nat t) else Inl errTotalWeightNotUint64)"
    and "m_SubsetWeight m sid ns =
      (let t = (\<Sum>n\<in>set ns. unat (view_weight V n)) in
       if t < 2 ^ 64 then Inr (of_nat t) else Inl ErrOverflow)"
    and "m_GetWeight m sid n = view_weight V n"
    and "m_GetMap m sid n = map_option (\<lambda>(pk, tx, w). (pk, w)) (V n)"
    and "set (m_GetValidatorIDs m sid) = dom V \<and> distinct (m_GetValidatorIDs m sid)
      \<and> m_NumValidators m sid = card (dom V)"
proof -
  note si = m_inv_set [OF assms(1), of sid]
  have ok: "vs_ok s" "vs_shape s" if "subnetToVdrs m sid = Some s" for s
    using si [OF that] by (simp_all add: set_inv_def vs_ok_def)
  show "m_TotalWeight m sid = (let t = (\<Sum>n\<in>dom V. unat (view_weight V n)) in
       if t < 2 ^ 64 then Inr (of_nat t) else Inl errTotalWeightNotUint64)"
    unfolding V_def m_TotalWeight_def m_view_def
    by (cases "subnetToVdrs m sid") (simp_all add: vs_TotalWeight_eq ok)
  show "m_SubsetWeight m sid ns = (let t = (\<Sum>n\<in>set ns. unat (view_weight V n)) in
       if t < 2 ^ 64 then Inr (of_nat t) else Inl ErrOverflow)"
    unfolding V_def m_SubsetWeight_def m_view_def
    by (cases "subnetToVdrs m sid") (simp_all add: vs_subsetWeight_eq [OF assms(2)] view_weight_def)
  show "m_GetWeight m sid n = view_weight V n"
    unfolding V_def m_GetWeight_def m_view_def
    by (cases "subnetToVdrs m sid") (simp_all add: vs_getWeight_view view_weight_def)
  show "m_GetMap m sid n = map_option (\<lambda>(pk, tx, w). (pk, w)) (V n)"
    unfolding V_def m_GetMap_def m_view_def
    by (cases "subnetToVdrs m sid") (simp_all add: vs_Map_view ok)
  show "set (m_GetValidatorIDs m sid) = dom V \<and> distinct (m_GetValidatorIDs m sid)
      \<and> m_NumValidators m sid = card (dom V)"
    unfolding V_def m_GetValidatorIDs_def m_view_def m_NumValidators_def
    by (cases "subnetToVdrs m sid")
      (use vs_ids ok distinct_card in \<open>fastforce+\<close>)
qed

theorem validator_manager_refines_witness:
  "(\<exists>m' ds. m_exec (RemoveWeight [1] [2] 6) demo_manager = Some (m', ds, Some (MathErr ErrUnderflow))
     \<and> m_view m' = m_view demo_manager)
   \<and> (\<exists>m' ds. m_exec (RemoveWeight [1] [2] 5) demo_manager = Some (m', ds, None)
     \<and> m_view m' [1] = Map.empty)"
  using validator_manager_refines [OF demo_reach, of "RemoveWeight [1] [2] 6" "[1]"]
    validator_manager_refines [OF demo_reach, of "RemoveWeight [1] [2] 5" "[1]"]
  by (fastforce simp: spec_exec_def demo_view)

text \<open>
  C25. In a reachable manager the reads of a subnet agree with its validators: \<open>TotalWeight\<close> is the sum
  of all weights, or an error exactly when that sum does not fit 64 bits (even though the single
  additions succeeded); \<open>SubsetWeight\<close> is the sum over the requested nodes whatever order they are visited
  in; \<open>GetMap\<close>, \<open>GetValidatorIDs\<close>, \<open>GetWeight\<close> and \<open>NumValidators\<close> list exactly the validators, each once.
\<close>

theorem validator_manager_reads:
  fixes sid :: ids_id
  assumes "m_reach m cs" and "distinct ns"
  defines "V \<equiv> m_view m sid"
  shows "m_TotalWeight m sid =
      (let t = (\<Sum>n\<in>dom V. unat (view_weight V n)) in
       if t < 2 ^ 64 then Inr (of_nat t) else Inl errTotalWeightNotUint64)
    \<and> m_SubsetWeight m sid ns =
      (let t = (\<Sum>n\<in>set ns. unat (view_weight V n)) in
       if t < 2 ^ 64 then Inr (of_nat t) else Inl ErrOverflow)
    \<and> m_GetWeight m sid n = view_weight V n
    \<and> m_GetMap m sid n = map_option (\<lambda>(pk, tx, w). (pk, w)) (V n)
    \<and> set (m_GetValidatorIDs m sid) = dom V \<and> distinct (m_GetValidatorIDs m sid)
    \<and> m_NumValidators m sid = card (dom V)"
proof -
  have "m_inv m" using reach_inv [OF assms(1)] by simp
  from reads_agree [OF this assms(2)] show ?thesis unfolding V_def by blast
qed

theorem validator_manager_reads_witness:
  "m_TotalWeight demo_manager [1] = Inr 5 \<and> m_SubsetWeight demo_manager [1] [[9], [2]] = Inr 5
   \<and> m_NumValidators demo_manager [1] = 1"
  using validator_manager_reads [OF demo_reach, of "[[9], [2]]" "[1]" "[2]"]
  by (simp add: demo_view view_weight_def Let_def)

text \<open>
  C10. The calls made on a manager listener determine its picture of the network: replaying every call
  ever made on listener \<open>l\<close>, in order, from nothing gives exactly the current validators of every
  subnet when \<open>l\<close> is registered (whenever it registered, even several times), and nothing when it is not.
\<close>

theorem listener_mirrors_manager:
  assumes "m_reach m cs"
  shows "observed l cs = (if l \<in> set (callbackListeners m) then m_view m else (\<lambda>_. Map.empty))"
  using reach_inv [OF assms] by (simp add: seen_ok_def)

theorem listener_mirrors_manager_witness:
  "observed 7 [ManagerCall 7 [1] (OnValidatorAdded [2] None [3] 5)] [1] [2] = Some (None, [3], 5)"
  using listener_mirrors_manager [OF demo_reach, of 7] by (simp add: demo_view) (simp add: demo_manager_def)

text \<open>A subnet with a listener and no validators counts as a subnet.\<close>

lemma NumSubnets_counts_empty:
  "m_NumSubnets (fst (m_RegisterSetCallbackListener sid l NewManager)) = 1
   \<and> m_NumValidators (fst (m_RegisterSetCallbackListener sid l NewManager)) sid = 0"
  by (simp add: m_NumSubnets_def m_NumValidators_def m_RegisterSetCallbackListener_def
      vs_RegisterCallbackListener_def set_or_new_def put_set_def NewManager_def newSet_def vs_len_def)

end
