(* ===== verification/Uptime.thy ===== *)
theory Uptime
  imports Slide_Prelude
begin

text \<open>
  Uptime tracking: the manager of \<open>utils/avalanche/uptime/manager.go\<close>, its \<open>State\<close> interface
  (\<open>state.go\<close>), the clock of \<open>utils/avalanche/timer/mockable/clock.go\<close>, and the manager that can pause
  validators, \<open>utils/evm/validators/uptime/pausable_manager.go\<close>.

  Times are integers, nanoseconds since the Unix epoch. A \<open>time.Duration\<close> is an integer in
  the range of \<open>int64\<close>: \<open>Sub\<close> saturates and \<open>+\<close> wraps, as in Go. The state behind the
  manager is an interface, so its two methods are arguments of the operations.
\<close>

subsection \<open>Times, durations, the clock\<close>

type_synonym duration = int

definition second :: duration where
  "second = 1000000000"

definition time_Sub :: "gotime \<Rightarrow> gotime \<Rightarrow> duration" where
  "time_Sub t u = max (- (2 ^ 63)) (min (2 ^ 63 - 1) (t - u))"

definition dur_add :: "duration \<Rightarrow> duration \<Rightarrow> duration" where
  "dur_add d e = wrap64 (d + e)"

record clock =
  faked :: bool
  ctime :: gotime

definition clock_Set :: "gotime \<Rightarrow> clock \<Rightarrow> clock" where
  "clock_Set t c = \<lparr>faked = True, ctime = t\<rparr>"

definition clock_Sync :: "clock \<Rightarrow> clock" where
  "clock_Sync c = c\<lparr>faked := False\<rparr>"

text \<open>\<open>wall\<close> is what \<open>time.Now\<close> returns at the call.\<close>

definition clock_Time :: "gotime \<Rightarrow> clock \<Rightarrow> gotime" where
  "clock_Time wall c = (if faked c then ctime c else wall)"

definition clock_UnixTime :: "gotime \<Rightarrow> clock \<Rightarrow> gotime" where
  "clock_UnixTime wall c = clock_Time wall c div second * second"

definition clock_Unix :: "gotime \<Rightarrow> clock \<Rightarrow> uint64" where
  "clock_Unix wall c = (let unix = clock_Time wall c div second in if unix < 0 then 0 else of_int unix)"

subsection \<open>The uptime manager\<close>

text \<open>
  Two packages declare an error named \<open>ErrNotFound\<close>: \<open>utils/avalanche/database\<close>, which the
  manager compares against, and \<open>database\<close>. They are different values.
\<close>

datatype uptime_err = AvaErrNotFound | DbErrNotFound | errAlreadyStartedTracking | errNotStartedTracking
  | errPausedDisconnect | StateErr nat

type_synonym 's get_uptime = "'s \<Rightarrow> node_id \<Rightarrow> (uptime_err, duration \<times> gotime) go_result"
type_synonym 's set_uptime = "'s \<Rightarrow> node_id \<Rightarrow> duration \<Rightarrow> gotime \<Rightarrow> 's \<times> uptime_err option"

record 's uptime_manager =
  ustate :: 's
  connections :: "node_id \<rightharpoonup> gotime"
  startedTracking :: bool

definition um_New :: "'s \<Rightarrow> 's uptime_manager" where
  "um_New s = \<lparr>ustate = s, connections = Map.empty, startedTracking = False\<rparr>"

definition um_Connect :: "gotime \<Rightarrow> node_id \<Rightarrow> 's uptime_manager \<Rightarrow> 's uptime_manager" where
  "um_Connect now n m = m\<lparr>connections := (connections m)(n \<mapsto> now)\<rparr>"

definition um_IsConnected :: "'s uptime_manager \<Rightarrow> node_id \<Rightarrow> bool" where
  "um_IsConnected m n = (connections m n \<noteq> None)"

definition um_CalculateUptime ::
  "'s get_uptime \<Rightarrow> gotime \<Rightarrow> 's uptime_manager \<Rightarrow> node_id \<Rightarrow> (uptime_err, duration \<times> gotime) go_result" where
  "um_CalculateUptime get now m n =
     (case get (ustate m) n of
        Inl e \<Rightarrow> Inl e
      | Inr (upDuration, lastUpdated) \<Rightarrow>
          if now < lastUpdated then Inr (upDuration, lastUpdated)
          else if \<not> startedTracking m then Inr (dur_add upDuration (time_Sub now lastUpdated), now)
          else
            (case connections m n of
               None \<Rightarrow> Inr (upDuration, now)
             | Some t0 \<Rightarrow>
                 let timeConnected = (if t0 < lastUpdated then lastUpdated else t0) in
                 if now < timeConnected then Inr (upDuration, now)
                 else Inr (dur_add upDuration (time_Sub now timeConnected), now)))"

definition um_updateUptime ::
  "'s get_uptime \<Rightarrow> 's set_uptime \<Rightarrow> gotime \<Rightarrow> node_id \<Rightarrow> 's uptime_manager
    \<Rightarrow> 's uptime_manager \<times> uptime_err option" where
  "um_updateUptime get put now n m =
     (case um_CalculateUptime get now m n of
        Inl e \<Rightarrow> if e = AvaErrNotFound then (m, None) else (m, Some e)
      | Inr (newDuration, newLastUpdated) \<Rightarrow>
          (case put (ustate m) n newDuration newLastUpdated of (s, e) \<Rightarrow> (m\<lparr>ustate := s\<rparr>, e)))"

fun um_update_all ::
  "'s get_uptime \<Rightarrow> 's set_uptime \<Rightarrow> gotime \<Rightarrow> node_id list \<Rightarrow> 's uptime_manager
    \<Rightarrow> 's uptime_manager \<times> uptime_err option" where
  "um_update_all get put now [] m = (m, None)"
| "um_update_all get put now (n # ns) m =
     (case um_updateUptime get put now n m of
        (m', Some e) \<Rightarrow> (m', Some e)
      | (m', None) \<Rightarrow> um_update_all get put now ns m')"

definition um_StartTracking ::
  "'s get_uptime \<Rightarrow> 's set_uptime \<Rightarrow> gotime \<Rightarrow> node_id list \<Rightarrow> 's uptime_manager
    \<Rightarrow> 's uptime_manager \<times> uptime_err option" where
  "um_StartTracking get put now ns m =
     (if startedTracking m then (m, Some errAlreadyStartedTracking)
      else case um_update_all get put now ns m of
        (m', Some e) \<Rightarrow> (m', Some e)
      | (m', None) \<Rightarrow> (m'\<lparr>startedTracking := True\<rparr>, None))"

definition um_StopTracking ::
  "'s get_uptime \<Rightarrow> 's set_uptime \<Rightarrow> gotime \<Rightarrow> node_id list \<Rightarrow> 's uptime_manager
    \<Rightarrow> 's uptime_manager \<times> uptime_err option" where
  "um_StopTracking get put now ns m =
     (if \<not> startedTracking m then (m, Some errNotStartedTracking)
      else case um_update_all get put now ns m of
        (m', Some e) \<Rightarrow> (m', Some e)
      | (m', None) \<Rightarrow> (m'\<lparr>startedTracking := False\<rparr>, None))"

text \<open>\<open>Disconnect\<close> defers the deletion of the connection: it happens last, and also after an error.\<close>

definition um_Disconnect ::
  "'s get_uptime \<Rightarrow> 's set_uptime \<Rightarrow> gotime \<Rightarrow> node_id \<Rightarrow> 's uptime_manager
    \<Rightarrow> 's uptime_manager \<times> uptime_err option" where
  "um_Disconnect get put now n m =
     (let (m', e) = (if \<not> startedTracking m then (m, None) else um_updateUptime get put now n m)
      in (m'\<lparr>connections := (connections m')(n := None)\<rparr>, e))"

subsection \<open>The pausable manager\<close>

record 's pausable =
  inner :: "'s uptime_manager"
  pausedVdrs :: "node_id set"
  connectedVdrs :: "node_id set"

definition pm_New :: "'s uptime_manager \<Rightarrow> 's pausable" where
  "pm_New m = \<lparr>inner = m, pausedVdrs = {}, connectedVdrs = {}\<rparr>"

definition pm_IsPaused :: "'s pausable \<Rightarrow> node_id \<Rightarrow> bool" where
  "pm_IsPaused p n = (n \<in> pausedVdrs p)"

definition pm_IsConnected :: "'s pausable \<Rightarrow> node_id \<Rightarrow> bool" where
  "pm_IsConnected p n = (n \<in> connectedVdrs p)"

definition pm_Connect :: "gotime \<Rightarrow> node_id \<Rightarrow> 's pausable \<Rightarrow> 's pausable" where
  "pm_Connect now n p0 =
     (let p = p0\<lparr>connectedVdrs := insert n (connectedVdrs p0)\<rparr> in
      if \<not> pm_IsPaused p n \<and> \<not> um_IsConnected (inner p) n
      then p\<lparr>inner := um_Connect now n (inner p)\<rparr> else p)"

definition pm_Disconnect ::
  "'s get_uptime \<Rightarrow> 's set_uptime \<Rightarrow> gotime \<Rightarrow> node_id \<Rightarrow> 's pausable \<Rightarrow> 's pausable \<times> uptime_err option" where
  "pm_Disconnect get put now n p0 =
     (let p = p0\<lparr>connectedVdrs := connectedVdrs p0 - {n}\<rparr> in
      if um_IsConnected (inner p) n then
        if pm_IsPaused p n then (p, Some errPausedDisconnect)
        else (case um_Disconnect get put now n (inner p) of (m, e) \<Rightarrow> (p\<lparr>inner := m\<rparr>, e))
      else (p, None))"

definition pm_pause ::
  "'s get_uptime \<Rightarrow> 's set_uptime \<Rightarrow> gotime \<Rightarrow> node_id \<Rightarrow> 's pausable \<Rightarrow> 's pausable \<times> uptime_err option" where
  "pm_pause get put now n p0 =
     (let p = p0\<lparr>pausedVdrs := insert n (pausedVdrs p0)\<rparr> in
      if um_IsConnected (inner p) n
      then (case um_Disconnect get put now n (inner p) of (m, e) \<Rightarrow> (p\<lparr>inner := m\<rparr>, e))
      else (p, None))"

definition pm_resume :: "gotime \<Rightarrow> node_id \<Rightarrow> 's pausable \<Rightarrow> 's pausable" where
  "pm_resume now n p0 =
     (let p = p0\<lparr>pausedVdrs := pausedVdrs p0 - {n}\<rparr> in
      if n \<in> connectedVdrs p \<and> \<not> um_IsConnected (inner p) n
      then p\<lparr>inner := um_Connect now n (inner p)\<rparr> else p)"

text \<open>
  The listener methods log an error. \<open>NewPausableManager\<close> leaves the logger nil, so reaching the log
  call is a nil dereference: \<open>None\<close>.
\<close>

definition pm_OnValidatorAdded ::
  "'s get_uptime \<Rightarrow> 's set_uptime \<Rightarrow> gotime \<Rightarrow> node_id \<Rightarrow> bool \<Rightarrow> 's pausable \<Rightarrow> 's pausable option" where
  "pm_OnValidatorAdded get put now n isActive p =
     (if \<not> isActive then (case pm_pause get put now n p of (p', None) \<Rightarrow> Some p' | (p', Some e) \<Rightarrow> None)
      else Some p)"

definition pm_OnValidatorRemoved :: "gotime \<Rightarrow> node_id \<Rightarrow> 's pausable \<Rightarrow> 's pausable option" where
  "pm_OnValidatorRemoved now n p = (if pm_IsPaused p n then Some (pm_resume now n p) else Some p)"

definition pm_OnValidatorStatusUpdated ::
  "'s get_uptime \<Rightarrow> 's set_uptime \<Rightarrow> gotime \<Rightarrow> node_id \<Rightarrow> bool \<Rightarrow> 's pausable \<Rightarrow> 's pausable option" where
  "pm_OnValidatorStatusUpdated get put now n isActive p =
     (if isActive then Some (pm_resume now n p)
      else case pm_pause get put now n p of (p', None) \<Rightarrow> Some p' | (p', Some e) \<Rightarrow> None)"

text \<open>The methods promoted from the embedded manager.\<close>

definition pm_StartTracking ::
  "'s get_uptime \<Rightarrow> 's set_uptime \<Rightarrow> gotime \<Rightarrow> node_id list \<Rightarrow> 's pausable \<Rightarrow> 's pausable \<times> uptime_err option" where
  "pm_StartTracking get put now ns p =
     (case um_StartTracking get put now ns (inner p) of (m, e) \<Rightarrow> (p\<lparr>inner := m\<rparr>, e))"

definition pm_StopTracking ::
  "'s get_uptime \<Rightarrow> 's set_uptime \<Rightarrow> gotime \<Rightarrow> node_id list \<Rightarrow> 's pausable \<Rightarrow> 's pausable \<times> uptime_err option" where
  "pm_StopTracking get put now ns p =
     (case um_StopTracking get put now ns (inner p) of (m, e) \<Rightarrow> (p\<lparr>inner := m\<rparr>, e))"

subsection \<open>Durations within range\<close>

lemma time_Sub_id: "\<lbrakk>u \<le> t; t - u < 2 ^ 63\<rbrakk> \<Longrightarrow> time_Sub t u = t - u"
  by (simp add: time_Sub_def)

text \<open>A time the state can store: whole seconds, and a Unix time that fits \<open>int64\<close>.\<close>

definition whole :: "gotime \<Rightarrow> bool" where
  "whole t \<longleftrightarrow> second dvd t \<and> - (2 ^ 63) \<le> t div second \<and> t div second < 2 ^ 63"

text \<open>What a validator has been credited never exceeds the time since its start.\<close>

definition credited :: "gotime \<Rightarrow> duration \<times> gotime \<Rightarrow> bool" where
  "credited start dt \<longleftrightarrow> (case dt of (d, t) \<Rightarrow> 0 \<le> d \<and> d \<le> t - start \<and> whole t)"

lemma CalculateUptime_credited:
  assumes get: "get (ustate m) n = Inr (d, t)" and ok: "credited start (d, t)"
    and now: "whole now" "now - start < 2 ^ 63"
  obtains d' t' where "um_CalculateUptime get now m n = Inr (d', t')" "credited start (d', t')"
    "t \<le> t'" "d \<le> d'" "d' - d \<le> t' - t" "t' = t \<or> t' = now"
proof -
  have b: "0 \<le> d" "d \<le> t - start" using ok by (simp_all add: credited_def)
  have add: "dur_add d (time_Sub now u) = d + (now - u)" if "t \<le> u" "u \<le> now" for u
  proof -
    have "now - u < 2 ^ 63" "d + (now - u) < 2 ^ 63" using that b now(2) by linarith+
    moreover have "- (2 ^ 63) \<le> d + (now - u)" using that b(1) by simp
    ultimately show ?thesis using that by (simp add: dur_add_def time_Sub_id wrap64_id)
  qed
  let ?c = "case connections m n of None \<Rightarrow> now | Some t0 \<Rightarrow> max t t0"
  have "um_CalculateUptime get now m n =
      (if now < t then Inr (d, t)
       else if \<not> startedTracking m then Inr (d + (now - t), now)
       else if now < ?c then Inr (d, now) else Inr (d + (now - ?c), now))"
    using add by (auto simp: um_CalculateUptime_def get Let_def max_def split: option.split)
  moreover have "t \<le> ?c \<or> connections m n = None" by (simp split: option.split)
  ultimately show ?thesis
    using that b ok now by (auto simp: credited_def not_less split: if_splits option.splits)
qed

definition accounted :: "'s get_uptime \<Rightarrow> (node_id \<Rightarrow> gotime) \<Rightarrow> 's \<Rightarrow> bool" where
  "accounted get start s \<longleftrightarrow> (\<forall>n dt. get s n = Inr dt \<longrightarrow> credited (start n) dt)"

text \<open>A clock reading that is whole seconds and less than 292 years after every start time.\<close>

definition sane :: "(node_id \<Rightarrow> gotime) \<Rightarrow> gotime \<Rightarrow> bool" where
  "sane start now \<longleftrightarrow> whole now \<and> (\<forall>n. now - start n < 2 ^ 63)"

lemma accountedD: "\<lbrakk>accounted get start s; get s n = Inr dt\<rbrakk> \<Longrightarrow> credited (start n) dt"
  unfolding accounted_def by blast

lemma accountedI: "(\<And>n dt. get s n = Inr dt \<Longrightarrow> credited (start n) dt) \<Longrightarrow> accounted get start s"
  unfolding accounted_def by blast

subsection \<open>The state interface\<close>

text \<open>
  What the manager relies on: setting the uptime of a node the state knows succeeds, is read back,
  and leaves the other nodes alone.
\<close>

locale uptime_state =
  fixes get :: "'s get_uptime" and put :: "'s set_uptime" and inv :: "'s \<Rightarrow> bool"
  assumes put_known: "\<lbrakk>inv s; get s n = Inr dt; whole t'\<rbrakk> \<Longrightarrow> snd (put s n d' t') = None
      \<and> inv (fst (put s n d' t')) \<and> get (fst (put s n d' t')) n = Inr (d', t')"
    and put_other: "\<lbrakk>inv s; k \<noteq> n\<rbrakk> \<Longrightarrow> get (fst (put s n d' t')) k = get s k"
begin

lemma update_known:
  assumes "inv (ustate m)" "accounted get start (ustate m)" "sane start now" and known: "get (ustate m) n = Inr (d, t)"
  obtains m' d' t' where "um_updateUptime get put now n m = (m', None)"
    "inv (ustate m')" "accounted get start (ustate m')" "connections m' = connections m" "startedTracking m' = startedTracking m"
    "get (ustate m') n = Inr (d', t')" "t \<le> t'" "d \<le> d'" "d' - d \<le> t' - t"
    "\<And>k. k \<noteq> n \<Longrightarrow> get (ustate m') k = get (ustate m) k"
    "ustate m' = fst (put (ustate m) n d' t')" "t' = t \<or> t' = now"
proof -
  have cr: "credited (start n) (d, t)" using assms(2) known by (rule accountedD)
  have now: "whole now" "now - start n < 2 ^ 63" using assms(3) by (auto simp: sane_def)
  obtain d' t' where c: "um_CalculateUptime get now m n = Inr (d', t')" "credited (start n) (d', t')"
      "t \<le> t'" "d \<le> d'" "d' - d \<le> t' - t" "t' = t \<or> t' = now"
    using CalculateUptime_credited [where get = get and m = m and n = n, OF known cr now] .
  define s' where "s' = fst (put (ustate m) n d' t')"
  have w: "whole t'" using c(2) by (simp add: credited_def)
  note p = put_known [OF assms(1) known w, of d', folded s'_def]
  have other: "get s' k = get (ustate m) k" if "k \<noteq> n" for k
    using put_other [OF assms(1) that] by (simp add: s'_def)
  have "credited (start k) dt" if "get s' k = Inr dt" for k dt
    using that accountedD [OF assms(2), of k dt] c(2) p other [of k] by (cases "k = n") auto
  then have "accounted get start s'" by (rule accountedI)
  moreover have "um_updateUptime get put now n m = (m\<lparr>ustate := s'\<rparr>, None)"
    using p by (simp add: um_updateUptime_def c(1) s'_def split_def)
  moreover have "ustate (m\<lparr>ustate := s'\<rparr>) = fst (put (ustate m) n d' t')" by (simp add: s'_def)
  ultimately show ?thesis using that [of "m\<lparr>ustate := s'\<rparr>" d' t'] p c other by simp
qed

lemma update_accounted:
  assumes "inv (ustate m)" "accounted get start (ustate m)" "sane start now"
  shows "inv (ustate (fst (um_updateUptime get put now n m)))
    \<and> accounted get start (ustate (fst (um_updateUptime get put now n m)))"
proof (cases "get (ustate m) n")
  case (Inl e)
  with assms show ?thesis by (simp add: um_updateUptime_def um_CalculateUptime_def)
next
  case (Inr dt)
  obtain d t where dt: "dt = (d, t)" by (cases dt)
  from assms Inr [unfolded dt] show ?thesis by (rule update_known) simp
qed

lemma update_all_accounted:
  assumes "inv (ustate m)" "accounted get start (ustate m)" "sane start now"
  shows "inv (ustate (fst (um_update_all get put now ns m)))
    \<and> accounted get start (ustate (fst (um_update_all get put now ns m)))"
  using assms
proof (induction ns arbitrary: m)
  case (Cons n ns)
  obtain m' e where u: "um_updateUptime get put now n m = (m', e)" by fastforce
  then have "inv (ustate m') \<and> accounted get start (ustate m')"
    using update_accounted [OF Cons.prems, of n] by simp
  with Cons.IH [of m'] Cons.prems(3) show ?case by (cases e) (simp_all add: u)
qed simp

lemma manager_accounted:
  assumes "inv (ustate m)" "accounted get start (ustate m)" "sane start now"
  shows "inv (ustate (fst (um_StartTracking get put now ns m)))
      \<and> accounted get start (ustate (fst (um_StartTracking get put now ns m)))"
    and "inv (ustate (fst (um_StopTracking get put now ns m)))
      \<and> accounted get start (ustate (fst (um_StopTracking get put now ns m)))"
    and "inv (ustate (fst (um_Disconnect get put now n m)))
      \<and> accounted get start (ustate (fst (um_Disconnect get put now n m)))"
  using update_all_accounted [OF assms, of ns] update_accounted [OF assms, of n] assms
  by (auto simp: um_StartTracking_def um_StopTracking_def um_Disconnect_def split_def Let_def
      split: option.split)

lemma Disconnect_known:
  assumes "inv (ustate m)" "accounted get start (ustate m)" "sane start now" and known: "get (ustate m) n = Inr dt"
  shows "snd (um_Disconnect get put now n m) = None"
proof -
  obtain d t where dt: "dt = (d, t)" by (cases dt)
  have "snd (um_updateUptime get put now n m) = None"
    using assms(1-3) known [unfolded dt] by (rule update_known) simp
  then show ?thesis by (simp add: um_Disconnect_def split_def Let_def)
qed

end

subsection \<open>Connected and not paused\<close>

definition pm_inv :: "'s pausable \<Rightarrow> bool" where
  "pm_inv p \<longleftrightarrow> dom (connections (inner p)) = connectedVdrs p - pausedVdrs p"

lemma update_connections: "connections (fst (um_updateUptime get put now n m)) = connections m"
  by (simp add: um_updateUptime_def split_def split: sum.split)

lemma update_all_connections: "connections (fst (um_update_all get put now ns m)) = connections m"
proof (induction ns arbitrary: m)
  case (Cons n ns)
  then show ?case
    using update_connections [of get put now n m] by (auto simp: split_def split: option.split prod.split)
qed simp

lemma Disconnect_connections:
  "connections (fst (um_Disconnect get put now n m)) = (connections m)(n := None)"
  by (simp add: um_Disconnect_def split_def Let_def update_connections)

lemma pm_inv_New: "pm_inv (pm_New (um_New s))"
  by (simp add: pm_inv_def pm_New_def um_New_def)

lemma pm_inv_ops:
  assumes "pm_inv p"
  shows "pm_inv (pm_Connect now n p)" "pm_inv (fst (pm_Disconnect get put now n p))"
    "pm_inv (fst (pm_pause get put now n p))" "pm_inv (pm_resume now n p)"
    "pm_inv (fst (pm_StartTracking get put now ns p))" "pm_inv (fst (pm_StopTracking get put now ns p))"
proof -
  have iff: "um_IsConnected (inner p) k \<longleftrightarrow> k \<in> connectedVdrs p \<and> k \<notin> pausedVdrs p" for k
    using assms by (auto simp: pm_inv_def um_IsConnected_def)
  show "pm_inv (pm_Connect now n p)" "pm_inv (pm_resume now n p)"
    using assms by (auto simp: pm_inv_def pm_Connect_def pm_resume_def Let_def iff pm_IsPaused_def um_Connect_def)
  show "pm_inv (fst (pm_Disconnect get put now n p))" "pm_inv (fst (pm_pause get put now n p))"
    using assms Disconnect_connections [of get put now n "inner p"]
    by (auto simp: pm_inv_def pm_Disconnect_def pm_pause_def Let_def iff pm_IsPaused_def split_def)
  show "pm_inv (fst (pm_StartTracking get put now ns p))" "pm_inv (fst (pm_StopTracking get put now ns p))"
    using assms update_all_connections [of get put now ns "inner p"]
    by (auto simp: pm_inv_def pm_StartTracking_def um_StartTracking_def pm_StopTracking_def um_StopTracking_def
        split_def split: option.split prod.split)
qed

end
