(* ===== verification/Database.thy ===== *)
theory Database
  imports Slide_Prelude "HOL-Library.Multiset"
begin

text \<open>
  The remote key-value store of \<open>database/\<close>: the database (\<open>database.go\<close>), its write batch
  (\<open>batch.go\<close>) and its iterator (\<open>iterator.go\<close>). The gRPC client is code outside the
  repository, so its answers are arguments of the operations.
\<close>


subsection \<open>Errors and single-key operations\<close>

datatype rpcdb_Error = ERROR_UNSPECIFIED | ERROR_CLOSED | ERROR_NOT_FOUND

datatype db_err = ErrClosed | ErrRPC nat

fun ErrEnumToError :: "rpcdb_Error \<Rightarrow> db_err option" where
  "ErrEnumToError ERROR_CLOSED = Some ErrClosed"
| "ErrEnumToError ERROR_NOT_FOUND = None"
| "ErrEnumToError ERROR_UNSPECIFIED = None"

text \<open>An answer of the client: a transport error, or a response with its error code.\<close>

type_synonym 'a rpc = "nat + 'a \<times> rpcdb_Error"

definition rpc_result :: "'a \<Rightarrow> 'a rpc \<Rightarrow> 'a \<times> db_err option" where
  "rpc_result zero r = (case r of Inl e \<Rightarrow> (zero, Some (ErrRPC e)) | Inr (v, c) \<Rightarrow> (v, ErrEnumToError c))"

definition db_Has :: "(bytes \<Rightarrow> bool rpc) \<Rightarrow> bytes \<Rightarrow> bool \<times> db_err option" where
  "db_Has client key = rpc_result False (client key)"

definition db_Get :: "(bytes \<Rightarrow> bytes rpc) \<Rightarrow> bytes \<Rightarrow> bytes \<times> db_err option" where
  "db_Get client key = rpc_result [] (client key)"

definition db_Set :: "(bytes \<Rightarrow> bytes \<Rightarrow> unit rpc) \<Rightarrow> bytes \<Rightarrow> bytes \<Rightarrow> db_err option" where
  "db_Set client key value = snd (rpc_result () (client key value))"

definition db_Delete :: "(bytes \<Rightarrow> unit rpc) \<Rightarrow> bytes \<Rightarrow> db_err option" where
  "db_Delete client key = snd (rpc_result () (client key))"

text \<open>\<open>Close\<close> sets the flag of the database whatever the client answers.\<close>

definition db_Close :: "unit rpc \<Rightarrow> bool \<Rightarrow> bool \<times> db_err option" where
  "db_Close client closed = (True, snd (rpc_result () client))"

subsection \<open>Write batches\<close>

record BatchOp =
  opKey :: bytes
  opValue :: bytes
  opDelete :: bool

record Batch =
  Ops :: "BatchOp list"
  bsize :: nat

definition NewBatch :: Batch where
  "NewBatch = \<lparr>Ops = [], bsize = 0\<rparr>"

definition batch_Set :: "bytes \<Rightarrow> bytes \<Rightarrow> Batch \<Rightarrow> Batch" where
  "batch_Set k v b = b\<lparr>Ops := Ops b @ [\<lparr>opKey = k, opValue = v, opDelete = False\<rparr>],
     bsize := bsize b + (length k + length v)\<rparr>"

definition batch_Delete :: "bytes \<Rightarrow> Batch \<Rightarrow> Batch" where
  "batch_Delete k b = b\<lparr>Ops := Ops b @ [\<lparr>opKey = k, opValue = [], opDelete = True\<rparr>],
     bsize := bsize b + length k\<rparr>"

text \<open>
  \<open>Write\<close> walks the operations from the last to the first and keeps the first it meets of each key. The
  result is the request: its puts and its deletes.
\<close>

fun request_loop :: "BatchOp list \<Rightarrow> bytes set \<Rightarrow> (bytes \<times> bytes) list \<Rightarrow> bytes list
    \<Rightarrow> (bytes \<times> bytes) list \<times> bytes list" where
  "request_loop [] keySet puts deletes = (puts, deletes)"
| "request_loop (op # ops) keySet puts deletes =
     (if opKey op \<in> keySet then request_loop ops keySet puts deletes
      else if opDelete op then request_loop ops (insert (opKey op) keySet) puts (deletes @ [opKey op])
      else request_loop ops (insert (opKey op) keySet) (puts @ [(opKey op, opValue op)]) deletes)"

definition batch_request :: "Batch \<Rightarrow> (bytes \<times> bytes) list \<times> bytes list" where
  "batch_request b = request_loop (rev (Ops b)) {} [] []"

definition batch_Write :: "((bytes \<times> bytes) list \<times> bytes list \<Rightarrow> unit rpc) \<Rightarrow> Batch \<Rightarrow> db_err option" where
  "batch_Write client b = snd (rpc_result () (client (batch_request b)))"

subsection \<open>Iterators\<close>

text \<open>
  The goroutine \<open>fetch\<close> sends the server's non-empty answers, in order, on an unbuffered channel and
  closes it at the end: the field \<open>pending\<close> holds what a receive will still get, and a receive from
  the closed channel yields nil. \<open>dbClosed\<close> is the flag of the database.
\<close>

record Iterator =
  it_data :: "(bytes \<times> bytes) list"
  pending :: "(bytes \<times> bytes) list list"
  it_err :: "db_err option"
  dbClosed :: bool

definition db_Iterator :: "bool \<Rightarrow> (bytes \<times> bytes) list list \<Rightarrow> Iterator" where
  "db_Iterator isClosed answers = \<lparr>it_data = [], pending = takeWhile (\<lambda>a. a \<noteq> []) answers,
     it_err = None, dbClosed = isClosed\<rparr>"

definition iter_setError :: "db_err \<Rightarrow> Iterator \<Rightarrow> Iterator" where
  "iter_setError e it = (if it_err it = None then it\<lparr>it_err := Some e\<rparr> else it)"

definition iter_Key :: "Iterator \<Rightarrow> bytes" where
  "iter_Key it = (case it_data it of [] \<Rightarrow> [] | (k, v) # _ \<Rightarrow> k)"

definition iter_Value :: "Iterator \<Rightarrow> bytes" where
  "iter_Value it = (case it_data it of [] \<Rightarrow> [] | (k, v) # _ \<Rightarrow> v)"

definition iter_Valid :: "Iterator \<Rightarrow> bool" where
  "iter_Valid it = (it_err it = None \<and> length (iter_Key it) > 0)"

definition iter_Next :: "Iterator \<Rightarrow> Iterator" where
  "iter_Next it0 =
     (let it1 = (if dbClosed it0 then iter_setError ErrClosed (it0\<lparr>it_data := []\<rparr>) else it0);
          it2 = (if length (it_data it1) > 1 then it1\<lparr>it_data := tl (it_data it1)\<rparr> else it1)
      in case pending it2 of
           [] \<Rightarrow> it2\<lparr>it_data := []\<rparr>
         | b # bs \<Rightarrow> it2\<lparr>it_data := b, pending := bs\<rparr>)"

text \<open>
  The loop \<open>for ; it.Valid(); it.Next()\<close>, as a client writes it over the \<open>dbm.Iterator\<close> interface, with
  the entries it visits. A \<open>Next\<close> consumes an answer or exhausts the iterator, so \<open>length (pending it) + 2\<close>
  rounds are enough; the loop is also given with that bound.
\<close>

fun iter_entries :: "nat \<Rightarrow> Iterator \<Rightarrow> (bytes \<times> bytes) list" where
  "iter_entries 0 it = []"
| "iter_entries (Suc n) it =
     (if iter_Valid it then (iter_Key it, iter_Value it) # iter_entries n (iter_Next it) else [])"

definition iter_loop :: "Iterator \<Rightarrow> (bytes \<times> bytes) list" where
  "iter_loop it = iter_entries (length (pending it) + 2) it"

subsection \<open>A batch means its operations in order\<close>

type_synonym kvstore = "bytes \<rightharpoonup> bytes"

definition apply_op :: "kvstore \<Rightarrow> BatchOp \<Rightarrow> kvstore" where
  "apply_op db op = db(opKey op := (if opDelete op then None else Some (opValue op)))"

definition req_ops :: "(bytes \<times> bytes) list \<times> bytes list \<Rightarrow> BatchOp list" where
  "req_ops r = map (\<lambda>(k, v). \<lparr>opKey = k, opValue = v, opDelete = False\<rparr>) (fst r)
     @ map (\<lambda>k. \<lparr>opKey = k, opValue = [], opDelete = True\<rparr>) (snd r)"

lemma apply_op_other: "k \<notin> opKey ` set ops \<Longrightarrow> foldl apply_op db ops k = db k"
  by (induction ops arbitrary: db) (auto simp: apply_op_def)

lemma apply_ops_member:
  assumes "distinct (map opKey ops)" "op \<in> set ops"
  shows "foldl apply_op db ops (opKey op) = (if opDelete op then None else Some (opValue op))"
  using assms
proof (induction ops arbitrary: db)
  case (Cons a ops)
  show ?case
  proof (cases "op = a")
    case True
    with Cons.prems show ?thesis by (simp add: apply_op_other) (simp add: apply_op_def)
  next
    case False
    with Cons show ?thesis by simp
  qed
qed simp

lemma apply_ops_cong:
  assumes "distinct (map opKey ops)" "mset qs = mset ops"
  shows "foldl apply_op db qs = foldl apply_op db ops"
proof
  fix k
  have s: "set qs = set ops" using assms(2) by (metis set_mset_mset)
  have "mset (map opKey qs) = mset (map opKey ops)" using assms(2) by simp
  then have d: "distinct (map opKey qs)" using assms(1) by (metis mset_eq_imp_distinct_iff)
  show "foldl apply_op db qs k = foldl apply_op db ops k"
  proof (cases "k \<in> opKey ` set ops")
    case True
    then obtain op where "op \<in> set ops" "k = opKey op" by auto
    then show ?thesis using apply_ops_member [OF assms(1)] apply_ops_member [OF d] s by simp
  next
    case False
    then show ?thesis using s by (simp add: apply_op_other)
  qed
qed

definition effect :: "BatchOp \<Rightarrow> bytes option" where
  "effect op = (if opDelete op then None else Some (opValue op))"

definition last_op :: "bytes \<Rightarrow> BatchOp list \<Rightarrow> BatchOp option" where
  "last_op k rops = find (\<lambda>op. opKey op = k) rops"

lemma apply_ops_last:
  "foldl apply_op db ops k = (case last_op k (rev ops) of None \<Rightarrow> db k | Some op \<Rightarrow> effect op)"
  by (induction ops rule: rev_induct) (auto simp: last_op_def apply_op_def effect_def)

lemma request_loop_acc:
  "request_loop ops ks p d =
    (p @ fst (request_loop ops ks [] []), d @ snd (request_loop ops ks [] []))"
proof (induction ops arbitrary: ks p d)
  case (Cons op ops)
  show ?case
    using Cons [of "insert (opKey op) ks" "p @ [(opKey op, opValue op)]" d]
      Cons [of "insert (opKey op) ks" p "d @ [opKey op]"]
      Cons [of "insert (opKey op) ks" "[(opKey op, opValue op)]" "[]"]
      Cons [of "insert (opKey op) ks" "[]" "[opKey op]"] Cons [of ks p d]
    by simp
qed simp

definition req :: "BatchOp list \<Rightarrow> bytes set \<Rightarrow> BatchOp list" where
  "req ops ks = req_ops (request_loop ops ks [] [])"

lemma mset_req_Cons:
  "mset (req (op # ops) ks) =
    (if opKey op \<in> ks then mset (req ops ks)
     else add_mset (if opDelete op then \<lparr>opKey = opKey op, opValue = [], opDelete = True\<rparr>
                    else \<lparr>opKey = opKey op, opValue = opValue op, opDelete = False\<rparr>)
            (mset (req ops (insert (opKey op) ks))))"
  using request_loop_acc [of ops "insert (opKey op) ks" "[(opKey op, opValue op)]" "[]"]
    request_loop_acc [of ops "insert (opKey op) ks" "[]" "[opKey op]"]
  by (simp add: req_def req_ops_def)

lemma req_keys: "image_mset opKey (mset (req ops ks)) = mset_set (opKey ` set ops - ks)"
proof (induction ops arbitrary: ks)
  case Nil
  then show ?case by (simp add: req_def req_ops_def)
next
  case (Cons op ops)
  have "insert (opKey op) (opKey ` set ops) - ks =
      (if opKey op \<in> ks then opKey ` set ops - ks
       else insert (opKey op) (opKey ` set ops - insert (opKey op) ks))"
    by auto
  then show ?case using Cons by (simp add: mset_req_Cons)
qed

lemma req_keys_set: "opKey ` set (req ops ks) = opKey ` set ops - ks"
  using arg_cong [OF req_keys [of ops ks], of set_mset] by simp

lemma req_keys_distinct: "distinct (map opKey (req ops ks))"
proof -
  have "mset (map opKey (req ops ks)) = mset_set (opKey ` set ops - ks)" by (simp add: req_keys)
  then have "card (set (map opKey (req ops ks))) = length (map opKey (req ops ks))"
    by (metis finite_Diff finite_imageI List.finite_set finite_set_mset_mset_set set_mset_mset size_mset size_mset_set)
  then show ?thesis by (rule card_distinct)
qed

lemma req_effect:
  assumes "last_op k ops = Some op" "k \<notin> ks"
  shows "\<exists>q\<in>#mset (req ops ks). opKey q = k \<and> effect q = effect op"
  using assms
proof (induction ops arbitrary: ks)
  case (Cons a ops)
  show ?case
  proof (cases "opKey a = k")
    case True
    with Cons.prems have "a = op" by (simp add: last_op_def)
    with True Cons.prems(2) show ?thesis unfolding mset_req_Cons by (auto simp: effect_def)
  next
    case False
    with Cons.prems have "last_op k ops = Some op" by (simp add: last_op_def)
    with Cons.IH [of ks] Cons.IH [of "insert (opKey a) ks"] Cons.prems(2) False show ?thesis
      unfolding mset_req_Cons by (auto split: if_splits)
  qed
qed (simp add: last_op_def)

lemma req_sound: "foldl apply_op db (req (rev ops) {}) = foldl apply_op db ops"
proof
  fix k
  let ?r = "req (rev ops) {}"
  note d = req_keys_distinct [of "rev ops" "{}"] and keys = req_keys_set [of "rev ops" "{}"]
  show "foldl apply_op db ?r k = foldl apply_op db ops k"
  proof (cases "last_op k (rev ops)")
    case None
    then have "k \<notin> opKey ` set ops" by (auto simp: last_op_def find_None_iff)
    then show ?thesis using keys by (simp add: apply_op_other)
  next
    case (Some op)
    from req_effect [OF this, of "{}"] obtain q where "q \<in> set ?r" "opKey q = k" "effect q = effect op" by auto
    then show ?thesis
      using apply_ops_member [OF d] Some by (fastforce simp: apply_ops_last [of db ops] effect_def)
  qed
qed

text \<open>
  C27. The request that \<open>Batch.Write\<close> sends names every key at most once, and applying its puts and
  deletes in any order has the effect of the batch's operations in the order they were added:
  the last operation on each key wins.
\<close>

theorem batch_write_last_wins:
  assumes "mset qs = mset (req_ops (batch_request b))"
  shows "distinct (map opKey qs) \<and> foldl apply_op db qs = foldl apply_op db (Ops b)"
proof -
  let ?r = "req (rev (Ops b)) {}"
  have r: "req_ops (batch_request b) = ?r" by (simp add: batch_request_def req_def)
  have d: "distinct (map opKey ?r)" using req_keys_distinct by simp
  have "mset (map opKey qs) = mset (map opKey ?r)" using assms r by simp
  then have "distinct (map opKey qs)" using d by (metis mset_eq_imp_distinct_iff)
  then show ?thesis using apply_ops_cong [OF d, of qs db] req_sound [of db "Ops b"] assms r by simp
qed

theorem batch_write_last_wins_witness:
  fixes b :: Batch
  defines "b \<equiv> batch_Set [1] [9] (batch_Delete [1] (batch_Set [2] [7] (batch_Set [1] [5] NewBatch)))"
  shows "batch_request b = ([([1], [9]), ([2], [7])], [])
    \<and> foldl apply_op Map.empty (rev (req_ops (batch_request b))) = [[1] \<mapsto> [9], [2] \<mapsto> [7]]"
proof -
  have r: "batch_request b = ([([1], [9]), ([2], [7])], [])"
    by (simp add: b_def batch_request_def batch_Set_def batch_Delete_def NewBatch_def)
  have "foldl apply_op Map.empty (rev (req_ops (batch_request b))) = foldl apply_op Map.empty (Ops b)"
    using batch_write_last_wins [of "rev (req_ops (batch_request b))" b] by simp
  also have "\<dots> = [[1] \<mapsto> [9], [2] \<mapsto> [7]]"
    by (auto simp: b_def batch_Set_def batch_Delete_def NewBatch_def apply_op_def)
  finally show ?thesis using r by simp
qed

subsection \<open>What iteration visits\<close>

lemma iter_entries_heads:
  assumes "\<forall>a\<in>set (d # ps). a \<noteq> [] \<and> fst (hd a) \<noteq> []" "length ps < n"
  shows "iter_entries n \<lparr>it_data = d, pending = ps, it_err = None, dbClosed = False\<rparr> = map hd (d # ps)"
  using assms
proof (induction ps arbitrary: d n)
  case Nil
  then obtain n' where n: "n = Suc n'" by (cases n) auto
  have "iter_Next \<lparr>it_data = d, pending = [], it_err = None, dbClosed = False\<rparr>
      = \<lparr>it_data = [], pending = [], it_err = None, dbClosed = False\<rparr>"
    by (simp add: iter_Next_def Let_def)
  then show ?case
    using Nil n by (cases d; cases n') (auto simp: iter_Valid_def iter_Key_def iter_Value_def)
next
  case (Cons p ps)
  then obtain n' where n: "n = Suc n'" "length ps < n'" by (cases n) auto
  have "iter_Next \<lparr>it_data = d, pending = p # ps, it_err = None, dbClosed = False\<rparr>
      = \<lparr>it_data = p, pending = ps, it_err = None, dbClosed = False\<rparr>"
    by (simp add: iter_Next_def Let_def)
  then show ?case
    using Cons.IH [of p n'] Cons.prems n by (cases d) (auto simp: iter_Valid_def iter_Key_def iter_Value_def)
qed

lemma iter_Next_pending: "pending (iter_Next it) = tl (pending it)"
  by (auto simp: iter_Next_def iter_setError_def Let_def split: list.split)

lemma iter_Next_exhausted: "pending it = [] \<Longrightarrow> \<not> iter_Valid (iter_Next it)"
  by (auto simp: iter_Next_def iter_setError_def iter_Valid_def iter_Key_def Let_def)

lemma iter_loop_bound: "length (pending it) + 2 \<le> n \<Longrightarrow> iter_entries n it = iter_loop it"
  unfolding iter_loop_def
proof (induction "length (pending it)" arbitrary: it n)
  case 0
  then obtain m where n: "n = Suc (Suc m)" by (metis add_0 le_Suc_ex add_2_eq_Suc)
  from 0 have "\<not> iter_Valid (iter_Next it)" by (simp add: iter_Next_exhausted)
  with 0 n show ?case by simp
next
  case (Suc k)
  then obtain m where n: "n = Suc m" "k + 2 \<le> m" by (cases n) auto
  have k: "k = length (pending (iter_Next it))" using Suc.hyps(2) by (simp add: iter_Next_pending)
  with Suc.hyps(1) [OF k] n have "iter_entries m (iter_Next it) = iter_entries (k + 2) (iter_Next it)" by simp
  with n Suc.hyps(2) [symmetric] show ?case by simp
qed

text \<open>
  C33. A fresh iterator of the database is not positioned: the loop \<open>for ; it.Valid(); it.Next()\<close> that
  clients of \<open>dbm.Iterator\<close> write visits no entry, whatever the database holds. A client that calls \<open>Next\<close>
  first sees only the first entry of each answer of the server; the other entries of the answer are dropped.
\<close>

theorem database_iterator_skips:
  assumes "\<forall>a\<in>set answers. a \<noteq> [] \<and> fst (hd a) \<noteq> []" and "answers \<noteq> []"
  shows "iter_loop (db_Iterator False answers) = []
    \<and> iter_loop (iter_Next (db_Iterator False answers)) = map hd answers"
proof -
  obtain a as where as: "answers = a # as" using assms(2) by (cases answers) auto
  have "takeWhile (\<lambda>a. a \<noteq> []) answers = answers" using assms(1) by (simp add: takeWhile_eq_all_conv)
  then have "iter_Next (db_Iterator False answers) = \<lparr>it_data = a, pending = as, it_err = None, dbClosed = False\<rparr>"
    by (simp add: iter_Next_def db_Iterator_def as)
  moreover have "iter_loop (db_Iterator False answers) = []"
    by (simp add: iter_loop_def db_Iterator_def iter_Valid_def iter_Key_def)
  moreover have "iter_loop \<lparr>it_data = a, pending = as, it_err = None, dbClosed = False\<rparr> = map hd answers"
    unfolding iter_loop_def as by (rule iter_entries_heads) (use assms(1) as in simp_all)
  ultimately show ?thesis by simp
qed

theorem database_iterator_skips_witness:
  "iter_loop (db_Iterator False [[([1], [5]), ([2], [6])]]) = []
   \<and> iter_loop (iter_Next (db_Iterator False [[([1], [5]), ([2], [6])]])) = [([1], [5])]"
  using database_iterator_skips [of "[[([1], [5]), ([2], [6])]]"] by simp

end
