(* ===== verification/Validator_State.thy ===== *)
theory Validator_State
  imports Uptime Database
begin

text \<open>
  The persistent validator state of \<open>utils/evm/validators/state/state.go\<close>. The state calls
  its listeners in the middle of its operations, and the one listener the program registers (the pausable
  uptime manager) reads and writes the same state. Operations that notify therefore act on a
  whole world \<open>'w\<close> that contains the state, given by a record of accessors; a listener call may panic (\<open>None\<close>).

  Pointers to \<open>validatorData\<close> are held only by the map \<open>data\<close>: an object is the entry of its key, and a
  write through a pointer obtained before a listener call goes to the entry if it still exists.
\<close>

record validatorData =
  UpDuration :: duration
  LastUpdated :: uint64
  vdNodeID :: node_id
  vdWeight :: uint64
  vdStartTime :: uint64
  vdIsActive :: bool
  vdIsL1Validator :: bool
  validationID :: ids_id

record vdr_info =
  viValidationID :: ids_id
  viNodeID :: node_id
  viWeight :: uint64
  viStartTimestamp :: uint64
  viIsActive :: bool
  viIsL1Validator :: bool

datatype state_event =
    EvValidatorAdded ids_id node_id uint64 bool
  | EvValidatorRemoved ids_id node_id
  | EvValidatorStatusUpdated ids_id node_id bool

datatype vstate_err = VErrNotFound | ErrAlreadyExists | ErrImmutableField | ErrBadID | ErrMarshalNil
  | ErrCodec nat | ErrDB db_err

record vstate =
  vdata :: "ids_id \<rightharpoonup> validatorData"
  nindex :: "node_id \<rightharpoonup> ids_id"
  updatedData :: "ids_id \<rightharpoonup> bool"
  vdb :: kvstore
  slisteners :: "nat list"

record 'w venv =
  vget :: "'w \<Rightarrow> vstate"
  vupd :: "(vstate \<Rightarrow> vstate) \<Rightarrow> 'w \<Rightarrow> 'w"
  vcall :: "nat \<Rightarrow> state_event \<Rightarrow> 'w \<Rightarrow> 'w option"

fun notify_listeners :: "'w venv \<Rightarrow> state_event \<Rightarrow> nat list \<Rightarrow> 'w \<Rightarrow> 'w option" where
  "notify_listeners E ev [] w = Some w"
| "notify_listeners E ev (l # ls) w =
     (case vcall E l ev w of None \<Rightarrow> None | Some w' \<Rightarrow> notify_listeners E ev ls w')"

definition notify_all :: "'w venv \<Rightarrow> state_event \<Rightarrow> 'w \<Rightarrow> 'w option" where
  "notify_all E ev w = notify_listeners E ev (slisteners (vget E w)) w"

subsection \<open>Uptime of a validator\<close>

definition getLastUpdated :: "validatorData \<Rightarrow> gotime" where
  "getLastUpdated d = sint (LastUpdated d) * second"

definition setLastUpdated :: "gotime \<Rightarrow> validatorData \<Rightarrow> validatorData" where
  "setLastUpdated t d = d\<lparr>LastUpdated := of_int (t div second)\<rparr>"

definition getStartTime :: "validatorData \<Rightarrow> gotime" where
  "getStartTime d = sint (vdStartTime d) * second"

definition getData :: "vstate \<Rightarrow> node_id \<Rightarrow> (uptime_err, ids_id \<times> validatorData) go_result" where
  "getData s n =
     (case nindex s n of
        None \<Rightarrow> Inl DbErrNotFound
      | Some vID \<Rightarrow> (case vdata s vID of None \<Rightarrow> Inl DbErrNotFound | Some d \<Rightarrow> Inr (vID, d)))"

definition st_GetUptime :: "vstate \<Rightarrow> node_id \<Rightarrow> (uptime_err, duration \<times> gotime) go_result" where
  "st_GetUptime s n =
     (case getData s n of Inl e \<Rightarrow> Inl e | Inr (vID, d) \<Rightarrow> Inr (UpDuration d, getLastUpdated d))"

definition st_SetUptime :: "vstate \<Rightarrow> node_id \<Rightarrow> duration \<Rightarrow> gotime \<Rightarrow> vstate \<times> uptime_err option" where
  "st_SetUptime s n up t =
     (case getData s n of
        Inl e \<Rightarrow> (s, Some e)
      | Inr (vID, d) \<Rightarrow>
          (s\<lparr>vdata := (vdata s)(vID \<mapsto> setLastUpdated t (d\<lparr>UpDuration := up\<rparr>)),
             updatedData := (updatedData s)(validationID d \<mapsto> True)\<rparr>, None))"

definition st_GetStartTime :: "vstate \<Rightarrow> node_id \<Rightarrow> (uptime_err, gotime) go_result" where
  "st_GetStartTime s n = (case getData s n of Inl e \<Rightarrow> Inl e | Inr (vID, d) \<Rightarrow> Inr (getStartTime d))"

subsection \<open>Changing the validators\<close>

definition addData :: "ids_id \<Rightarrow> validatorData \<Rightarrow> vstate \<Rightarrow> (vstate_err, vstate) go_result" where
  "addData vID d s =
     (if vdata s vID \<noteq> None then Inl ErrAlreadyExists
      else if nindex s (vdNodeID d) \<noteq> None then Inl ErrAlreadyExists
      else Inr (s\<lparr>vdata := (vdata s)(vID \<mapsto> d), nindex := (nindex s)(vdNodeID d \<mapsto> vID)\<rparr>))"

definition mark :: "bool \<Rightarrow> ids_id \<Rightarrow> vstate \<Rightarrow> vstate" where
  "mark status vID s = s\<lparr>updatedData := (updatedData s)(vID \<mapsto> status)\<rparr>"

definition mutate :: "ids_id \<Rightarrow> (validatorData \<Rightarrow> validatorData) \<Rightarrow> vstate \<Rightarrow> vstate" where
  "mutate vID f s = (case vdata s vID of None \<Rightarrow> s | Some d \<Rightarrow> s\<lparr>vdata := (vdata s)(vID \<mapsto> f d)\<rparr>)"

definition new_data :: "vdr_info \<Rightarrow> validatorData" where
  "new_data vdr = \<lparr>UpDuration = 0, LastUpdated = viStartTimestamp vdr, vdNodeID = viNodeID vdr,
     vdWeight = viWeight vdr, vdStartTime = viStartTimestamp vdr, vdIsActive = viIsActive vdr,
     vdIsL1Validator = viIsL1Validator vdr, validationID = viValidationID vdr\<rparr>"

type_synonym 'w st_result = "('w \<times> vstate_err option) option"

definition st_AddValidator :: "'w venv \<Rightarrow> vdr_info \<Rightarrow> 'w \<Rightarrow> 'w st_result" where
  "st_AddValidator E vdr w =
     (case addData (viValidationID vdr) (new_data vdr) (vget E w) of
        Inl e \<Rightarrow> Some (w, Some e)
      | Inr s \<Rightarrow>
          map_option (\<lambda>w'. (w', None))
            (notify_all E (EvValidatorAdded (viValidationID vdr) (viNodeID vdr) (viStartTimestamp vdr) (viIsActive vdr))
               (vupd E (\<lambda>_. mark True (viValidationID vdr) s) w)))"

definition constantsAreUnmodified :: "validatorData \<Rightarrow> vdr_info \<Rightarrow> bool" where
  "constantsAreUnmodified v u = (validationID v = viValidationID u \<and> vdNodeID v = viNodeID u
     \<and> vdIsL1Validator v = viIsL1Validator u \<and> vdStartTime v = viStartTimestamp u)"

definition st_UpdateValidator :: "'w venv \<Rightarrow> vdr_info \<Rightarrow> 'w \<Rightarrow> 'w st_result" where
  "st_UpdateValidator E vdr w =
     (let vID = viValidationID vdr in
      case vdata (vget E w) vID of
        None \<Rightarrow> Some (w, Some VErrNotFound)
      | Some d \<Rightarrow>
          if \<not> constantsAreUnmodified d vdr then Some (w, Some ErrImmutableField)
          else
            let changed = (vdIsActive d \<noteq> viIsActive vdr);
                r = (if changed
                     then notify_all E (EvValidatorStatusUpdated (validationID d) (vdNodeID d) (viIsActive vdr))
                            (vupd E (mutate vID (\<lambda>d. d\<lparr>vdIsActive := viIsActive vdr\<rparr>)) w)
                     else Some w)
            in case r of
                 None \<Rightarrow> None
               | Some w1 \<Rightarrow>
                   let d1 = (case vdata (vget E w1) vID of None \<Rightarrow> d | Some d1 \<Rightarrow> d1);
                       reweigh = (vdWeight d1 \<noteq> viWeight vdr);
                       w2 = (if reweigh then vupd E (mutate vID (\<lambda>d. d\<lparr>vdWeight := viWeight vdr\<rparr>)) w1 else w1)
                   in Some (if changed \<or> reweigh then vupd E (mark True vID) w2 else w2, None))"

definition st_DeleteValidator :: "'w venv \<Rightarrow> ids_id \<Rightarrow> 'w \<Rightarrow> 'w st_result" where
  "st_DeleteValidator E vID w =
     (case vdata (vget E w) vID of
        None \<Rightarrow> Some (w, Some VErrNotFound)
      | Some d \<Rightarrow>
          map_option (\<lambda>w'. (w', None))
            (notify_all E (EvValidatorRemoved vID (vdNodeID d))
               (vupd E (\<lambda>s. mark False (validationID d)
                  (s\<lparr>vdata := (vdata s)(validationID d := None), nindex := (nindex s)(vdNodeID d := None)\<rparr>)) w)))"

definition st_SetStatus :: "'w venv \<Rightarrow> ids_id \<Rightarrow> bool \<Rightarrow> 'w \<Rightarrow> 'w st_result" where
  "st_SetStatus E vID isActive w =
     (case vdata (vget E w) vID of
        None \<Rightarrow> Some (w, Some VErrNotFound)
      | Some d \<Rightarrow>
          map_option (\<lambda>w'. (w', None))
            (notify_all E (EvValidatorStatusUpdated vID (vdNodeID d) isActive)
               (vupd E (\<lambda>s. mark True vID (mutate vID (\<lambda>d. d\<lparr>vdIsActive := isActive\<rparr>) s)) w)))"

definition st_GetValidator :: "vstate \<Rightarrow> ids_id \<Rightarrow> (vstate_err, vdr_info) go_result" where
  "st_GetValidator s vID =
     (case vdata s vID of
        None \<Rightarrow> Inl VErrNotFound
      | Some d \<Rightarrow> Inr \<lparr>viValidationID = validationID d, viNodeID = vdNodeID d, viWeight = vdWeight d,
          viStartTimestamp = vdStartTime d, viIsActive = vdIsActive d, viIsL1Validator = vdIsL1Validator d\<rparr>)"

definition st_GetValidationID :: "vstate \<Rightarrow> node_id \<Rightarrow> (vstate_err, ids_id) go_result" where
  "st_GetValidationID s n = (case nindex s n of None \<Rightarrow> Inl VErrNotFound | Some vID \<Rightarrow> Inr vID)"

definition st_GetValidationIDs :: "vstate \<Rightarrow> ids_id set" where
  "st_GetValidationIDs s = dom (vdata s)"

definition st_GetNodeIDs :: "vstate \<Rightarrow> node_id set" where
  "st_GetNodeIDs s = dom (nindex s)"

text \<open>\<open>order\<close> is the order in which \<open>range\<close> visits the validators.\<close>

fun replay_to :: "'w venv \<Rightarrow> nat \<Rightarrow> ids_id list \<Rightarrow> 'w \<Rightarrow> 'w option" where
  "replay_to E l [] w = Some w"
| "replay_to E l (vID # order) w =
     (case vdata (vget E w) vID of
        None \<Rightarrow> replay_to E l order w
      | Some d \<Rightarrow>
          (case vcall E l (EvValidatorAdded vID (vdNodeID d) (vdStartTime d) (vdIsActive d)) w of
             None \<Rightarrow> None
           | Some w' \<Rightarrow> replay_to E l order w'))"

definition st_RegisterListener :: "'w venv \<Rightarrow> ids_id list \<Rightarrow> nat \<Rightarrow> 'w \<Rightarrow> 'w option" where
  "st_RegisterListener E order l w =
     replay_to E l order (vupd E (\<lambda>s. s\<lparr>slisteners := slisteners s @ [l]\<rparr>) w)"

subsection \<open>Disk\<close>

text \<open>
  \<open>marshal\<close> and \<open>unmarshal\<close> are the codec \<open>vdrCodec\<close>; \<open>write\<close> is the store's answer to a batch, which
  it applies when it reports no error. \<open>order\<close> is the order in which \<open>range\<close> visits \<open>updatedData\<close>.
\<close>

type_synonym marshaller = "validatorData \<Rightarrow> (nat, bytes) go_result"
type_synonym unmarshaller = "bytes \<Rightarrow> validatorData \<Rightarrow> (nat, validatorData) go_result"

fun write_loop :: "marshaller \<Rightarrow> ids_id list \<Rightarrow> vstate \<Rightarrow> Batch \<Rightarrow> vstate \<times> (vstate_err, Batch) go_result" where
  "write_loop marshal [] s b = (s, Inr b)"
| "write_loop marshal (vID # order) s b =
     (let clear = s\<lparr>updatedData := (updatedData s)(vID := None)\<rparr> in
      case updatedData s vID of
        None \<Rightarrow> write_loop marshal order s b
      | Some True \<Rightarrow>
          (case vdata s vID of
             None \<Rightarrow> (s, Inl ErrMarshalNil)
           | Some d \<Rightarrow>
               (case marshal d of
                  Inl e \<Rightarrow> (s, Inl (ErrCodec e))
                | Inr bs \<Rightarrow> write_loop marshal order clear (batch_Set vID bs b)))
      | Some False \<Rightarrow> write_loop marshal order clear (batch_Delete vID b))"

definition st_WriteState ::
  "marshaller \<Rightarrow> (Batch \<Rightarrow> db_err option) \<Rightarrow> ids_id list \<Rightarrow> vstate \<Rightarrow> vstate \<times> vstate_err option" where
  "st_WriteState marshal write order s =
     (case write_loop marshal order s NewBatch of
        (s', Inl e) \<Rightarrow> (s', Some e)
      | (s', Inr b) \<Rightarrow>
          (case write b of
             Some e \<Rightarrow> (s', Some (ErrDB e))
           | None \<Rightarrow> (s'\<lparr>vdb := foldl apply_op (vdb s') (Ops b)\<rparr>, None)))"

definition zero_data :: "ids_id \<Rightarrow> validatorData" where
  "zero_data vID = \<lparr>UpDuration = 0, LastUpdated = 0, vdNodeID = replicate 20 0, vdWeight = 0,
     vdStartTime = 0, vdIsActive = False, vdIsL1Validator = False, validationID = vID\<rparr>"

definition parseValidatorData :: "unmarshaller \<Rightarrow> bytes \<Rightarrow> validatorData \<Rightarrow> (nat, validatorData) go_result" where
  "parseValidatorData unmarshal bs d = (if length bs \<noteq> 0 then unmarshal bs d else Inr d)"

fun loadFromDisk :: "unmarshaller \<Rightarrow> (bytes \<times> bytes) list \<Rightarrow> vstate \<Rightarrow> (vstate_err, vstate) go_result" where
  "loadFromDisk unmarshal [] s = Inr s"
| "loadFromDisk unmarshal ((k, v) # kvs) s =
     (case ToID k of
        None \<Rightarrow> Inl ErrBadID
      | Some vID \<Rightarrow>
          (case parseValidatorData unmarshal v (zero_data vID) of
             Inl e \<Rightarrow> Inl (ErrCodec e)
           | Inr d \<Rightarrow>
               (case addData vID d s of
                  Inl e \<Rightarrow> Inl e
                | Inr s' \<Rightarrow> loadFromDisk unmarshal kvs s')))"

text \<open>\<open>NewState\<close> over a store whose iteration visits \<open>entries\<close>.\<close>

definition NewState :: "unmarshaller \<Rightarrow> kvstore \<Rightarrow> (bytes \<times> bytes) list \<Rightarrow> (vstate_err, vstate) go_result" where
  "NewState unmarshal db entries =
     loadFromDisk unmarshal entries \<lparr>vdata = Map.empty, nindex = Map.empty, updatedData = Map.empty,
       vdb = db, slisteners = []\<rparr>"

subsection \<open>Invariants\<close>

definition wf_data :: "validatorData \<Rightarrow> bool" where
  "wf_data d \<longleftrightarrow> length (vdNodeID d) = 20 \<and> length (validationID d) = 32 \<and> - (2 ^ 63) \<le> UpDuration d \<and> UpDuration d < 2 ^ 63"

text \<open>The two maps index the same validators, one per node, under well-formed keys.\<close>

definition v_inv :: "vstate \<Rightarrow> bool" where
  "v_inv s \<longleftrightarrow> (\<forall>n vID. nindex s n = Some vID \<longleftrightarrow> (\<exists>d. vdata s vID = Some d \<and> vdNodeID d = n))
     \<and> (\<forall>vID d. vdata s vID = Some d \<longrightarrow> validationID d = vID)"

text \<open>Every key whose stored bytes are out of date is marked, and marked the right way.\<close>

definition enc :: "marshaller \<Rightarrow> validatorData \<Rightarrow> bytes" where
  "enc marshal d = (case marshal d of Inl e \<Rightarrow> [] | Inr bs \<Rightarrow> bs)"

definition tracked :: "marshaller \<Rightarrow> vstate \<Rightarrow> bool" where
  "tracked marshal s \<longleftrightarrow> (\<forall>vID. case updatedData s vID of
     None \<Rightarrow> vdb s vID = map_option (enc marshal) (vdata s vID)
   | Some live \<Rightarrow> live \<longleftrightarrow> vdata s vID \<noteq> None)"

text \<open>What the state relies on from its codec.\<close>

definition codec_ok :: "marshaller \<Rightarrow> unmarshaller \<Rightarrow> bool" where
  "codec_ok marshal unmarshal \<longleftrightarrow> (\<forall>d vID. wf_data d \<longrightarrow> length vID = 32 \<longrightarrow>
     (\<exists>bs. marshal d = Inr bs \<and> bs \<noteq> [] \<and> unmarshal bs (zero_data vID) = Inr (d\<lparr>validationID := vID\<rparr>)))"

lemma getData_iff:
  assumes "v_inv s"
  shows "getData s n = Inr (vID, d) \<longleftrightarrow> vdata s vID = Some d \<and> vdNodeID d = n"
proof
  assume "getData s n = Inr (vID, d)"
  then have "nindex s n = Some vID" "vdata s vID = Some d" by (auto simp: getData_def split: option.splits)
  then show "vdata s vID = Some d \<and> vdNodeID d = n" using assms unfolding v_inv_def by (metis option.inject)
next
  assume h: "vdata s vID = Some d \<and> vdNodeID d = n"
  then have "nindex s n = Some vID" using assms unfolding v_inv_def by blast
  with h show "getData s n = Inr (vID, d)" by (simp add: getData_def)
qed

lemma v_inv_unique:
  "\<lbrakk>v_inv s; vdata s a = Some d; vdata s b = Some e; vdNodeID d = vdNodeID e\<rbrakk> \<Longrightarrow> a = b"
  unfolding v_inv_def by (metis option.inject)

text \<open>A change of fields other than the identity of a validator.\<close>

lemma mutate_v_inv:
  assumes "v_inv s" "\<And>d. vdNodeID (f d) = vdNodeID d" "\<And>d. validationID (f d) = validationID d"
  shows "v_inv (mutate vID f s)"
proof (cases "vdata s vID")
  case None
  with assms(1) show ?thesis by (simp add: mutate_def)
next
  case (Some d)
  then show ?thesis
    using assms unfolding v_inv_def mutate_def by (auto split: if_splits)
qed

lemma mark_simps [simp]: "vdata (mark b vID s) = vdata s" "nindex (mark b vID s) = nindex s"
  "vdb (mark b vID s) = vdb s" "slisteners (mark b vID s) = slisteners s"
  "updatedData (mark b vID s) = (updatedData s)(vID \<mapsto> b)"
  by (simp_all add: mark_def)

lemma mark_v_inv [simp]: "v_inv (mark b vID s) = v_inv s"
  by (simp add: v_inv_def)

lemma tracked_change:
  assumes "tracked marshal s" "\<And>k. k \<noteq> vID \<Longrightarrow> vdata s' k = vdata s k" "vdb s' = vdb s"
    "updatedData s' = (updatedData s)(vID \<mapsto> (vdata s' vID \<noteq> None))"
  shows "tracked marshal s'"
  unfolding tracked_def
proof
  fix k
  show "case updatedData s' k of None \<Rightarrow> vdb s' k = map_option (enc marshal) (vdata s' k)
      | Some live \<Rightarrow> live \<longleftrightarrow> vdata s' k \<noteq> None"
    using assms(1) [unfolded tracked_def, rule_format, of k] assms(2) [of k] assms(3,4)
    by (cases "k = vID") (simp_all split: option.splits)
qed

subsection \<open>The validator state provides the uptime interface\<close>

lemma sint_of_int_id: "\<lbrakk>- (2 ^ 63) \<le> x; x < 2 ^ 63\<rbrakk> \<Longrightarrow> sint (of_int x :: uint64) = x"
  by (simp add: int_word_sint)

lemma LastUpdated_roundtrip: "whole t \<Longrightarrow> getLastUpdated (setLastUpdated t d) = t"
  by (simp add: whole_def getLastUpdated_def setLastUpdated_def sint_of_int_id del: of_int_numeral)

lemma setLastUpdated_frame [simp]:
  "vdNodeID (setLastUpdated t d) = vdNodeID d" "validationID (setLastUpdated t d) = validationID d"
  "UpDuration (setLastUpdated t d) = UpDuration d" "vdIsActive (setLastUpdated t d) = vdIsActive d"
  "vdWeight (setLastUpdated t d) = vdWeight d" "vdStartTime (setLastUpdated t d) = vdStartTime d"
  "vdIsL1Validator (setLastUpdated t d) = vdIsL1Validator d"
  by (simp_all add: setLastUpdated_def)

lemma st_GetUptime_Inr:
  assumes "v_inv s"
  shows "st_GetUptime s n = Inr dt \<longleftrightarrow>
    (\<exists>vID d. vdata s vID = Some d \<and> vdNodeID d = n \<and> dt = (UpDuration d, getLastUpdated d))"
proof -
  have "st_GetUptime s n = Inr dt \<longleftrightarrow> (\<exists>vID d. getData s n = Inr (vID, d) \<and> dt = (UpDuration d, getLastUpdated d))"
    by (auto simp: st_GetUptime_def split: sum.split)
  then show ?thesis by (simp add: getData_iff [OF assms])
qed

lemma st_SetUptime_known:
  assumes "v_inv s" "vdata s vID = Some d"
  shows "st_SetUptime s (vdNodeID d) up t =
    (mark True vID (mutate vID (\<lambda>d. setLastUpdated t (d\<lparr>UpDuration := up\<rparr>)) s), None)"
proof -
  have "getData s (vdNodeID d) = Inr (vID, d)" using assms by (simp add: getData_iff)
  moreover have "validationID d = vID" using assms by (simp add: v_inv_def)
  ultimately show ?thesis using assms(2) by (simp add: st_SetUptime_def mutate_def mark_def)
qed

lemma st_SetUptime_unknown: "getData s n = Inl e \<Longrightarrow> st_SetUptime s n up t = (s, Some e)"
  by (simp add: st_SetUptime_def)

lemma getData_cases:
  assumes "v_inv s"
  obtains (known) vID d where "vdata s vID = Some d" "n = vdNodeID d" "getData s n = Inr (vID, d)"
    | (unknown) "getData s n = Inl DbErrNotFound" "\<And>vID d. vdata s vID = Some d \<Longrightarrow> vdNodeID d \<noteq> n"
proof (cases "getData s n")
  case (Inl e)
  then have "e = DbErrNotFound" by (auto simp: getData_def split: option.splits)
  moreover have "vdNodeID d \<noteq> n" if "vdata s vID = Some d" for vID d
    using getData_iff [OF assms, of n vID d] Inl that by auto
  ultimately show ?thesis using unknown Inl by blast
next
  case (Inr r)
  obtain vID d where r: "r = (vID, d)" by (cases r)
  with Inr getData_iff [OF assms, of n vID d] show ?thesis using known by blast
qed

lemma SetUptime_v_inv: "v_inv s \<Longrightarrow> v_inv (fst (st_SetUptime s n up t))"
  by (cases rule: getData_cases [of s n])
    (simp_all add: st_SetUptime_known st_SetUptime_unknown mutate_v_inv)

lemma SetUptime_tracked:
  assumes "v_inv s" "tracked marshal s"
  shows "tracked marshal (fst (st_SetUptime s n up t))"
proof (cases rule: getData_cases [OF assms(1), of n, case_names 1 2])
  case (1 vID d)
  have "tracked marshal (mark True vID (mutate vID (\<lambda>d. setLastUpdated t (d\<lparr>UpDuration := up\<rparr>)) s))"
    by (rule tracked_change [OF assms(2), of vID]) (simp_all add: mutate_def 1(1))
  then show ?thesis using 1 assms(1) by (simp add: st_SetUptime_known)
next
  case 2
  with assms(2) show ?thesis by (simp add: st_SetUptime_unknown)
qed

interpretation vus: uptime_state st_GetUptime st_SetUptime v_inv
proof
  fix s :: vstate and n dt t' d'
  assume inv: "v_inv s" and get: "st_GetUptime s n = Inr dt" and w: "whole t'"
  from inv get obtain vID d where d: "vdata s vID = Some d" "vdNodeID d = n"
    by (auto simp: st_GetUptime_Inr)
  let ?d = "setLastUpdated t' (d\<lparr>UpDuration := d'\<rparr>)"
  have put: "st_SetUptime s n d' t' = (mark True vID (mutate vID (\<lambda>d. setLastUpdated t' (d\<lparr>UpDuration := d'\<rparr>)) s), None)"
    using st_SetUptime_known [OF inv d(1)] d(2) by simp
  have "v_inv (fst (st_SetUptime s n d' t'))" by (rule SetUptime_v_inv [OF inv])
  moreover have "vdata (fst (st_SetUptime s n d' t')) vID = Some ?d" by (simp add: put mutate_def d(1))
  ultimately show "snd (st_SetUptime s n d' t') = None \<and> v_inv (fst (st_SetUptime s n d' t'))
      \<and> st_GetUptime (fst (st_SetUptime s n d' t')) n = Inr (d', t')"
    using d(2) w by (auto simp: st_GetUptime_Inr put LastUpdated_roundtrip intro!: exI [of _ vID])
next
  fix s :: vstate and k n :: node_id and d' t'
  assume inv: "v_inv s" and "k \<noteq> n"
  show "st_GetUptime (fst (st_SetUptime s n d' t')) k = st_GetUptime s k"
  proof (cases rule: getData_cases [OF inv, of n, case_names 1 2])
    case (1 vID d)
    with inv \<open>k \<noteq> n\<close> have "nindex s k \<noteq> Some vID" unfolding v_inv_def by (metis option.inject)
    then show ?thesis
      using 1 inv by (simp add: st_SetUptime_known st_GetUptime_def getData_def mutate_def split: option.split)
  next
    case 2
    then show ?thesis by (simp add: st_SetUptime_unknown)
  qed
qed

subsection \<open>Writing and reloading\<close>

definition write_op :: "marshaller \<Rightarrow> vstate \<Rightarrow> ids_id \<Rightarrow> BatchOp" where
  "write_op marshal s vID = (case vdata s vID of
     None \<Rightarrow> \<lparr>opKey = vID, opValue = [], opDelete = True\<rparr>
   | Some d \<Rightarrow> \<lparr>opKey = vID, opValue = enc marshal d, opDelete = False\<rparr>)"

definition all_wf :: "vstate \<Rightarrow> bool" where
  "all_wf s \<longleftrightarrow> (\<forall>vID d. vdata s vID = Some d \<longrightarrow> wf_data d)"

definition marks_right :: "vstate \<Rightarrow> bool" where
  "marks_right s \<longleftrightarrow> (\<forall>vID live. updatedData s vID = Some live \<longrightarrow> (live \<longleftrightarrow> vdata s vID \<noteq> None))"

lemma write_loop_ok:
  assumes "codec_ok marshal unmarshal" "all_wf s" "marks_right s" "distinct order" "set order \<subseteq> dom (updatedData s)"
  shows "\<exists>b'. write_loop marshal order s b = (s\<lparr>updatedData := updatedData s |` (- set order)\<rparr>, Inr b')
    \<and> Ops b' = Ops b @ map (write_op marshal s) order"
  using assms
proof (induction order arbitrary: s b)
  case Nil
  then show ?case by simp
next
  case (Cons vID order)
  let ?s = "s\<lparr>updatedData := (updatedData s)(vID := None)\<rparr>"
  from Cons.prems obtain live where live: "updatedData s vID = Some live" by auto
  with Cons.prems(3) have l: "live \<longleftrightarrow> vdata s vID \<noteq> None" by (simp add: marks_right_def)
  have pre: "all_wf ?s" "marks_right ?s" "distinct order" "set order \<subseteq> dom (updatedData ?s)"
    using Cons.prems(2-5) by (auto simp: all_wf_def marks_right_def)
  have w: "write_op marshal ?s = write_op marshal s" by (simp add: write_op_def fun_eq_iff)
  have r: "(updatedData s)(vID := None) |` (- set order) = updatedData s |` (- set (vID # order))"
    by (auto simp: restrict_map_def)
  show ?case
  proof (cases "vdata s vID")
    case None
    obtain b' where "write_loop marshal order ?s (batch_Delete vID b) = (?s\<lparr>updatedData := updatedData ?s |` (- set order)\<rparr>, Inr b')"
        "Ops b' = Ops (batch_Delete vID b) @ map (write_op marshal ?s) order"
      using Cons.IH [OF Cons.prems(1) pre, of "batch_Delete vID b"] by blast
    then show ?thesis using live l None w r by (simp add: Let_def batch_Delete_def write_op_def)
  next
    case (Some d)
    then have "wf_data d" using Cons.prems(2) by (auto simp: all_wf_def)
    then obtain bs where bs: "marshal d = Inr bs" using Cons.prems(1) by (metis codec_ok_def wf_data_def)
    obtain b' where "write_loop marshal order ?s (batch_Set vID bs b) = (?s\<lparr>updatedData := updatedData ?s |` (- set order)\<rparr>, Inr b')"
        "Ops b' = Ops (batch_Set vID bs b) @ map (write_op marshal ?s) order"
      using Cons.IH [OF Cons.prems(1) pre, of "batch_Set vID bs b"] by blast
    then show ?thesis using live l Some w r bs by (simp add: Let_def batch_Set_def write_op_def enc_def)
  qed
qed

lemma tracked_marks:
  assumes "tracked marshal s"
  shows "marks_right s"
  unfolding marks_right_def
proof (intro allI impI)
  fix vID live
  assume "updatedData s vID = Some live"
  with assms [unfolded tracked_def, rule_format, of vID] show "live \<longleftrightarrow> vdata s vID \<noteq> None" by simp
qed

lemma write_op_key [simp]: "opKey (write_op marshal s vID) = vID"
  by (simp add: write_op_def split: option.split)

lemma write_op_effect:
  "(if opDelete (write_op marshal s vID) then None else Some (opValue (write_op marshal s vID)))
    = map_option (enc marshal) (vdata s vID)"
  by (simp add: write_op_def split: option.split)

lemma WriteState_ok:
  assumes "codec_ok marshal unmarshal" "all_wf s" "tracked marshal s"
    and order: "distinct order" "set order = dom (updatedData s)" and "\<And>b. write b = None"
  shows "st_WriteState marshal write order s =
    (s\<lparr>updatedData := Map.empty, vdb := (\<lambda>vID. map_option (enc marshal) (vdata s vID))\<rparr>, None)"
proof -
  obtain b where b: "write_loop marshal order s NewBatch = (s\<lparr>updatedData := updatedData s |` (- set order)\<rparr>, Inr b)"
      "Ops b = map (write_op marshal s) order"
    using write_loop_ok [OF assms(1,2) tracked_marks [OF assms(3)] order(1), of NewBatch] order(2)
    by (auto simp: NewBatch_def)
  have r: "updatedData s |` (- set order) = Map.empty" using order(2) by (auto simp: restrict_map_def domIff)
  have "foldl apply_op (vdb s) (Ops b) k = map_option (enc marshal) (vdata s k)" for k
  proof (cases "k \<in> set order")
    case True
    have "distinct (map opKey (Ops b))" using order(1) by (simp add: b(2) comp_def)
    moreover have "write_op marshal s k \<in> set (Ops b)" using True by (simp add: b(2))
    ultimately show ?thesis using apply_ops_member [of "Ops b" "write_op marshal s k" "vdb s"]
      by (simp add: write_op_effect)
  next
    case False
    then have "k \<notin> opKey ` set (Ops b)" by (auto simp: b(2))
    moreover have "vdb s k = map_option (enc marshal) (vdata s k)"
      using assms(3) [unfolded tracked_def, rule_format, of k] False order(2) by (simp add: domIff)
    ultimately show ?thesis by (simp add: apply_op_other)
  qed
  then have "foldl apply_op (vdb s) (Ops b) = (\<lambda>vID. map_option (enc marshal) (vdata s vID))" by (rule ext)
  then show ?thesis unfolding st_WriteState_def b(1) by (simp add: r assms(6))
qed

lemma addData_v_inv:
  assumes "v_inv t" "vdata t k = None" "nindex t (vdNodeID d) = None" "validationID d = k"
  shows "v_inv (t\<lparr>vdata := (vdata t)(k \<mapsto> d), nindex := (nindex t)(vdNodeID d \<mapsto> k)\<rparr>)"
proof -
  have 1: "nindex t n = Some j \<longleftrightarrow> (\<exists>e. vdata t j = Some e \<and> vdNodeID e = n)" for n j
    using assms(1) by (simp add: v_inv_def)
  have 2: "vdNodeID e \<noteq> vdNodeID d" if "vdata t j = Some e" for j e
    using 1 [of "vdNodeID d" j] assms(3) that by auto
  have 3: "validationID e = j" if "vdata t j = Some e" for j e
    using assms(1) that by (simp add: v_inv_def)
  show ?thesis unfolding v_inv_def using 1 2 3 assms(2,4) by auto
qed

text \<open>Reloading: the pairs visited are exactly the stored ones.\<close>

lemma load_ok:
  assumes "codec_ok marshal unmarshal" "v_inv s" "all_wf s" "\<forall>vID\<in>dom (vdata s). length vID = 32"
    and "distinct (map fst kvs)" "\<forall>(k, v)\<in>set kvs. \<exists>d. vdata s k = Some d \<and> v = enc marshal d"
    and "dom (vdata t) \<inter> fst ` set kvs = {}" "\<And>k d. vdata t k = Some d \<Longrightarrow> vdata s k = Some d" "v_inv t"
  shows "\<exists>t'. loadFromDisk unmarshal kvs t = Inr t' \<and> v_inv t'
    \<and> (\<forall>k. vdata t' k = (if k \<in> fst ` set kvs then vdata s k else vdata t k))
    \<and> updatedData t' = updatedData t \<and> vdb t' = vdb t \<and> slisteners t' = slisteners t"
  using assms(5-9)
proof (induction kvs arbitrary: t)
  case (Cons kv kvs)
  obtain k v where kv: "kv = (k, v)" by (cases kv)
  with Cons.prems(2) obtain d where d: "vdata s k = Some d" "v = enc marshal d" by auto
  have wf: "wf_data d" and k32: "length k = 32" and id: "validationID d = k"
    using assms(2-4) d(1) by (auto simp: all_wf_def v_inv_def dest: bspec [of _ _ k])
  from assms(1) wf k32 obtain bs where "marshal d = Inr bs" "bs \<noteq> []" "unmarshal bs (zero_data k) = Inr (d\<lparr>validationID := k\<rparr>)"
    by (auto simp: codec_ok_def)
  then have parse: "parseValidatorData unmarshal v (zero_data k) = Inr d"
    using id by (simp add: parseValidatorData_def d(2) enc_def)
  have tk: "vdata t k = None" using Cons.prems(3) kv by (auto simp: domIff)
  have tn: "nindex t (vdNodeID d) = None"
  proof (rule ccontr)
    assume "nindex t (vdNodeID d) \<noteq> None"
    then obtain j e where "vdata t j = Some e" "vdNodeID e = vdNodeID d"
      using Cons.prems(5) by (auto simp: v_inv_def)
    then have "j = k" using v_inv_unique [OF assms(2), of j e k d] Cons.prems(4) d(1) by simp
    with \<open>vdata t j = Some e\<close> tk show False by simp
  qed
  let ?t = "t\<lparr>vdata := (vdata t)(k \<mapsto> d), nindex := (nindex t)(vdNodeID d \<mapsto> k)\<rparr>"
  have d5: "v_inv ?t" by (rule addData_v_inv [OF Cons.prems(5) tk tn id])
  have d1: "distinct (map fst kvs)" "k \<notin> fst ` set kvs" using Cons.prems(1) kv by auto
  have d2: "\<forall>(k, v)\<in>set kvs. \<exists>d. vdata s k = Some d \<and> v = enc marshal d" using Cons.prems(2) by simp
  have d3: "dom (vdata ?t) \<inter> fst ` set kvs = {}" using Cons.prems(3) d1(2) by auto
  have d4: "vdata s j = Some e" if "vdata ?t j = Some e" for j e
    using that Cons.prems(4) [of j e] d(1) by (cases "j = k") auto
  from Cons.IH [of ?t, OF d1(1) d2 d3 d4 d5] obtain t' where t':
      "loadFromDisk unmarshal kvs ?t = Inr t'" "v_inv t'"
      "\<forall>j. vdata t' j = (if j \<in> fst ` set kvs then vdata s j else vdata ?t j)"
      "updatedData t' = updatedData t" "vdb t' = vdb t" "slisteners t' = slisteners t"
    by auto
  have "loadFromDisk unmarshal (kv # kvs) t = Inr t'"
    using parse tk tn k32 t'(1) by (simp add: kv ToID_def addData_def)
  moreover have "vdata t' j = (if j \<in> fst ` set (kv # kvs) then vdata s j else vdata t j)" for j
    using t'(3) [rule_format, of j] d(1) kv by (cases "j = k") simp_all
  ultimately show ?case using t' by blast
qed auto

end
