(* ===== verification/Validator_World.thy ===== *)
theory Validator_World
  imports Validator_State
begin

text \<open>
  The validator manager of \<open>utils/evm/validators/manager.go\<close>: the persistent validator state and
  the pausable uptime manager, which listens to the state and updates uptimes in the same state. The world
  is the pausable manager, whose uptime manager holds the state. \<open>now\<close> is the reading of the
  clock, truncated to seconds, during an operation.
\<close>

type_synonym world = "vstate pausable"

definition w_state :: "world \<Rightarrow> vstate" where
  "w_state w = ustate (inner w)"

definition w_upd :: "(vstate \<Rightarrow> vstate) \<Rightarrow> world \<Rightarrow> world" where
  "w_upd f w = w\<lparr>inner := (inner w)\<lparr>ustate := f (ustate (inner w))\<rparr>\<rparr>"

fun w_call :: "gotime \<Rightarrow> nat \<Rightarrow> state_event \<Rightarrow> world \<Rightarrow> world option" where
  "w_call now l (EvValidatorAdded vID n st active) w =
     pm_OnValidatorAdded st_GetUptime st_SetUptime now n active w"
| "w_call now l (EvValidatorRemoved vID n) w = pm_OnValidatorRemoved now n w"
| "w_call now l (EvValidatorStatusUpdated vID n active) w =
     pm_OnValidatorStatusUpdated st_GetUptime st_SetUptime now n active w"

definition w_env :: "gotime \<Rightarrow> world venv" where
  "w_env now = \<lparr>vget = w_state, vupd = w_upd, vcall = w_call now\<rparr>"

text \<open>The manager: the logger and the source of the current validator set may be nil.\<close>

record evm_manager =
  mlog :: bool
  ValidatorState :: bool
  mworld :: world

datatype evm_err = FailedInit vstate_err | FailedCurrentSet nat | FailedLoad vstate_err | FailedWrite vstate_err
  | FailedGetValidator vstate_err | FailedUptime uptime_err

definition evm_NewManager ::
  "unmarshaller \<Rightarrow> kvstore \<Rightarrow> (bytes \<times> bytes) list \<Rightarrow> ids_id list \<Rightarrow> gotime
    \<Rightarrow> (evm_err, evm_manager) go_result option" where
  "evm_NewManager unmarshal db entries order now =
     (case NewState unmarshal db entries of
        Inl e \<Rightarrow> Some (Inl (FailedInit e))
      | Inr s \<Rightarrow>
          (case st_RegisterListener (w_env now) order 0 (pm_New (um_New s)) of
             None \<Rightarrow> None
           | Some w \<Rightarrow> Some (Inr \<lparr>mlog = False, ValidatorState = False, mworld = w\<rparr>)))"

definition GetValidatorAndUptime ::
  "gotime \<Rightarrow> evm_manager \<Rightarrow> ids_id \<Rightarrow> (evm_err, vdr_info \<times> duration \<times> gotime) go_result" where
  "GetValidatorAndUptime now m vID =
     (case st_GetValidator (w_state (mworld m)) vID of
        Inl e \<Rightarrow> Inl (FailedGetValidator e)
      | Inr vdr \<Rightarrow>
          (case um_CalculateUptime st_GetUptime now (inner (mworld m)) (viNodeID vdr) of
             Inl e \<Rightarrow> Inl (FailedUptime e)
           | Inr (uptime, lastUpdated) \<Rightarrow> Inr (vdr, uptime, lastUpdated)))"

text \<open>
  \<open>loadValidators\<close>: \<open>dels\<close> and \<open>adds\<close> are the orders in which \<open>range\<close> visits the current validation
  ids and the new validators. The error of \<open>DeleteValidator\<close> is dropped.
\<close>

record cur_vdr =
  cvNodeID :: node_id
  cvWeight :: uint64
  cvStartTime :: uint64
  cvIsActive :: bool
  cvIsL1Validator :: bool

definition cur_info :: "ids_id \<Rightarrow> cur_vdr \<Rightarrow> vdr_info" where
  "cur_info vID v = \<lparr>viValidationID = vID, viNodeID = cvNodeID v, viWeight = cvWeight v,
     viStartTimestamp = cvStartTime v, viIsActive = cvIsActive v, viIsL1Validator = cvIsL1Validator v\<rparr>"

fun load_delete :: "gotime \<Rightarrow> (ids_id \<rightharpoonup> cur_vdr) \<Rightarrow> ids_id list \<Rightarrow> world \<Rightarrow> world option" where
  "load_delete now new [] w = Some w"
| "load_delete now new (vID # dels) w =
     (if new vID = None
      then (case st_DeleteValidator (w_env now) vID w of
              None \<Rightarrow> None | Some (w', e) \<Rightarrow> load_delete now new dels w')
      else load_delete now new dels w)"

fun load_add :: "gotime \<Rightarrow> ids_id set \<Rightarrow> (ids_id \<rightharpoonup> cur_vdr) \<Rightarrow> ids_id list \<Rightarrow> world \<Rightarrow> world st_result" where
  "load_add now cur new [] w = Some (w, None)"
| "load_add now cur new (vID # adds) w =
     (case new vID of
        None \<Rightarrow> load_add now cur new adds w
      | Some v \<Rightarrow>
          (case (if vID \<in> cur then st_UpdateValidator (w_env now) (cur_info vID v) w
                 else st_AddValidator (w_env now) (cur_info vID v) w) of
             None \<Rightarrow> None
           | Some (w', Some e) \<Rightarrow> Some (w', Some e)
           | Some (w', None) \<Rightarrow> load_add now cur new adds w'))"

definition loadValidators ::
  "gotime \<Rightarrow> (ids_id \<rightharpoonup> cur_vdr) \<Rightarrow> ids_id list \<Rightarrow> ids_id list \<Rightarrow> world \<Rightarrow> world st_result" where
  "loadValidators now new dels adds w =
     (let cur = st_GetValidationIDs (w_state w) in
      case load_delete now new dels w of
        None \<Rightarrow> None
      | Some w' \<Rightarrow> load_add now cur new adds w')"

text \<open>
  \<open>Sync\<close>: \<open>answer\<close> is what the validator source returns. Calling a method of a nil logger or a
  nil validator source panics.
\<close>

definition evm_Sync ::
  "marshaller \<Rightarrow> (Batch \<Rightarrow> db_err option) \<Rightarrow> gotime \<Rightarrow> (nat, ids_id \<rightharpoonup> cur_vdr) go_result
    \<Rightarrow> ids_id list \<Rightarrow> ids_id list \<Rightarrow> ids_id list \<Rightarrow> evm_manager \<Rightarrow> (evm_manager \<times> evm_err option) option" where
  "evm_Sync marshal write now answer dels adds order m =
     (if \<not> mlog m then None
      else if \<not> ValidatorState m then None
      else case answer of
        Inl e \<Rightarrow> Some (m, Some (FailedCurrentSet e))
      | Inr new \<Rightarrow>
          (case loadValidators now new dels adds (mworld m) of
             None \<Rightarrow> None
           | Some (w, Some e) \<Rightarrow> Some (m\<lparr>mworld := w\<rparr>, Some (FailedLoad e))
           | Some (w, None) \<Rightarrow>
               (case st_WriteState marshal write order (w_state w) of (s, r) \<Rightarrow>
                  Some (m\<lparr>mworld := w_upd (\<lambda>_. s) w\<rparr>,
                   map_option FailedWrite r))))"

subsection \<open>The state under uptime updates\<close>

text \<open>Times between the years 1823 and 2116, so that differences are durations.\<close>

definition era :: "gotime \<Rightarrow> bool" where
  "era t \<longleftrightarrow> - (2 ^ 62) \<le> t \<and> t < 2 ^ 62"

definition d_ok :: "validatorData \<Rightarrow> bool" where
  "d_ok d \<longleftrightarrow> credited (getStartTime d) (UpDuration d, getLastUpdated d)
     \<and> era (getStartTime d) \<and> era (getLastUpdated d) \<and> length (vdNodeID d) = 20"

definition s_inv :: "marshaller \<Rightarrow> vstate \<Rightarrow> bool" where
  "s_inv marshal s \<longleftrightarrow> v_inv s \<and> tracked marshal s
     \<and> (\<forall>vID d. vdata s vID = Some d \<longrightarrow> d_ok d \<and> length vID = 32)"

text \<open>The fields of a validator that uptime updates do not touch.\<close>

definition ident :: "validatorData \<Rightarrow> validatorData" where
  "ident d = d\<lparr>UpDuration := 0, LastUpdated := 0\<rparr>"

definition touched :: "vstate \<Rightarrow> vstate \<Rightarrow> bool" where
  "touched s s' \<longleftrightarrow> nindex s' = nindex s \<and> slisteners s' = slisteners s \<and> vdb s' = vdb s
     \<and> (\<forall>vID. map_option ident (vdata s' vID) = map_option ident (vdata s vID))"

lemma touched_refl [simp]: "touched s s"
  by (simp add: touched_def)

lemma touched_trans: "\<lbrakk>touched s t; touched t u\<rbrakk> \<Longrightarrow> touched s u"
  by (simp add: touched_def)

lemma ident_fields:
  assumes "ident d = ident e"
  shows "vdNodeID d = vdNodeID e" "vdWeight d = vdWeight e" "vdStartTime d = vdStartTime e"
    "vdIsActive d = vdIsActive e" "vdIsL1Validator d = vdIsL1Validator e" "validationID d = validationID e"
  using assms by (cases d; cases e; simp add: ident_def)+

lemma touched_Some:
  assumes "touched s s'" "vdata s' vID = Some d'"
  obtains d where "vdata s vID = Some d" "ident d' = ident d"
proof -
  have "map_option ident (vdata s vID) = Some (ident d')"
    using assms unfolding touched_def by (metis option.simps(9))
  then show ?thesis using that by (auto simp: map_option_eq_Some)
qed

lemma touched_sym: "touched s s' \<Longrightarrow> touched s' s"
  by (simp add: touched_def)

definition inactive :: "vstate \<Rightarrow> node_id set" where
  "inactive s = {n. \<exists>vID d. vdata s vID = Some d \<and> vdNodeID d = n \<and> \<not> vdIsActive d}"

lemma touched_inactive_sub:
  assumes "touched s s'"
  shows "inactive s' \<subseteq> inactive s"
proof
  fix n
  assume "n \<in> inactive s'"
  then obtain vID d' where d': "vdata s' vID = Some d'" "vdNodeID d' = n" "\<not> vdIsActive d'"
    by (auto simp: inactive_def)
  from touched_Some [OF assms d'(1)] obtain d where "vdata s vID = Some d" "ident d' = ident d" .
  with d' show "n \<in> inactive s" using ident_fields(1,4) [of d' d] by (auto simp: inactive_def)
qed

lemma touched_inactive: "touched s s' \<Longrightarrow> inactive s' = inactive s"
  by (simp add: touched_inactive_sub touched_sym subset_antisym)

definition known :: "vstate \<Rightarrow> node_id \<Rightarrow> bool" where
  "known s n \<longleftrightarrow> (\<exists>vID d. vdata s vID = Some d \<and> vdNodeID d = n)"

lemma touched_known:
  assumes "touched s s'"
  shows "known s' n = known s n"
proof -
  have "known b n" if t: "touched b a" and k: "known a n" for a b
  proof -
    from k obtain vID d where d: "vdata a vID = Some d" "vdNodeID d = n" by (auto simp: known_def)
    from touched_Some [OF t d(1)] obtain e where "vdata b vID = Some e" "ident d = ident e" .
    with d(2) show ?thesis using ident_fields(1) [of d e] by (auto simp: known_def)
  qed
  with assms touched_sym [OF assms] show ?thesis by blast
qed

definition clock_ok :: "gotime \<Rightarrow> bool" where
  "clock_ok now \<longleftrightarrow> whole now \<and> era now"

lemma whole_LastUpdated: "whole (getLastUpdated d)" "whole (getStartTime d)"
proof -
  have "- (2 ^ 63) \<le> sint w \<and> sint w < 2 ^ 63" for w :: uint64
    using sint_greater_eq [of w] sint_less [of w] by simp
  then show "whole (getLastUpdated d)" "whole (getStartTime d)"
    by (simp_all add: whole_def getLastUpdated_def getStartTime_def second_def)
qed

lemma era_diff: "\<lbrakk>era t; era u\<rbrakk> \<Longrightarrow> t - u < 2 ^ 63"
  by (simp add: era_def)

definition start_of :: "gotime \<Rightarrow> vstate \<Rightarrow> node_id \<Rightarrow> gotime" where
  "start_of now s n = (case getData s n of Inl e \<Rightarrow> now | Inr (vID, d) \<Rightarrow> getStartTime d)"

lemma s_inv_d_ok: "\<lbrakk>s_inv marshal s; vdata s vID = Some d\<rbrakk> \<Longrightarrow> d_ok d"
  by (simp add: s_inv_def)

lemma s_inv_accounted:
  assumes "s_inv marshal s" "clock_ok now"
  shows "accounted st_GetUptime (start_of now s) s" "sane (start_of now s) now"
proof -
  have inv: "v_inv s" using assms(1) by (simp add: s_inv_def)
  have start: "start_of now s (vdNodeID d) = getStartTime d" if "vdata s vID = Some d" for vID d
    using getData_iff [OF inv, of "vdNodeID d" vID d] that by (simp add: start_of_def)
  show "accounted st_GetUptime (start_of now s) s"
  proof (rule accountedI)
    fix n dt
    assume "st_GetUptime s n = Inr dt"
    then obtain vID d where d: "vdata s vID = Some d" "vdNodeID d = n" "dt = (UpDuration d, getLastUpdated d)"
      by (auto simp: st_GetUptime_Inr [OF inv])
    then show "credited (start_of now s n) dt"
      using s_inv_d_ok [OF assms(1) d(1)] start [OF d(1)] by (simp add: d_ok_def)
  qed
  have "now - start_of now s n < 2 ^ 63" for n
  proof (cases rule: getData_cases [OF inv, of n, case_names 1 2])
    case (1 vID d)
    then show ?thesis
      using s_inv_d_ok [OF assms(1) 1(1)] start [OF 1(1)] assms(2) era_diff
      by (simp add: d_ok_def clock_ok_def)
  next
    case 2
    then show ?thesis by (simp add: start_of_def)
  qed
  then show "sane (start_of now s) now" using assms(2) by (simp add: sane_def clock_ok_def)
qed

lemma SetUptime_s_inv:
  assumes s: "s_inv marshal s" and d: "vdata s vID = Some d"
    and dt: "credited (getStartTime d) (d', t')" "era t'"
  defines "s' \<equiv> fst (st_SetUptime s (vdNodeID d) d' t')"
  shows "s_inv marshal s'" "touched s s'"
proof -
  have inv: "v_inv s" and tr: "tracked marshal s" using s by (simp_all add: s_inv_def)
  let ?d = "setLastUpdated t' (d\<lparr>UpDuration := d'\<rparr>)"
  have s': "s' = mark True vID (mutate vID (\<lambda>d. setLastUpdated t' (d\<lparr>UpDuration := d'\<rparr>)) s)"
    unfolding s'_def by (simp add: st_SetUptime_known [OF inv d])
  then have data: "vdata s' = (vdata s)(vID \<mapsto> ?d)" by (simp add: mutate_def d)
  have "d_ok d" by (rule s_inv_d_ok [OF s d])
  moreover have "getLastUpdated ?d = t'" using dt(1) by (simp add: LastUpdated_roundtrip credited_def)
  moreover have "getStartTime ?d = getStartTime d" by (simp add: getStartTime_def)
  ultimately have "d_ok ?d" using dt by (simp add: d_ok_def)
  then have "d_ok e \<and> length k = 32" if "vdata s' k = Some e" for k e
    using that s d by (auto simp: data s_inv_def split: if_splits)
  moreover have "v_inv s'" "tracked marshal s'"
    unfolding s'_def by (rule SetUptime_v_inv [OF inv], rule SetUptime_tracked [OF inv tr])
  ultimately show "s_inv marshal s'" by (simp add: s_inv_def)
  have "ident ?d = ident d" by (simp add: ident_def setLastUpdated_def)
  then show "touched s s'" using d by (simp add: touched_def data) (simp add: s' mutate_def)
qed

lemma update_known_world:
  assumes "s_inv marshal (ustate m)" "clock_ok now" "known (ustate m) n"
  shows "snd (um_updateUptime st_GetUptime st_SetUptime now n m) = None"
    and "s_inv marshal (ustate (fst (um_updateUptime st_GetUptime st_SetUptime now n m)))"
    and "touched (ustate m) (ustate (fst (um_updateUptime st_GetUptime st_SetUptime now n m)))"
proof -
  let ?s = "ustate m"
  have inv: "v_inv ?s" using assms(1) by (simp add: s_inv_def)
  obtain vID d where d: "vdata ?s vID = Some d" "vdNodeID d = n" using assms(3) by (auto simp: known_def)
  let ?start = "start_of now ?s"
  have st: "?start n = getStartTime d" using getData_iff [OF inv, of n vID d] d by (simp add: start_of_def)
  have get: "st_GetUptime ?s n = Inr (UpDuration d, getLastUpdated d)"
    using d by (auto simp: st_GetUptime_Inr [OF inv])
  obtain m' d' t' where r: "um_updateUptime st_GetUptime st_SetUptime now n m = (m', None)"
      "accounted st_GetUptime ?start (ustate m')" "st_GetUptime (ustate m') n = Inr (d', t')"
      "ustate m' = fst (st_SetUptime ?s n d' t')" "t' = getLastUpdated d \<or> t' = now"
    using inv s_inv_accounted [OF assms(1,2)] get by (rule vus.update_known) blast
  have cr: "credited (getStartTime d) (d', t')" using accountedD [OF r(2,3)] st by simp
  have "era t'" using r(5) s_inv_d_ok [OF assms(1) d(1)] assms(2) by (auto simp: d_ok_def clock_ok_def)
  note SetUptime_s_inv [OF assms(1) d(1) cr this, unfolded d(2), folded r(4)]
  with r(1) show "snd (um_updateUptime st_GetUptime st_SetUptime now n m) = None"
    "s_inv marshal (ustate (fst (um_updateUptime st_GetUptime st_SetUptime now n m)))"
    "touched ?s (ustate (fst (um_updateUptime st_GetUptime st_SetUptime now n m)))"
    by simp_all
qed

lemma update_unknown_world:
  assumes "v_inv (ustate m)" "\<not> known (ustate m) n"
  shows "um_updateUptime st_GetUptime st_SetUptime now n m = (m, Some DbErrNotFound)"
proof (cases rule: getData_cases [OF assms(1), of n, case_names 1 2])
  case (1 vID d)
  with assms(2) show ?thesis by (auto simp: known_def)
next
  case 2
  then show ?thesis by (simp add: um_updateUptime_def um_CalculateUptime_def st_GetUptime_def)
qed

lemma update_world:
  assumes "s_inv marshal (ustate m)" "clock_ok now"
  shows "s_inv marshal (ustate (fst (um_updateUptime st_GetUptime st_SetUptime now n m)))
    \<and> touched (ustate m) (ustate (fst (um_updateUptime st_GetUptime st_SetUptime now n m)))"
proof (cases "known (ustate m) n")
  case True
  then show ?thesis using update_known_world [OF assms True] by simp
next
  case False
  then show ?thesis using update_unknown_world [of m n now] assms(1) by (simp add: s_inv_def)
qed

lemma update_all_world:
  assumes "s_inv marshal (ustate m)" "clock_ok now"
  shows "s_inv marshal (ustate (fst (um_update_all st_GetUptime st_SetUptime now ns m)))
    \<and> touched (ustate m) (ustate (fst (um_update_all st_GetUptime st_SetUptime now ns m)))"
  using assms
proof (induction ns arbitrary: m)
  case (Cons n ns)
  obtain m' e where u: "um_updateUptime st_GetUptime st_SetUptime now n m = (m', e)" by fastforce
  with update_world [OF Cons.prems, of n] have m': "s_inv marshal (ustate m')" "touched (ustate m) (ustate m')"
    by simp_all
  with Cons.IH [OF m'(1) Cons.prems(2)] show ?case
    by (cases e) (auto simp: u intro: touched_trans)
qed simp

subsection \<open>Operations on the world\<close>

definition half :: "marshaller \<Rightarrow> world \<Rightarrow> bool" where
  "half marshal w \<longleftrightarrow> s_inv marshal (w_state w) \<and> pm_inv w \<and> slisteners (w_state w) = [0]"

definition w_inv :: "marshaller \<Rightarrow> world \<Rightarrow> bool" where
  "w_inv marshal w \<longleftrightarrow> half marshal w \<and> pausedVdrs w = inactive (w_state w)"

text \<open>What the methods of the pausable manager do to the state they share.\<close>

lemma um_Disconnect_world:
  assumes "s_inv marshal (ustate m)" "clock_ok now"
  shows "s_inv marshal (ustate (fst (um_Disconnect st_GetUptime st_SetUptime now n m)))
    \<and> touched (ustate m) (ustate (fst (um_Disconnect st_GetUptime st_SetUptime now n m)))"
    and "known (ustate m) n \<Longrightarrow> snd (um_Disconnect st_GetUptime st_SetUptime now n m) = None"
  using update_world [OF assms, of n] update_known_world(1) [OF assms, of n] assms(1)
  by (auto simp: um_Disconnect_def split_def Let_def)

lemma w_state_simps [simp]:
  "w_state (w\<lparr>inner := m\<rparr>) = ustate m" "w_state (w\<lparr>pausedVdrs := P\<rparr>) = w_state w"
  "w_state (w\<lparr>connectedVdrs := C\<rparr>) = w_state w" "w_state (w_upd f w) = f (w_state w)"
  "pausedVdrs (w_upd f w) = pausedVdrs w" "connectedVdrs (w_upd f w) = connectedVdrs w"
  "ustate (um_Connect now n m) = ustate m" "pm_inv (w_upd f w) = pm_inv w"
  by (simp_all add: w_state_def w_upd_def um_Connect_def pm_inv_def)

lemma pause_world:
  assumes "half marshal w" "clock_ok now" "known (w_state w) n"
  shows "\<exists>w'. pm_pause st_GetUptime st_SetUptime now n w = (w', None) \<and> half marshal w'
    \<and> touched (w_state w) (w_state w') \<and> pausedVdrs w' = insert n (pausedVdrs w)"
proof -
  have s: "s_inv marshal (ustate (inner w))" and k: "known (ustate (inner w)) n"
    using assms by (simp_all add: half_def w_state_def)
  note D = um_Disconnect_world [OF s assms(2), of n]
  have "pm_inv (fst (pm_pause st_GetUptime st_SetUptime now n w))"
    using assms(1) by (intro pm_inv_ops) (simp add: half_def)
  then show ?thesis
    using D(1) D(2) [OF k] assms(1)
    by (auto simp: pm_pause_def Let_def split_def half_def touched_def)
      (simp_all add: w_state_def)
qed

lemma resume_world:
  assumes "half marshal w"
  shows "half marshal (pm_resume now n w)" "w_state (pm_resume now n w) = w_state w"
    "pausedVdrs (pm_resume now n w) = pausedVdrs w - {n}"
proof -
  show st: "w_state (pm_resume now n w) = w_state w"
    by (simp add: pm_resume_def Let_def) (simp add: w_state_def)
  show "pausedVdrs (pm_resume now n w) = pausedVdrs w - {n}" by (simp add: pm_resume_def Let_def)
  have "pm_inv (pm_resume now n w)" using assms by (intro pm_inv_ops) (simp add: half_def)
  with st assms show "half marshal (pm_resume now n w)" by (simp add: half_def)
qed

lemma tracking_world:
  assumes "w_inv marshal w" "clock_ok now"
  shows "w_inv marshal (pm_Connect now n w)"
    and "w_inv marshal (fst (pm_Disconnect st_GetUptime st_SetUptime now n w))"
    and "w_inv marshal (fst (pm_StartTracking st_GetUptime st_SetUptime now ns w))"
    and "w_inv marshal (fst (pm_StopTracking st_GetUptime st_SetUptime now ns w))"
proof -
  have s: "s_inv marshal (ustate (inner w))" and p: "pm_inv w" and l: "slisteners (ustate (inner w)) = [0]"
    and pa: "pausedVdrs w = inactive (ustate (inner w))"
    using assms(1) by (simp_all add: w_inv_def half_def w_state_def)
  have general: "w_inv marshal w'" if "s_inv marshal (w_state w')" "touched (ustate (inner w)) (w_state w')"
      "pm_inv w'" "pausedVdrs w' = pausedVdrs w" for w'
    using that l pa touched_inactive [OF that(2)] by (simp add: w_inv_def half_def touched_def)
  have st: "w_state (pm_Connect now n w) = ustate (inner w)"
    by (simp add: pm_Connect_def Let_def) (simp add: w_state_def)
  show "w_inv marshal (pm_Connect now n w)"
    by (rule general) (simp_all add: st s pm_inv_ops(1) [OF p], simp add: pm_Connect_def Let_def)
  show "w_inv marshal (fst (pm_Disconnect st_GetUptime st_SetUptime now n w))"
    by (rule general [OF _ _ pm_inv_ops(2) [OF p]])
      (use um_Disconnect_world(1) [OF s assms(2), of n] s in
        \<open>simp_all add: pm_Disconnect_def Let_def split_def w_state_def\<close>)
  note A = update_all_world [OF s assms(2), of ns]
  show "w_inv marshal (fst (pm_StartTracking st_GetUptime st_SetUptime now ns w))"
    by (rule general [OF _ _ pm_inv_ops(5) [OF p]])
      (use A s in \<open>auto simp: pm_StartTracking_def um_StartTracking_def split_def w_state_def split: option.split\<close>)
  show "w_inv marshal (fst (pm_StopTracking st_GetUptime st_SetUptime now ns w))"
    by (rule general [OF _ _ pm_inv_ops(6) [OF p]])
      (use A s in \<open>auto simp: pm_StopTracking_def um_StopTracking_def split_def w_state_def split: option.split\<close>)
qed

text \<open>The listener calls of the state.\<close>

lemma w_env_simps [simp]: "vget (w_env now) = w_state" "vupd (w_env now) = w_upd" "vcall (w_env now) = w_call now"
  by (simp_all add: w_env_def)

lemma notify_all_one: "slisteners (w_state w) = [0] \<Longrightarrow> notify_all (w_env now) ev w = w_call now 0 ev w"
  by (simp add: notify_all_def split: option.split)

lemma call_pauses:
  assumes "half marshal w" "clock_ok now" "known (w_state w) n"
  shows "\<exists>w'. w_call now l (EvValidatorStatusUpdated vID n active) w = Some w' \<and> half marshal w'
      \<and> touched (w_state w) (w_state w')
      \<and> pausedVdrs w' = (if active then pausedVdrs w - {n} else insert n (pausedVdrs w))"
    and "\<exists>w'. w_call now l (EvValidatorAdded vID n st active) w = Some w' \<and> half marshal w'
      \<and> touched (w_state w) (w_state w')
      \<and> pausedVdrs w' = (if active then pausedVdrs w else insert n (pausedVdrs w))"
  using pause_world [OF assms] resume_world [OF assms(1), of now n] assms(1)
  by (auto simp: pm_OnValidatorStatusUpdated_def pm_OnValidatorAdded_def)

lemma call_removed:
  assumes "half marshal w"
  shows "\<exists>w'. w_call now l (EvValidatorRemoved vID n) w = Some w' \<and> half marshal w'
      \<and> w_state w' = w_state w \<and> pausedVdrs w' = pausedVdrs w - {n}"
  using resume_world [OF assms, of now n] assms by (auto simp: pm_OnValidatorRemoved_def pm_IsPaused_def)

text \<open>The validators as \<open>GetValidator\<close> reports them.\<close>

definition info_of :: "validatorData \<Rightarrow> vdr_info" where
  "info_of d = \<lparr>viValidationID = validationID d, viNodeID = vdNodeID d, viWeight = vdWeight d,
     viStartTimestamp = vdStartTime d, viIsActive = vdIsActive d, viIsL1Validator = vdIsL1Validator d\<rparr>"

definition infos :: "vstate \<Rightarrow> ids_id \<rightharpoonup> vdr_info" where
  "infos s vID = map_option info_of (vdata s vID)"

lemma GetValidator_infos:
  "st_GetValidator s vID = (case infos s vID of None \<Rightarrow> Inl VErrNotFound | Some i \<Rightarrow> Inr i)"
  by (simp add: st_GetValidator_def infos_def info_of_def split: option.split)

lemma info_of_ident: "ident d = ident e \<Longrightarrow> info_of d = info_of e"
  using ident_fields [of d e] by (simp add: info_of_def)

lemma touched_infos:
  assumes "touched s s'"
  shows "infos s' = infos s"
proof
  fix vID
  have "map_option ident (vdata s' vID) = map_option ident (vdata s vID)" using assms by (simp add: touched_def)
  then show "infos s' vID = infos s vID"
    by (cases "vdata s vID"; cases "vdata s' vID") (auto simp: infos_def intro: info_of_ident)
qed

lemma half_upd:
  "\<lbrakk>half marshal w; s_inv marshal (f (w_state w)); slisteners (f (w_state w)) = [0]\<rbrakk> \<Longrightarrow> half marshal (w_upd f w)"
  by (simp add: half_def)

definition vdr_ok :: "vdr_info \<Rightarrow> bool" where
  "vdr_ok vdr \<longleftrightarrow> length (viValidationID vdr) = 32 \<and> length (viNodeID vdr) = 20
     \<and> era (sint (viStartTimestamp vdr) * second)"

lemma new_data_ok: "vdr_ok vdr \<Longrightarrow> d_ok (new_data vdr)"
  using whole_LastUpdated [of "new_data vdr"]
  by (simp add: d_ok_def vdr_ok_def credited_def new_data_def getStartTime_def getLastUpdated_def)

lemma new_data_simps [simp]: "vdNodeID (new_data vdr) = viNodeID vdr" "validationID (new_data vdr) = viValidationID vdr"
  "vdIsActive (new_data vdr) = viIsActive vdr" "info_of (new_data vdr) = vdr"
  by (simp_all add: new_data_def info_of_def)

lemma addData_s_inv:
  assumes s: "s_inv marshal s" and a: "addData (viValidationID vdr) (new_data vdr) s = Inr s1" and ok: "vdr_ok vdr"
  defines "s2 \<equiv> mark True (viValidationID vdr) s1"
  shows "s_inv marshal s2" "vdata s2 = (vdata s)(viValidationID vdr \<mapsto> new_data vdr)"
    "slisteners s2 = slisteners s" "vdata s (viValidationID vdr) = None"
proof -
  let ?v = "viValidationID vdr" and ?d = "new_data vdr"
  have none: "vdata s ?v = None" "nindex s (vdNodeID ?d) = None"
    and s1: "s1 = s\<lparr>vdata := (vdata s)(?v \<mapsto> ?d), nindex := (nindex s)(vdNodeID ?d \<mapsto> ?v)\<rparr>"
    using a by (auto simp: addData_def split: if_splits)
  show "vdata s (viValidationID vdr) = None" by (rule none)
  show data: "vdata s2 = (vdata s)(?v \<mapsto> ?d)" and "slisteners s2 = slisteners s" by (simp_all add: s2_def s1)
  have "v_inv s1" unfolding s1 using s none by (intro addData_v_inv) (simp_all add: s_inv_def)
  moreover have "tracked marshal s2"
    by (rule tracked_change [of marshal s ?v]) (use s in \<open>simp_all add: s_inv_def s2_def s1\<close>)
  moreover have "d_ok e \<and> length k = 32" if "vdata s2 k = Some e" for k e
    using that s new_data_ok [OF ok] ok by (auto simp: data s_inv_def vdr_ok_def split: if_splits)
  ultimately show "s_inv marshal s2" by (simp add: s_inv_def s2_def)
qed

lemma inactive_insert:
  assumes "vdata s vID = None" "vdata s' = (vdata s)(vID \<mapsto> d)"
  shows "inactive s' = (if vdIsActive d then inactive s else insert (vdNodeID d) (inactive s))"
proof -
  have "inactive t = vdNodeID ` {d \<in> ran (vdata t). \<not> vdIsActive d}" for t
    by (auto simp: inactive_def ran_def)
  moreover have "ran (vdata s') = insert d (ran (vdata s))" using assms by simp
  ultimately show ?thesis by auto
qed

lemma inactive_change:
  assumes "v_inv s" "vdata s vID = Some d" "vdata s' = (vdata s)(vID := r)"
    and "\<And>e. r = Some e \<Longrightarrow> vdNodeID e = vdNodeID d"
  shows "inactive s' = (inactive s - {vdNodeID d})
    \<union> (case r of None \<Rightarrow> {} | Some e \<Rightarrow> if vdIsActive e then {} else {vdNodeID d})"
proof (rule set_eqI)
  fix n
  have other: "k = vID" if "vdata s k = Some e" "vdNodeID e = vdNodeID d" for k e
    using v_inv_unique [OF assms(1) that(1) assms(2) that(2)] .
  show "n \<in> inactive s' \<longleftrightarrow> n \<in> (inactive s - {vdNodeID d})
    \<union> (case r of None \<Rightarrow> {} | Some e \<Rightarrow> if vdIsActive e then {} else {vdNodeID d})"
  proof (cases "n = vdNodeID d")
    case True
    then show ?thesis using other assms(4) by (auto simp: inactive_def assms(3) split: option.splits if_splits)
  next
    case False
    have "(\<exists>e. vdata s' k = Some e \<and> vdNodeID e = n \<and> \<not> vdIsActive e)
        \<longleftrightarrow> (\<exists>e. vdata s k = Some e \<and> vdNodeID e = n \<and> \<not> vdIsActive e)" for k
      using False assms(2,4) by (auto simp: assms(3) split: if_splits)
    with False show ?thesis by (auto simp: inactive_def split: option.splits if_splits)
  qed
qed

lemma known_nindex: "v_inv s \<Longrightarrow> known s n \<longleftrightarrow> nindex s n \<noteq> None"
  by (auto simp: v_inv_def known_def)

lemma AddValidator_world:
  assumes w: "w_inv marshal w" and now: "clock_ok now" and ok: "vdr_ok vdr"
  defines "v \<equiv> viValidationID vdr"
  shows "\<exists>w' e. st_AddValidator (w_env now) vdr w = Some (w', e) \<and> w_inv marshal w'
    \<and> (if vdata (w_state w) v \<noteq> None \<or> known (w_state w) (viNodeID vdr)
       then e = Some ErrAlreadyExists \<and> w' = w
       else e = None \<and> infos (w_state w') = (infos (w_state w))(v \<mapsto> vdr))"
proof (cases "addData v (new_data vdr) (w_state w)")
  case (Inl e)
  have inv: "v_inv (w_state w)" using w by (simp add: w_inv_def half_def s_inv_def)
  have "e = ErrAlreadyExists \<and> (vdata (w_state w) v \<noteq> None \<or> known (w_state w) (viNodeID vdr))"
    using Inl known_nindex [OF inv] by (auto simp: addData_def split: if_splits)
  with Inl w show ?thesis by (simp add: st_AddValidator_def v_def)
next
  case (Inr s1)
  have s: "s_inv marshal (w_state w)" and h: "half marshal w" and p: "pausedVdrs w = inactive (w_state w)"
    using w by (simp_all add: w_inv_def half_def)
  note A = addData_s_inv [OF s Inr [unfolded v_def] ok, folded v_def]
  let ?s2 = "mark True v s1"
  let ?w1 = "w_upd (\<lambda>_. ?s2) w"
  have h1: "half marshal ?w1" using A(1,3) h by (intro half_upd) (simp_all add: half_def)
  have "known (w_state ?w1) (viNodeID vdr)" using A(2) by (auto simp: known_def)
  from call_pauses(2) [OF h1 now this, of 0 v "viStartTimestamp vdr" "viIsActive vdr"]
  obtain w' where w': "w_call now 0 (EvValidatorAdded v (viNodeID vdr) (viStartTimestamp vdr) (viIsActive vdr)) ?w1 = Some w'"
      "half marshal w'" "touched ?s2 (w_state w')"
      "pausedVdrs w' = (if viIsActive vdr then pausedVdrs w else insert (viNodeID vdr) (pausedVdrs w))"
    by auto
  have "w_inv marshal w'"
    using w'(2,4) p touched_inactive [OF w'(3)] inactive_insert [OF A(4,2)] by (simp add: w_inv_def)
  moreover have "infos (w_state w') = (infos (w_state w))(v \<mapsto> vdr)"
    unfolding touched_infos [OF w'(3)] using A(2) by (simp add: infos_def fun_eq_iff)
  moreover have "st_AddValidator (w_env now) vdr w = Some (w', None)"
    using Inr w'(1) notify_all_one [of ?w1 now] h1 by (simp add: st_AddValidator_def v_def half_def)
  moreover have "vdata (w_state w) v = None" "nindex (w_state w) (viNodeID vdr) = None"
    using Inr by (auto simp: addData_def split: if_splits)
  moreover from this(2) have "\<not> known (w_state w) (viNodeID vdr)"
    using s by (simp add: s_inv_def known_nindex)
  ultimately show ?thesis by auto
qed

lemma mutate_s_inv:
  assumes s: "s_inv marshal s" and d: "vdata s vID = Some d"
    and f: "\<And>d. vdNodeID (f d) = vdNodeID d" "\<And>d. validationID (f d) = validationID d" "\<And>d. d_ok d \<Longrightarrow> d_ok (f d)"
  shows "s_inv marshal (mark True vID (mutate vID f s))" "vdata (mutate vID f s) = (vdata s)(vID \<mapsto> f d)"
    "slisteners (mutate vID f s) = slisteners s"
proof -
  show data: "vdata (mutate vID f s) = (vdata s)(vID \<mapsto> f d)" "slisteners (mutate vID f s) = slisteners s"
    by (simp_all add: mutate_def d)
  have "tracked marshal (mark True vID (mutate vID f s))"
    by (rule tracked_change [of marshal s vID]) (use s d in \<open>simp_all add: s_inv_def mutate_def\<close>)
  moreover have "v_inv (mutate vID f s)" using s f by (intro mutate_v_inv) (simp_all add: s_inv_def)
  moreover have "d_ok e \<and> length k = 32" if "vdata (mutate vID f s) k = Some e" for k e
    using that s d f(3) by (auto simp: data(1) s_inv_def split: if_splits)
  ultimately show "s_inv marshal (mark True vID (mutate vID f s))" by (simp add: s_inv_def)
qed

lemma d_ok_fields: "d_ok d \<Longrightarrow> d_ok (d\<lparr>vdIsActive := b\<rparr>)" "d_ok d \<Longrightarrow> d_ok (d\<lparr>vdWeight := x\<rparr>)"
  by (simp_all add: d_ok_def getStartTime_def getLastUpdated_def)

text \<open>Setting the status of a validator and telling the listener, in \<open>SetStatus\<close> and \<open>UpdateValidator\<close>.\<close>

lemma status_world:
  fixes active :: bool
  assumes w: "w_inv marshal w" and now: "clock_ok now" and d: "vdata (w_state w) vID = Some d"
  defines "w1 \<equiv> w_upd (\<lambda>s. mark True vID (mutate vID (\<lambda>d. d\<lparr>vdIsActive := active\<rparr>) s)) w"
  shows "\<exists>w'. notify_all (w_env now) (EvValidatorStatusUpdated vID (vdNodeID d) active) w1 = Some w'
    \<and> w_inv marshal w' \<and> infos (w_state w') = (infos (w_state w))(vID \<mapsto> (info_of d)\<lparr>viIsActive := active\<rparr>)"
proof -
  have s: "s_inv marshal (w_state w)" and h: "half marshal w" and p: "pausedVdrs w = inactive (w_state w)"
    using w by (simp_all add: w_inv_def half_def)
  have inv: "v_inv (w_state w)" using s by (simp add: s_inv_def)
  note M = mutate_s_inv [OF s d, of "\<lambda>d. d\<lparr>vdIsActive := active\<rparr>"]
  have data: "vdata (w_state w1) = (vdata (w_state w))(vID \<mapsto> d\<lparr>vdIsActive := active\<rparr>)"
    using M(2) by (simp add: w1_def d_ok_fields)
  have h1: "half marshal w1"
    unfolding w1_def using h M(1,3) by (intro half_upd) (simp_all add: half_def d_ok_fields)
  have "known (w_state w1) (vdNodeID d)" by (auto simp: known_def data)
  from call_pauses(1) [OF h1 now this, of 0 vID active] obtain w' where
      w': "w_call now 0 (EvValidatorStatusUpdated vID (vdNodeID d) active) w1 = Some w'" "half marshal w'"
      "touched (w_state w1) (w_state w')"
      "pausedVdrs w' = (if active then pausedVdrs w1 - {vdNodeID d} else insert (vdNodeID d) (pausedVdrs w1))"
    by blast
  have "pausedVdrs w1 = inactive (w_state w)" using p by (simp add: w1_def)
  with w'(2,4) have "w_inv marshal w'"
    using touched_inactive [OF w'(3)] inactive_change [OF inv d data] by (auto simp: w_inv_def)
  moreover have "infos (w_state w') = (infos (w_state w))(vID \<mapsto> (info_of d)\<lparr>viIsActive := active\<rparr>)"
    unfolding touched_infos [OF w'(3)] by (simp add: infos_def data fun_eq_iff info_of_def)
  ultimately show ?thesis using w'(1) notify_all_one [of w1 now] h1 by (simp add: half_def)
qed

lemma SetStatus_world:
  assumes "w_inv marshal w" "clock_ok now"
  shows "\<exists>w' e. st_SetStatus (w_env now) vID active w = Some (w', e) \<and> w_inv marshal w'
    \<and> (case infos (w_state w) vID of
         None \<Rightarrow> e = Some VErrNotFound \<and> w' = w
       | Some i \<Rightarrow> e = None \<and> infos (w_state w') = (infos (w_state w))(vID \<mapsto> i\<lparr>viIsActive := active\<rparr>))"
proof (cases "vdata (w_state w) vID")
  case None
  then show ?thesis using assms by (simp add: st_SetStatus_def infos_def)
next
  case (Some d)
  from status_world [OF assms Some, of active] Some show ?thesis
    by (auto simp: st_SetStatus_def infos_def)
qed

lemma delData_v_inv:
  assumes "v_inv s" "vdata s k = Some d"
  shows "v_inv (s\<lparr>vdata := (vdata s)(k := None), nindex := (nindex s)(vdNodeID d := None)\<rparr>)"
proof -
  have 1: "nindex s n = Some j \<longleftrightarrow> (\<exists>e. vdata s j = Some e \<and> vdNodeID e = n)" for n j
    using assms(1) by (simp add: v_inv_def)
  have 2: "j = k" if "vdata s j = Some e" "vdNodeID e = vdNodeID d" for j e
    using v_inv_unique [OF assms(1) that(1) assms(2) that(2)] .
  have 3: "validationID e = j" if "vdata s j = Some e" for j e
    using assms(1) that by (simp add: v_inv_def)
  let ?s = "s\<lparr>vdata := (vdata s)(k := None), nindex := (nindex s)(vdNodeID d := None)\<rparr>"
  have "nindex ?s n = Some j \<longleftrightarrow> (\<exists>e. vdata ?s j = Some e \<and> vdNodeID e = n)" for n j
  proof (cases "n = vdNodeID d")
    case True
    then show ?thesis using 2 [of j] by auto
  next
    case False
    then show ?thesis using 1 [of n j] assms(2) by (cases "j = k") auto
  qed
  moreover have "validationID e = j" if "vdata ?s j = Some e" for j e
    using that 3 [of j e] by (simp split: if_splits)
  ultimately show ?thesis unfolding v_inv_def by blast
qed

lemma DeleteValidator_world:
  assumes w: "w_inv marshal w"
  shows "\<exists>w' e. st_DeleteValidator (w_env now) vID w = Some (w', e) \<and> w_inv marshal w'
    \<and> infos (w_state w') = (infos (w_state w))(vID := None)
    \<and> (e = None \<longleftrightarrow> infos (w_state w) vID \<noteq> None)
    \<and> vdata (w_state w') = (vdata (w_state w))(vID := None)"
proof (cases "vdata (w_state w) vID")
  case None
  then show ?thesis using w by (simp add: st_DeleteValidator_def infos_def fun_eq_iff)
next
  case (Some d)
  have s: "s_inv marshal (w_state w)" and h: "half marshal w" and p: "pausedVdrs w = inactive (w_state w)"
    using w by (simp_all add: w_inv_def half_def)
  have inv: "v_inv (w_state w)" and id: "validationID d = vID" using s Some by (simp_all add: s_inv_def v_inv_def)
  let ?f = "\<lambda>s. mark False (validationID d)
      (s\<lparr>vdata := (vdata s)(validationID d := None), nindex := (nindex s)(vdNodeID d := None)\<rparr>)"
  let ?w1 = "w_upd ?f w"
  have data: "vdata (w_state ?w1) = (vdata (w_state w))(vID := None)" by (simp add: id)
  have "v_inv (?f (w_state w))" using delData_v_inv [OF inv Some] by (simp add: id)
  moreover have "tracked marshal (?f (w_state w))"
    by (rule tracked_change [of marshal "w_state w" vID]) (use s in \<open>simp_all add: s_inv_def id\<close>)
  ultimately have "s_inv marshal (?f (w_state w))" using s by (auto simp: s_inv_def split: if_splits)
  then have h1: "half marshal ?w1" using h by (intro half_upd) (simp_all add: half_def)
  from call_removed [OF h1, of now 0 vID "vdNodeID d"] obtain w' where
      w': "w_call now 0 (EvValidatorRemoved vID (vdNodeID d)) ?w1 = Some w'" "half marshal w'"
      "w_state w' = w_state ?w1" "pausedVdrs w' = pausedVdrs w - {vdNodeID d}"
    by auto
  have "w_inv marshal w'"
    using w'(2,4) p inactive_change [OF inv Some data] by (simp add: w_inv_def w'(3))
  moreover have "st_DeleteValidator (w_env now) vID w = Some (w', None)"
    using Some w'(1) notify_all_one [of ?w1 now] h1 by (simp add: st_DeleteValidator_def half_def)
  ultimately show ?thesis using Some data by (simp add: w'(3) infos_def fun_eq_iff)
qed

text \<open>\<open>UpdateValidator\<close> marks the validator after telling the listener; the order makes no difference.\<close>

lemma getData_mark [simp]: "getData (mark b v s) n = getData s n"
  by (simp add: getData_def split: option.split)

lemma SetUptime_mark: "st_SetUptime (mark True v s) n up t = apfst (mark True v) (st_SetUptime s n up t)"
proof (cases "getData s n")
  case (Inr r)
  then show ?thesis
    by (cases r, cases "v = validationID (snd r)", simp_all add: st_SetUptime_def)
      (simp_all add: mark_def fun_upd_twist)
qed (simp add: st_SetUptime_def)

lemma GetUptime_mark: "st_GetUptime (mark True v s) n = st_GetUptime s n"
  by (simp add: st_GetUptime_def)

definition um_mark :: "ids_id \<Rightarrow> vstate uptime_manager \<Rightarrow> vstate uptime_manager" where
  "um_mark v m = m\<lparr>ustate := mark True v (ustate m)\<rparr>"

lemma update_mark:
  "um_updateUptime st_GetUptime st_SetUptime now n (um_mark v m)
    = apfst (um_mark v) (um_updateUptime st_GetUptime st_SetUptime now n m)"
proof -
  have "um_CalculateUptime st_GetUptime now (um_mark v m) n = um_CalculateUptime st_GetUptime now m n"
    by (simp add: um_CalculateUptime_def um_mark_def GetUptime_mark split: sum.split)
  then show ?thesis
    by (simp add: um_updateUptime_def split_def um_mark_def SetUptime_mark split: sum.split)
qed

lemma Disconnect_mark:
  "um_Disconnect st_GetUptime st_SetUptime now n (um_mark v m)
    = apfst (um_mark v) (um_Disconnect st_GetUptime st_SetUptime now n m)"
  by (auto simp: um_Disconnect_def update_mark split_def Let_def) (simp_all add: um_mark_def)

lemma status_call_mark:
  "w_call now l (EvValidatorStatusUpdated vID n active) (w_upd (mark True v) w)
    = map_option (w_upd (mark True v)) (w_call now l (EvValidatorStatusUpdated vID n active) w)"
proof -
  have upd: "w_upd (mark True v) u = u\<lparr>inner := um_mark v (inner u)\<rparr>" for u
    by (simp add: w_upd_def um_mark_def)
  have con: "um_IsConnected (um_mark v m) n = um_IsConnected m n" "um_Connect now n (um_mark v m) = um_mark v (um_Connect now n m)" for m
    by (simp_all add: um_IsConnected_def um_mark_def um_Connect_def)
  show ?thesis
    by (auto simp: pm_OnValidatorStatusUpdated_def pm_resume_def pm_pause_def upd con Disconnect_mark Let_def
        split_def split: option.split)
qed

lemma weight_world:
  fixes x :: uint64
  assumes w: "w_inv marshal w" and d: "vdata (w_state w) vID = Some d"
  defines "w' \<equiv> w_upd (\<lambda>s. mark True vID (mutate vID (\<lambda>d. d\<lparr>vdWeight := x\<rparr>) s)) w"
  shows "w_inv marshal w' \<and> infos (w_state w') = (infos (w_state w))(vID \<mapsto> (info_of d)\<lparr>viWeight := x\<rparr>)"
proof -
  have s: "s_inv marshal (w_state w)" and h: "half marshal w" and p: "pausedVdrs w = inactive (w_state w)"
    using w by (simp_all add: w_inv_def half_def)
  have inv: "v_inv (w_state w)" using s by (simp add: s_inv_def)
  note M = mutate_s_inv [OF s d, of "\<lambda>d. d\<lparr>vdWeight := x\<rparr>"]
  have data: "vdata (w_state w') = (vdata (w_state w))(vID \<mapsto> d\<lparr>vdWeight := x\<rparr>)"
    using M(2) by (simp add: w'_def d_ok_fields)
  have "half marshal w'" unfolding w'_def using h M(1,3) by (intro half_upd) (simp_all add: half_def d_ok_fields)
  moreover have "inactive (w_state w') = inactive (w_state w)"
    using inactive_change [OF inv d data] inactive_change [OF inv d, of "w_state w" "Some d"] d
    by (simp add: fun_upd_idem)
  ultimately show ?thesis using p by (simp add: w_inv_def infos_def data fun_eq_iff info_of_def) (simp add: w'_def)
qed

definition same_constants :: "vdr_info \<Rightarrow> vdr_info \<Rightarrow> bool" where
  "same_constants i vdr \<longleftrightarrow> viValidationID i = viValidationID vdr \<and> viNodeID i = viNodeID vdr
     \<and> viIsL1Validator i = viIsL1Validator vdr \<and> viStartTimestamp i = viStartTimestamp vdr"

lemma constants_info: "constantsAreUnmodified d vdr = same_constants (info_of d) vdr"
  by (simp add: constantsAreUnmodified_def same_constants_def info_of_def)

lemma same_constants_upd:
  "same_constants i vdr \<Longrightarrow> i\<lparr>viIsActive := viIsActive vdr, viWeight := viWeight vdr\<rparr> = vdr"
  by (simp add: same_constants_def)

lemma infos_mark [simp]: "infos (mark b v s) = infos s"
  by (simp add: infos_def fun_eq_iff)

text \<open>The first half of \<open>UpdateValidator\<close>, marked at once.\<close>

lemma update_status_world:
  fixes active :: bool
  assumes w: "w_inv marshal w" and now: "clock_ok now" and d: "vdata (w_state w) v = Some d"
    and id: "validationID d = v"
  defines "u \<equiv> w_upd (mutate v (\<lambda>d. d\<lparr>vdIsActive := active\<rparr>)) w"
  shows "\<exists>w1. notify_all (w_env now) (EvValidatorStatusUpdated (validationID d) (vdNodeID d) active) u = Some w1
    \<and> w_inv marshal (w_upd (mark True v) w1)
    \<and> infos (w_state w1) = (infos (w_state w))(v \<mapsto> (info_of d)\<lparr>viIsActive := active\<rparr>)"
proof -
  let ?ev = "EvValidatorStatusUpdated v (vdNodeID d) active"
  have l: "slisteners (w_state u) = [0]"
    using w d by (simp add: u_def w_inv_def half_def mutate_def)
  have eq: "w_upd (mark True v) u = w_upd (\<lambda>s. mark True v (mutate v (\<lambda>d. d\<lparr>vdIsActive := active\<rparr>) s)) w"
    by (simp add: u_def w_upd_def)
  from status_world [OF w now d, of active, folded eq] obtain w' where w':
      "notify_all (w_env now) ?ev (w_upd (mark True v) u) = Some w'" "w_inv marshal w'"
      "infos (w_state w') = (infos (w_state w))(v \<mapsto> (info_of d)\<lparr>viIsActive := active\<rparr>)"
    by blast
  have "notify_all (w_env now) ?ev (w_upd (mark True v) u) = map_option (w_upd (mark True v)) (notify_all (w_env now) ?ev u)"
  proof -
    have l2: "slisteners (w_state (w_upd (mark True v) u)) = [0]" using l by simp
    show ?thesis unfolding notify_all_one [OF l] notify_all_one [OF l2] by (rule status_call_mark)
  qed
  with w'(1) obtain w1 where w1: "notify_all (w_env now) ?ev u = Some w1" "w' = w_upd (mark True v) w1"
    by (auto simp: map_option_eq_Some)
  have "infos (w_state w1) = infos (w_state w')" by (simp add: w1(2))
  then show ?thesis unfolding id using w1 w'(2,3) by (intro exI [of _ w1]) simp
qed

lemma w_upd_comp [simp]: "w_upd f (w_upd g w) = w_upd (\<lambda>s. f (g s)) w"
  by (simp add: w_upd_def)

lemma mutate_mark: "mutate v f (mark b v s) = mark b v (mutate v f s)"
  by (simp add: mutate_def mark_def split: option.split)

lemma mark_mark: "mark b v (mark b v s) = mark b v s"
  by (simp add: mark_def)

lemma reweigh_world:
  assumes "w_inv marshal (w_upd (mark True v) w1)" "vdata (w_state w1) v = Some d1"
    and "infos (w_state w1) = J(v \<mapsto> i)"
  shows "w_inv marshal (w_upd (mark True v) (if vdWeight d1 \<noteq> x then w_upd (mutate v (\<lambda>d. d\<lparr>vdWeight := x\<rparr>)) w1 else w1))
    \<and> infos (w_state (if vdWeight d1 \<noteq> x then w_upd (mutate v (\<lambda>d. d\<lparr>vdWeight := x\<rparr>)) w1 else w1)) = J(v \<mapsto> i\<lparr>viWeight := x\<rparr>)"
proof -
  have i: "info_of d1 = i" using fun_cong [OF assms(3), of v] assms(2) by (simp add: infos_def)
  let ?u = "w_upd (\<lambda>s. mark True v (mutate v (\<lambda>d. d\<lparr>vdWeight := x\<rparr>) s)) (w_upd (mark True v) w1)"
  have "vdata (w_state (w_upd (mark True v) w1)) v = Some d1" using assms(2) by simp
  from weight_world [OF assms(1) this, of x]
  have u: "w_inv marshal ?u" "infos (w_state ?u) = (infos (w_state w1))(v \<mapsto> i\<lparr>viWeight := x\<rparr>)"
    using i by simp_all
  have eq: "?u = w_upd (mark True v) (w_upd (mutate v (\<lambda>d. d\<lparr>vdWeight := x\<rparr>)) w1)"
    by (simp add: mutate_mark mark_mark)
  have "infos (w_state (w_upd (mutate v (\<lambda>d. d\<lparr>vdWeight := x\<rparr>)) w1)) = infos (w_state ?u)"
    by (simp add: eq del: w_upd_comp)
  with u eq assms(1,3) i show ?thesis by (auto simp: info_of_def mutate_mark)
qed

lemma UpdateValidator_world:
  fixes vdr :: vdr_info
  assumes w: "w_inv marshal w" and now: "clock_ok now"
  defines "v \<equiv> viValidationID vdr"
  shows "\<exists>w' e. st_UpdateValidator (w_env now) vdr w = Some (w', e) \<and> w_inv marshal w'
    \<and> (case infos (w_state w) v of
         None \<Rightarrow> e = Some VErrNotFound \<and> w' = w
       | Some i \<Rightarrow> if same_constants i vdr then e = None \<and> infos (w_state w') = (infos (w_state w))(v \<mapsto> vdr)
           else e = Some ErrImmutableField \<and> w' = w)"
proof (cases "vdata (w_state w) v")
  case None
  then show ?thesis using w by (simp add: st_UpdateValidator_def infos_def v_def)
next
  case (Some d)
  then have inf: "infos (w_state w) v = Some (info_of d)" by (simp add: infos_def)
  show ?thesis
  proof (cases "same_constants (info_of d) vdr")
    case False
    with Some w inf show ?thesis by (simp add: st_UpdateValidator_def constants_info v_def [symmetric])
  next
    case True
    have id: "validationID d = v" using w Some by (simp add: w_inv_def half_def s_inv_def v_inv_def)
    let ?x = "viWeight vdr"
    have full: "(info_of d)\<lparr>viIsActive := viIsActive vdr, viWeight := ?x\<rparr> = vdr" by (rule same_constants_upd [OF True])
    show ?thesis
    proof (cases "vdIsActive d = viIsActive vdr")
      case same: True
      have upd: "st_UpdateValidator (w_env now) vdr w =
          Some (if vdWeight d \<noteq> ?x then w_upd (mark True v) (w_upd (mutate v (\<lambda>d. d\<lparr>vdWeight := ?x\<rparr>)) w) else w, None)"
        using Some True same by (simp add: st_UpdateValidator_def constants_info v_def [symmetric] Let_def)
      show ?thesis
      proof (cases "vdWeight d = ?x")
        case True
        have "info_of d = vdr" using full same True by (simp add: info_of_def)
        with upd True w inf \<open>same_constants (info_of d) vdr\<close> show ?thesis by (simp add: fun_upd_idem)
      next
        case False
        have "(info_of d)\<lparr>viWeight := ?x\<rparr> = vdr" using full same by (simp add: info_of_def)
        with weight_world [OF w Some, of ?x] upd False inf \<open>same_constants (info_of d) vdr\<close> show ?thesis by simp
      qed
    next
      case diff: False
      obtain w1 where w1: "notify_all (w_env now) (EvValidatorStatusUpdated (validationID d) (vdNodeID d) (viIsActive vdr))
            (w_upd (mutate v (\<lambda>d. d\<lparr>vdIsActive := viIsActive vdr\<rparr>)) w) = Some w1"
          "w_inv marshal (w_upd (mark True v) w1)"
          "infos (w_state w1) = (infos (w_state w))(v \<mapsto> (info_of d)\<lparr>viIsActive := viIsActive vdr\<rparr>)"
        using update_status_world [OF w now Some id, of "viIsActive vdr"] by blast
      obtain d1 where d1: "vdata (w_state w1) v = Some d1"
        using fun_cong [OF w1(3), of v] by (auto simp: infos_def)
      let ?w2 = "if vdWeight d1 \<noteq> ?x then w_upd (mutate v (\<lambda>d. d\<lparr>vdWeight := ?x\<rparr>)) w1 else w1"
      have "st_UpdateValidator (w_env now) vdr w = Some (w_upd (mark True v) ?w2, None)"
        using Some True diff w1(1) d1 by (simp add: st_UpdateValidator_def constants_info v_def [symmetric] Let_def)
      moreover note reweigh_world [OF w1(2) d1 w1(3), of ?x]
      moreover have "infos (w_state (w_upd (mark True v) ?w2)) = infos (w_state ?w2)"
        by simp
      ultimately show ?thesis using full inf True by (auto simp del: w_upd_comp)
    qed
  qed
qed

end
