(* ===== verification/Validator_Runs.thy ===== *)
theory Validator_Runs
  imports Validator_World
begin

text \<open>
  Runs of the validator manager: the reachable worlds under the methods of the state and of the uptime
  manager, successful writes and restarts, and what holds in all of them; synchronisation with the
  current validator set (\<open>loadValidators\<close> in \<open>utils/evm/validators/manager.go\<close>).
\<close>

subsection \<open>Starting from disk\<close>

definition idle_at :: "vstate \<Rightarrow> ids_id \<Rightarrow> node_id \<Rightarrow> bool" where
  "idle_at s k n \<longleftrightarrow> (\<exists>d. vdata s k = Some d \<and> vdNodeID d = n \<and> \<not> vdIsActive d)"

lemma touched_idle:
  assumes "touched s s'"
  shows "idle_at s' k n \<longleftrightarrow> idle_at s k n"
proof -
  have "idle_at a k n" if t: "touched a b" and i: "idle_at b k n" for a b
  proof -
    from i obtain d where d: "vdata b k = Some d" "vdNodeID d = n" "\<not> vdIsActive d" by (auto simp: idle_at_def)
    from touched_Some [OF t d(1)] obtain e where "vdata a k = Some e" "ident d = ident e" .
    with d(2,3) show ?thesis using ident_fields(1,4) [of d e] by (simp add: idle_at_def)
  qed
  with assms touched_sym [OF assms] show ?thesis by blast
qed

lemma replay_world:
  assumes "half marshal w" "clock_ok now"
  shows "\<exists>w'. replay_to (w_env now) 0 order w = Some w' \<and> half marshal w' \<and> touched (w_state w) (w_state w')
    \<and> pausedVdrs w' = pausedVdrs w \<union> {n. \<exists>vID\<in>set order. idle_at (w_state w) vID n}"
  using assms(1)
proof (induction order arbitrary: w)
  case (Cons vID order)
  show ?case
  proof (cases "vdata (w_state w) vID")
    case None
    then have "{n. \<exists>k\<in>set (vID # order). idle_at (w_state w) k n} = {n. \<exists>k\<in>set order. idle_at (w_state w) k n}"
      by (auto simp: idle_at_def)
    with Cons.IH [OF Cons.prems] None show ?thesis by simp
  next
    case (Some d)
    then have "known (w_state w) (vdNodeID d)" by (auto simp: known_def)
    from call_pauses(2) [OF Cons.prems assms(2) this, of 0 vID "vdStartTime d" "vdIsActive d"]
    obtain w1 where w1: "w_call now 0 (EvValidatorAdded vID (vdNodeID d) (vdStartTime d) (vdIsActive d)) w = Some w1"
        "half marshal w1" "touched (w_state w) (w_state w1)"
        "pausedVdrs w1 = (if vdIsActive d then pausedVdrs w else insert (vdNodeID d) (pausedVdrs w))"
      by blast
    from Cons.IH [OF w1(2)] obtain w' where w': "replay_to (w_env now) 0 order w1 = Some w'" "half marshal w'"
        "touched (w_state w1) (w_state w')" "pausedVdrs w' = pausedVdrs w1 \<union> {n. \<exists>k\<in>set order. idle_at (w_state w) k n}"
      by (auto simp: touched_idle [OF w1(3)])
    have "{n. \<exists>k\<in>set (vID # order). idle_at (w_state w) k n} =
        (if vdIsActive d then {} else {vdNodeID d}) \<union> {n. \<exists>k\<in>set order. idle_at (w_state w) k n}"
      using Some by (auto simp: idle_at_def)
    with w1 w' Some touched_trans [OF w1(3) w'(3)] show ?thesis by simp
  qed
qed (simp add: half_def)

lemma s_inv_wf:
  assumes "s_inv marshal s"
  shows "all_wf s"
proof -
  have "wf_data d" if "d_ok d" "length (validationID d) = 32" for d
    using that era_diff [of "getLastUpdated d" "getStartTime d"]
    by (auto simp: d_ok_def wf_data_def credited_def)
  with assms show ?thesis by (auto simp: all_wf_def s_inv_def v_inv_def)
qed

lemma v_inv_nindex:
  assumes "v_inv t" "v_inv s" "vdata t = vdata s"
  shows "nindex t = nindex s"
proof
  fix n
  have "nindex t n = Some k \<longleftrightarrow> nindex s n = Some k" for k
    using assms by (simp add: v_inv_def)
  then show "nindex t n = nindex s n" by (metis not_Some_eq)
qed

lemma NewState_reload:
  assumes codec: "codec_ok marshal unmarshal" and s: "s_inv marshal s" "updatedData s = Map.empty"
    and entries: "distinct (map fst entries)" "set entries = {(k, v). vdb s k = Some v}"
  shows "\<exists>t. NewState unmarshal (vdb s) entries = Inr t \<and> s_inv marshal t \<and> vdata t = vdata s
    \<and> nindex t = nindex s \<and> updatedData t = Map.empty \<and> vdb t = vdb s \<and> slisteners t = []"
proof -
  let ?t0 = "\<lparr>vdata = Map.empty, nindex = Map.empty, updatedData = Map.empty, vdb = vdb s, slisteners = []\<rparr>"
  have inv: "v_inv s" using s(1) by (simp add: s_inv_def)
  have db: "vdb s k = map_option (enc marshal) (vdata s k)" for k
    using s by (simp add: s_inv_def tracked_def)
  have wf: "all_wf s" by (rule s_inv_wf [OF s(1)])
  have "\<exists>t'. loadFromDisk unmarshal entries ?t0 = Inr t' \<and> v_inv t'
    \<and> (\<forall>k. vdata t' k = (if k \<in> fst ` set entries then vdata s k else vdata ?t0 k))
    \<and> updatedData t' = updatedData ?t0 \<and> vdb t' = vdb ?t0 \<and> slisteners t' = slisteners ?t0"
    by (rule load_ok [OF codec inv wf _ entries(1)])
      (use s(1) in \<open>auto simp: s_inv_def entries(2) db map_option_eq_Some v_inv_def\<close>)
  then obtain t where t: "loadFromDisk unmarshal entries ?t0 = Inr t" "v_inv t"
      "\<forall>k. vdata t k = (if k \<in> fst ` set entries then vdata s k else None)"
      "updatedData t = Map.empty" "vdb t = vdb s" "slisteners t = []"
    by auto
  have "vdata t k = vdata s k" for k
    using t(3) by (force simp: entries(2) db image_iff)
  then have data: "vdata t = vdata s" by (rule ext)
  have "nindex t = nindex s" by (rule v_inv_nindex [OF t(2) inv data])
  with data have "s_inv marshal t \<and> nindex t = nindex s"
    using t s(1) by (auto simp: s_inv_def tracked_def db)
  with t data show ?thesis by (simp add: NewState_def)
qed

lemma NewManager_world:
  assumes t: "NewState unmarshal db entries = Inr t" "s_inv marshal t" "slisteners t = []"
    and order: "set order = dom (vdata t)" and now: "clock_ok now"
  shows "\<exists>m. evm_NewManager unmarshal db entries order now = Some (Inr m) \<and> w_inv marshal (mworld m)
    \<and> touched (t\<lparr>slisteners := [0]\<rparr>) (w_state (mworld m)) \<and> \<not> mlog m"
proof -
  let ?w = "w_upd (\<lambda>s. s\<lparr>slisteners := slisteners s @ [0]\<rparr>) (pm_New (um_New t))"
  have st: "w_state ?w = t\<lparr>slisteners := [0]\<rparr>"
    using t(3) by (simp add: w_state_def pm_New_def um_New_def w_upd_def)
  have "s_inv marshal (t\<lparr>slisteners := [0]\<rparr>)"
    using t(2) by (simp add: s_inv_def v_inv_def tracked_def cong: option.case_cong)
  moreover have "pm_inv ?w" using pm_inv_New [of t] by simp
  ultimately have "half marshal ?w" using st by (simp add: half_def)
  from replay_world [OF this now, of order] obtain w where w: "replay_to (w_env now) 0 order ?w = Some w"
      "half marshal w" "touched (w_state ?w) (w_state w)"
      "pausedVdrs w = pausedVdrs ?w \<union> {n. \<exists>vID\<in>set order. idle_at (w_state ?w) vID n}"
    by blast
  have "pausedVdrs ?w = {}" by (simp add: pm_New_def)
  then have "pausedVdrs w = inactive (w_state ?w)"
    using w(4) order unfolding st by (auto simp: inactive_def idle_at_def)
  then have "w_inv marshal w" using w(2) touched_inactive [OF w(3)] by (simp add: w_inv_def)
  then show ?thesis using t(1) w(1,3) st by (simp add: evm_NewManager_def st_RegisterListener_def)
qed

subsection \<open>Reachable worlds\<close>

datatype w_op = Connect node_id | Disconnect node_id | StartTracking "node_id list" | StopTracking "node_id list"
  | AddValidator vdr_info | UpdateValidator vdr_info | DeleteValidator ids_id | SetStatus ids_id bool

fun w_exec :: "gotime \<Rightarrow> w_op \<Rightarrow> world \<Rightarrow> (world \<times> (uptime_err + vstate_err) option) option" where
  "w_exec now (Connect n) w = Some (pm_Connect now n w, None)"
| "w_exec now (Disconnect n) w = Some (apsnd (map_option Inl) (pm_Disconnect st_GetUptime st_SetUptime now n w))"
| "w_exec now (StartTracking ns) w = Some (apsnd (map_option Inl) (pm_StartTracking st_GetUptime st_SetUptime now ns w))"
| "w_exec now (StopTracking ns) w = Some (apsnd (map_option Inl) (pm_StopTracking st_GetUptime st_SetUptime now ns w))"
| "w_exec now (AddValidator vdr) w = map_option (apsnd (map_option Inr)) (st_AddValidator (w_env now) vdr w)"
| "w_exec now (UpdateValidator vdr) w = map_option (apsnd (map_option Inr)) (st_UpdateValidator (w_env now) vdr w)"
| "w_exec now (DeleteValidator vID) w = map_option (apsnd (map_option Inr)) (st_DeleteValidator (w_env now) vID w)"
| "w_exec now (SetStatus vID b) w = map_option (apsnd (map_option Inr)) (st_SetStatus (w_env now) vID b w)"

fun op_ok :: "w_op \<Rightarrow> bool" where
  "op_ok (AddValidator vdr) = vdr_ok vdr"
| "op_ok _ = True"

lemma apsnd_result: "Q (fst p) \<Longrightarrow> \<exists>w' e. Some (apsnd f p) = Some (w', e) \<and> Q w'"
  by (cases p) simp

lemma w_exec_inv:
  assumes "w_inv marshal w" "clock_ok now" "op_ok op"
  shows "\<exists>w' e. w_exec now op w = Some (w', e) \<and> w_inv marshal w'"
proof (cases op)
  case (AddValidator vdr)
  then show ?thesis using AddValidator_world [OF assms(1,2), of vdr] assms(3) by force
next
  case (UpdateValidator vdr)
  then show ?thesis using UpdateValidator_world [OF assms(1,2), of vdr] by force
next
  case (DeleteValidator vID)
  then show ?thesis using DeleteValidator_world [OF assms(1), of now vID] by force
next
  case (SetStatus vID b)
  then show ?thesis using SetStatus_world [OF assms(1,2), of vID b] by force
next
  case (Disconnect n)
  then show ?thesis unfolding Disconnect w_exec.simps by (intro apsnd_result tracking_world [OF assms(1,2)])
next
  case (StartTracking ns)
  then show ?thesis unfolding StartTracking w_exec.simps by (intro apsnd_result tracking_world [OF assms(1,2)])
next
  case (StopTracking ns)
  then show ?thesis unfolding StopTracking w_exec.simps by (intro apsnd_result tracking_world [OF assms(1,2)])
qed (use tracking_world(1) [OF assms(1,2)] in simp)

text \<open>
  A run starts on an empty store. A successful \<open>WriteState\<close> visits every marked validator; a
  restart opens the store a written state left behind, in whatever order the store is visited.
\<close>

inductive w_reach :: "marshaller \<Rightarrow> unmarshaller \<Rightarrow> world \<Rightarrow> bool" for marshal unmarshal where
  start: "evm_NewManager unmarshal Map.empty [] [] now = Some (Inr m) \<Longrightarrow> clock_ok now
    \<Longrightarrow> w_reach marshal unmarshal (mworld m)"
| exec: "\<lbrakk>w_reach marshal unmarshal w; clock_ok now; op_ok op; w_exec now op w = Some (w', e)\<rbrakk>
    \<Longrightarrow> w_reach marshal unmarshal w'"
| written: "\<lbrakk>w_reach marshal unmarshal w; distinct order; set order = dom (updatedData (w_state w));
     \<And>b. wr b = None; st_WriteState marshal wr order (w_state w) = (s, None)\<rbrakk>
    \<Longrightarrow> w_reach marshal unmarshal (w_upd (\<lambda>_. s) w)"
| restart: "\<lbrakk>w_reach marshal unmarshal w; updatedData (w_state w) = Map.empty;
     distinct (map fst entries); set entries = {(k, v). vdb (w_state w) k = Some v};
     set order = dom (vdata (w_state w)); clock_ok now;
     evm_NewManager unmarshal (vdb (w_state w)) entries order now = Some (Inr m)\<rbrakk>
    \<Longrightarrow> w_reach marshal unmarshal (mworld m)"

lemma WriteState_world:
  assumes "codec_ok marshal unmarshal" "w_inv marshal w" "distinct order" "set order = dom (updatedData (w_state w))"
    "\<And>b. wr b = None"
  shows "\<exists>s. st_WriteState marshal wr order (w_state w) = (s, None) \<and> w_inv marshal (w_upd (\<lambda>_. s) w)
    \<and> vdata s = vdata (w_state w) \<and> updatedData s = Map.empty \<and> vdb s = (\<lambda>k. map_option (enc marshal) (vdata s k))"
proof -
  have s: "s_inv marshal (w_state w)" using assms(2) by (simp add: w_inv_def half_def)
  let ?s = "(w_state w)\<lparr>updatedData := Map.empty, vdb := (\<lambda>vID. map_option (enc marshal) (vdata (w_state w) vID))\<rparr>"
  have W: "st_WriteState marshal wr order (w_state w) = (?s, None)"
    by (rule WriteState_ok [OF assms(1) s_inv_wf [OF s] _ assms(3-5)]) (use s in \<open>simp add: s_inv_def\<close>)
  have "s_inv marshal ?s" using s by (simp add: s_inv_def v_inv_def tracked_def)
  moreover have "inactive ?s = inactive (w_state w)" by (simp add: inactive_def)
  ultimately have "w_inv marshal (w_upd (\<lambda>_. ?s) w)" using assms(2) by (simp add: w_inv_def half_def)
  with W show ?thesis by auto
qed

lemma empty_s_inv: "NewState unmarshal Map.empty [] = Inr t \<Longrightarrow> s_inv marshal t \<and> slisteners t = [] \<and> vdata t = Map.empty"
  by (auto simp: NewState_def s_inv_def v_inv_def tracked_def)

lemma reach_w_inv:
  assumes "w_reach marshal unmarshal w" "codec_ok marshal unmarshal"
  shows "w_inv marshal w"
  using assms(1)
proof (induction rule: w_reach.induct)
  case (start now m)
  obtain t where t: "NewState unmarshal Map.empty [] = Inr t" by (simp add: NewState_def)
  note e = empty_s_inv [OF t, of marshal]
  from NewManager_world [of unmarshal Map.empty "[]" t marshal "[]" now] t e start show ?case by auto
next
  case (exec w now op w' e)
  from w_exec_inv [OF exec.IH exec.hyps(2,3)] exec.hyps(4) show ?case by auto
next
  case (written w order wr s)
  from WriteState_world [where wr = wr, OF assms(2) written.IH written.hyps(2-4)] written.hyps(5) show ?case by auto
next
  case (restart w entries order now m)
  have s: "s_inv marshal (w_state w)" using restart.IH by (simp add: w_inv_def half_def)
  from NewState_reload [OF assms(2) s restart.hyps(2-4)] obtain t where
      t: "NewState unmarshal (vdb (w_state w)) entries = Inr t" "s_inv marshal t" "vdata t = vdata (w_state w)" "slisteners t = []"
    by blast
  from NewManager_world [OF t(1,2,4) _ restart.hyps(6), of order] restart.hyps(5,7) t(3) show ?case by auto
qed

subsection \<open>An example run\<close>

text \<open>A run used by the witnesses: a fresh manager, then one validator, not active, added.\<close>

definition demo_vdr :: vdr_info where
  "demo_vdr = \<lparr>viValidationID = replicate 32 1, viNodeID = replicate 20 2, viWeight = 5, viStartTimestamp = 100,
     viIsActive = False, viIsL1Validator = True\<rparr>"

definition demo_now :: gotime where
  "demo_now = 1000 * second"

definition demo_start :: world where
  "demo_start = pm_New (um_New \<lparr>vdata = Map.empty, nindex = Map.empty, updatedData = Map.empty, vdb = Map.empty,
     slisteners = [0]\<rparr>)"

definition demo_world :: world where
  "demo_world = demo_start\<lparr>pausedVdrs := {viNodeID demo_vdr}, inner := um_New
     \<lparr>vdata = [viValidationID demo_vdr \<mapsto> new_data demo_vdr], nindex = [viNodeID demo_vdr \<mapsto> viValidationID demo_vdr],
      updatedData = [viValidationID demo_vdr \<mapsto> True], vdb = Map.empty, slisteners = [0]\<rparr>\<rparr>"

lemma demo_clock: "clock_ok demo_now"
  by (simp add: clock_ok_def demo_now_def whole_def era_def second_def)

lemma demo_vdr_ok: "vdr_ok demo_vdr"
  by (simp add: vdr_ok_def demo_vdr_def era_def second_def)

lemma demo_manager:
  "evm_NewManager unmarshal Map.empty [] [] now = Some (Inr \<lparr>mlog = False, ValidatorState = False, mworld = demo_start\<rparr>)"
  by (simp add: evm_NewManager_def NewState_def st_RegisterListener_def demo_start_def w_upd_def pm_New_def um_New_def)

lemma demo_start_reach: "w_reach marshal unmarshal demo_start"
  using w_reach.start [OF demo_manager demo_clock] by simp

lemma demo_add: "w_exec demo_now (AddValidator demo_vdr) demo_start = Some (demo_world, None)"
  by (simp add: st_AddValidator_def addData_def demo_start_def demo_world_def w_state_def pm_New_def um_New_def
      notify_all_def w_upd_def mark_def pm_OnValidatorAdded_def pm_pause_def um_IsConnected_def demo_vdr_def Let_def)

lemma demo_world_reach: "w_reach marshal unmarshal demo_world"
  by (rule w_reach.exec [OF demo_start_reach demo_clock _ demo_add]) (simp add: demo_vdr_ok)

subsection \<open>Paused validators and connections\<close>

lemma w_inv_conn: "w_inv marshal w \<Longrightarrow> um_IsConnected (inner w) n \<longleftrightarrow> pm_IsConnected w n \<and> \<not> pm_IsPaused w n"
  by (auto simp: w_inv_def half_def pm_inv_def um_IsConnected_def pm_IsConnected_def pm_IsPaused_def)

lemma Disconnect_outcome_world:
  assumes "w_inv marshal w" "clock_ok now"
  shows "snd (pm_Disconnect st_GetUptime st_SetUptime now n w) =
    (if um_IsConnected (inner w) n \<and> startedTracking (inner w) \<and> st_GetValidationID (w_state w) n = Inl VErrNotFound
     then Some DbErrNotFound else None)"
proof -
  have s: "s_inv marshal (ustate (inner w))" using assms(1) by (simp add: w_inv_def half_def w_state_def)
  then have v: "v_inv (ustate (inner w))" by (simp add: s_inv_def)
  have k: "st_GetValidationID (w_state w) n = Inl VErrNotFound \<longleftrightarrow> \<not> known (ustate (inner w)) n"
    by (simp add: known_nindex [OF v] st_GetValidationID_def w_state_def split: option.split)
  have "snd (um_updateUptime st_GetUptime st_SetUptime now n (inner w)) =
      (if known (ustate (inner w)) n then None else Some DbErrNotFound)"
    using update_known_world(1) [OF s assms(2)] update_unknown_world [OF v] by simp
  then show ?thesis
    using w_inv_conn [OF assms(1), of n]
    by (auto simp: k pm_Disconnect_def um_Disconnect_def Let_def split_def pm_IsPaused_def)
qed

text \<open>
  C8. In every reachable world a node is paused exactly when it is the node of a validator that is not
  active, the uptime manager counts a node as connected exactly when it is connected and not paused, and no
  method panics (the listeners never reach their nil logger), whatever the order of the operations and
  however often the manager was restarted from disk.
\<close>

theorem paused_iff_inactive:
  assumes "w_reach marshal unmarshal w" "codec_ok marshal unmarshal" "clock_ok now" "op_ok op"
  shows "(pm_IsPaused w n \<longleftrightarrow> (\<exists>vID i. st_GetValidator (w_state w) vID = Inr i \<and> viNodeID i = n \<and> \<not> viIsActive i))
    \<and> (um_IsConnected (inner w) n \<longleftrightarrow> pm_IsConnected w n \<and> \<not> pm_IsPaused w n)
    \<and> w_exec now op w \<noteq> None"
proof -
  note inv = reach_w_inv [OF assms(1,2)]
  have "pm_IsPaused w n \<longleftrightarrow> (\<exists>vID i. st_GetValidator (w_state w) vID = Inr i \<and> viNodeID i = n \<and> \<not> viIsActive i)"
    using inv by (fastforce simp: w_inv_def pm_IsPaused_def inactive_def st_GetValidator_def split: option.splits)
  with w_inv_conn [OF inv] w_exec_inv [OF inv assms(3,4)] show ?thesis by auto
qed

text \<open>
  C34. Disconnecting a node in a reachable world fails in exactly one case: uptimes are being tracked and the
  connected node is not a validator. The manager means to ignore such nodes, but it compares the
  state's error with the \<open>ErrNotFound\<close> of another package, so the error is returned. The
  disconnection itself takes effect.
\<close>

theorem disconnect_outcome:
  assumes "w_reach marshal unmarshal w" "codec_ok marshal unmarshal" "clock_ok now"
  shows "case pm_Disconnect st_GetUptime st_SetUptime now n w of (w', e) \<Rightarrow>
      e = (if um_IsConnected (inner w) n \<and> startedTracking (inner w) \<and> st_GetValidationID (w_state w) n = Inl VErrNotFound
           then Some DbErrNotFound else None)
    \<and> \<not> pm_IsConnected w' n \<and> \<not> um_IsConnected (inner w') n"
proof -
  note inv = reach_w_inv [OF assms(1,2)]
  obtain w' e where r: "pm_Disconnect st_GetUptime st_SetUptime now n w = (w', e)" by fastforce
  then have "\<not> pm_IsConnected w' n"
    by (auto simp: pm_Disconnect_def pm_IsConnected_def Let_def split: if_splits prod.splits)
  moreover have "w_inv marshal w'" using tracking_world(2) [OF inv assms(3), of n] r by simp
  ultimately show ?thesis
    using w_inv_conn [of marshal w' n] Disconnect_outcome_world [OF inv assms(3), of n] r by simp
qed

lemma demo_track:
  "w_exec demo_now (StartTracking []) demo_start = Some (demo_start\<lparr>inner := (inner demo_start)\<lparr>startedTracking := True\<rparr>\<rparr>, None)"
  by (simp add: pm_StartTracking_def um_StartTracking_def demo_start_def pm_New_def um_New_def)

subsection \<open>Reported uptimes\<close>

text \<open>
  C12. In every reachable world the uptime reported for a validator is a non-negative duration, at most the
  time from its start to the reported update time, and at least what was stored; the stored update time never
  moves back. While uptimes are tracked, a validator that is not active gains nothing.
\<close>

theorem reported_uptime_bounded:
  assumes "w_reach marshal unmarshal (mworld m)" "codec_ok marshal unmarshal" "clock_ok now"
    and "vdata (w_state (mworld m)) vID = Some d"
  shows "\<exists>up last. GetValidatorAndUptime now m vID = Inr (info_of d, up, last)
    \<and> 0 \<le> up \<and> up \<le> last - getStartTime d \<and> UpDuration d \<le> up \<and> up - UpDuration d \<le> last - getLastUpdated d
    \<and> (last = getLastUpdated d \<or> last = now)
    \<and> (startedTracking (inner (mworld m)) \<and> \<not> vdIsActive d \<longrightarrow> up = UpDuration d)"
proof -
  let ?w = "mworld m"
  note inv = reach_w_inv [OF assms(1,2)]
  then have s: "s_inv marshal (w_state ?w)" by (simp add: w_inv_def half_def)
  then have v: "v_inv (w_state ?w)" by (simp add: s_inv_def)
  have get: "st_GetUptime (ustate (inner ?w)) (vdNodeID d) = Inr (UpDuration d, getLastUpdated d)"
    using st_GetUptime_Inr [OF v] assms(4) by (auto simp: w_state_def)
  have ok: "credited (getStartTime d) (UpDuration d, getLastUpdated d)" "era (getStartTime d)"
    using s_inv_d_ok [OF s assms(4)] by (simp_all add: d_ok_def)
  have now: "whole now" "now - getStartTime d < 2 ^ 63"
    using assms(3) ok(2) era_diff by (simp_all add: clock_ok_def)
  from get ok(1) now obtain up last where c: "um_CalculateUptime st_GetUptime now (inner ?w) (vdNodeID d) = Inr (up, last)"
      "credited (getStartTime d) (up, last)" "getLastUpdated d \<le> last" "UpDuration d \<le> up"
      "up - UpDuration d \<le> last - getLastUpdated d" "last = getLastUpdated d \<or> last = now"
    by (rule CalculateUptime_credited)
  have "up = UpDuration d" if t: "startedTracking (inner ?w)" and i: "\<not> vdIsActive d"
  proof -
    have "vdNodeID d \<in> inactive (w_state ?w)" using assms(4) i by (auto simp: inactive_def)
    then have "\<not> um_IsConnected (inner ?w) (vdNodeID d)"
      using w_inv_conn [OF inv] inv by (simp add: w_inv_def pm_IsPaused_def)
    then show ?thesis
      using c(1) t by (auto simp: um_CalculateUptime_def get um_IsConnected_def split: if_splits)
  qed
  moreover have "st_GetValidator (w_state ?w) vID = Inr (info_of d)"
    using assms(4) by (simp add: GetValidator_infos infos_def)
  moreover have "viNodeID (info_of d) = vdNodeID d" by (simp add: info_of_def)
  ultimately show ?thesis using c(1,2,4,5,6) by (simp add: GetValidatorAndUptime_def credited_def)
qed

subsection \<open>Writing and restarting\<close>

lemma replay_quiet:
  assumes "connections (inner w) = Map.empty"
  shows "\<exists>P. replay_to (w_env now) 0 order w = Some (w\<lparr>pausedVdrs := P\<rparr>)"
  using assms
proof (induction order arbitrary: w)
  case Nil
  show ?case by (intro exI [of _ "pausedVdrs w"]) simp
next
  case (Cons vID order)
  have "\<exists>P. w_call now 0 (EvValidatorAdded vID n st a) w = Some (w\<lparr>pausedVdrs := P\<rparr>)" for n st a
    using Cons.prems
    by (cases a) (auto simp: pm_OnValidatorAdded_def pm_pause_def um_IsConnected_def Let_def intro: exI [of _ "pausedVdrs w"])
  note call = this
  show ?case
  proof (cases "vdata (w_state w) vID")
    case None
    then show ?thesis using Cons by simp
  next
    case (Some d)
    from call obtain P where P: "w_call now 0 (EvValidatorAdded vID (vdNodeID d) (vdStartTime d) (vdIsActive d)) w = Some (w\<lparr>pausedVdrs := P\<rparr>)"
      by blast
    from Cons.IH [of "w\<lparr>pausedVdrs := P\<rparr>"] Cons.prems show ?thesis by (simp add: Some P del: w_call.simps)
  qed
qed


text \<open>
  C35. \<open>WriteState\<close> clears its marks while it builds the batch, so when the store refuses the batch
  the changes are forgotten: the error is returned, but a second \<open>WriteState\<close> on a healthy store reports
  success, writes nothing, and leaves on disk what was there before.
\<close>

theorem failed_write_forgets:
  assumes "w_reach marshal unmarshal w" "codec_ok marshal unmarshal"
    and "distinct marked" "set marked = dom (updatedData (w_state w))" "\<And>b. wr b = Some e"
  shows "\<exists>s. st_WriteState marshal wr marked (w_state w) = (s, Some (ErrDB e))
    \<and> vdb s = vdb (w_state w) \<and> vdata s = vdata (w_state w)
    \<and> updatedData s = Map.empty \<and> st_WriteState marshal (\<lambda>_. None) [] s = (s, None)"
proof -
  have s: "s_inv marshal (w_state w)" using reach_w_inv [OF assms(1,2)] by (simp add: w_inv_def half_def)
  then have m: "marks_right (w_state w)" by (intro tracked_marks [of marshal]) (simp add: s_inv_def)
  from write_loop_ok [OF assms(2) s_inv_wf [OF s] m assms(3), of NewBatch] assms(4) obtain b where
    "write_loop marshal marked (w_state w) NewBatch = ((w_state w)\<lparr>updatedData := updatedData (w_state w) |` (- set marked)\<rparr>, Inr b)"
    by auto
  moreover have "updatedData (w_state w) |` (- set marked) = Map.empty"
    using assms(4) by (auto simp: restrict_map_def domIff)
  ultimately show ?thesis by (simp add: st_WriteState_def assms(5) NewBatch_def)
qed

subsection \<open>Synchronising with the current validator set\<close>

text \<open>The deletions leave the validators that are also in the new set.\<close>

lemma load_delete_world:
  assumes "w_inv marshal w"
  shows "\<exists>w'. load_delete now new dels w = Some w' \<and> w_inv marshal w'
    \<and> infos (w_state w') = (\<lambda>k. if k \<in> set dels \<and> new k = None then None else infos (w_state w) k)"
  using assms
proof (induction dels arbitrary: w)
  case (Cons vID dels)
  show ?case
  proof (cases "new vID")
    case None
    from DeleteValidator_world [OF Cons.prems, of now vID] obtain w1 e where
      w1: "st_DeleteValidator (w_env now) vID w = Some (w1, e)" "w_inv marshal w1"
        "infos (w_state w1) = (infos (w_state w))(vID := None)" by blast
    from Cons.IH [OF w1(2)] w1 None show ?thesis by (auto simp: fun_eq_iff)
  next
    case (Some v)
    with Cons.IH [OF Cons.prems] show ?thesis by (auto simp: fun_eq_iff)
  qed
qed simp

text \<open>What a current validator set promises: valid entries, one per node.\<close>

definition set_ok :: "(ids_id \<rightharpoonup> cur_vdr) \<Rightarrow> bool" where
  "set_ok new \<longleftrightarrow> (\<forall>k v. new k = Some v \<longrightarrow> vdr_ok (cur_info k v))
     \<and> (\<forall>j k u v. new j = Some u \<and> new k = Some v \<and> cvNodeID u = cvNodeID v \<longrightarrow> j = k)"

text \<open>The entries known before and still present are described by the same constants.\<close>

definition constants_kept :: "(ids_id \<rightharpoonup> vdr_info) \<Rightarrow> (ids_id \<rightharpoonup> cur_vdr) \<Rightarrow> bool" where
  "constants_kept I new \<longleftrightarrow> (\<forall>k i v. I k = Some i \<and> new k = Some v \<longrightarrow> same_constants i (cur_info k v))"

lemma known_infos: "known s n \<longleftrightarrow> (\<exists>k i. infos s k = Some i \<and> viNodeID i = n)"
proof -
  have "viNodeID (info_of d) = vdNodeID d" for d by (simp add: info_of_def)
  then show ?thesis by (force simp: known_def infos_def map_option_eq_Some)
qed

lemma load_add_step:
  assumes w: "w_inv marshal w" and now: "clock_ok now" and ok: "set_ok new" "constants_kept (infos (w_state w)) new"
    and sub: "dom (infos (w_state w)) \<subseteq> dom new" and cur: "vID \<in> cur \<longleftrightarrow> infos (w_state w) vID \<noteq> None" and v: "new vID = Some v"
  obtains w' where "(if vID \<in> cur then st_UpdateValidator (w_env now) (cur_info vID v) w
      else st_AddValidator (w_env now) (cur_info vID v) w) = Some (w', None)" "w_inv marshal w'"
    "infos (w_state w') = (infos (w_state w))(vID \<mapsto> cur_info vID v)"
proof (cases "infos (w_state w) vID")
  case None
  have "\<not> known (w_state w) (viNodeID (cur_info vID v))"
  proof
    assume "known (w_state w) (viNodeID (cur_info vID v))"
    then obtain k i where k: "infos (w_state w) k = Some i" "viNodeID i = cvNodeID v"
      by (auto simp: known_infos cur_info_def)
    then obtain u where u: "new k = Some u" using sub by blast
    then have "cvNodeID u = cvNodeID v"
      using ok(2) k by (auto simp: constants_kept_def same_constants_def cur_info_def)
    then have "k = vID" using ok(1) u v by (auto simp: set_ok_def)
    with k None show False by simp
  qed
  moreover have "vdata (w_state w) vID = None" using None by (simp add: infos_def)
  moreover have "vdr_ok (cur_info vID v)" using ok(1) v by (simp add: set_ok_def)
  moreover have "viValidationID (cur_info vID v) = vID" by (simp add: cur_info_def)
  ultimately show ?thesis
    using AddValidator_world [OF w now, of "cur_info vID v"] None cur that by auto
next
  case (Some i)
  moreover have "same_constants i (cur_info vID v)" using ok(2) Some v by (simp add: constants_kept_def)
  moreover have "viValidationID (cur_info vID v) = vID" by (simp add: cur_info_def)
  ultimately show ?thesis
    using UpdateValidator_world [OF w now, of "cur_info vID v"] cur that by auto
qed

lemma same_constants_refl: "same_constants i i"
  by (simp add: same_constants_def)

lemma load_add_world:
  assumes "w_inv marshal w" "clock_ok now" "set_ok new" "constants_kept (infos (w_state w)) new"
    and "dom (infos (w_state w)) \<subseteq> dom new" "distinct adds"
    and "\<And>k. k \<in> set adds \<Longrightarrow> k \<in> cur \<longleftrightarrow> infos (w_state w) k \<noteq> None"
  shows "\<exists>w'. load_add now cur new adds w = Some (w', None) \<and> w_inv marshal w'
    \<and> infos (w_state w') = (\<lambda>k. if k \<in> set adds \<and> new k \<noteq> None then map_option (cur_info k) (new k) else infos (w_state w) k)"
  using assms
proof (induction adds arbitrary: w)
  case (Cons vID adds)
  show ?case
  proof (cases "new vID")
    case None
    have "k \<in> cur \<longleftrightarrow> infos (w_state w) k \<noteq> None" if "k \<in> set adds" for k using Cons.prems(7) that by simp
    from Cons.IH [OF Cons.prems(1-5) _ this] Cons.prems(6) None show ?thesis by (auto simp: fun_eq_iff)
  next
    case (Some v)
    from Cons.prems(7) have "vID \<in> cur \<longleftrightarrow> infos (w_state w) vID \<noteq> None" by simp
    from load_add_step [OF Cons.prems(1-5) this Some] obtain w1 where
      w1: "(if vID \<in> cur then st_UpdateValidator (w_env now) (cur_info vID v) w
          else st_AddValidator (w_env now) (cur_info vID v) w) = Some (w1, None)" "w_inv marshal w1"
        "infos (w_state w1) = (infos (w_state w))(vID \<mapsto> cur_info vID v)" .
    have kept: "constants_kept (infos (w_state w1)) new"
      using Cons.prems(4) Some by (auto simp: w1(3) constants_kept_def same_constants_refl)
    have sub: "dom (infos (w_state w1)) \<subseteq> dom new" using Cons.prems(5) Some by (auto simp: w1(3))
    have cur: "k \<in> cur \<longleftrightarrow> infos (w_state w1) k \<noteq> None" if "k \<in> set adds" for k
      using Cons.prems(6,7) that by (auto simp: w1(3))
    have d: "distinct adds" "vID \<notin> set adds" using Cons.prems(6) by simp_all
    from Cons.IH [OF w1(2) Cons.prems(2,3) kept sub d(1) cur] obtain w' where
      "load_add now cur new adds w1 = Some (w', None)" "w_inv marshal w'"
      "infos (w_state w') = (\<lambda>k. if k \<in> set adds \<and> new k \<noteq> None then map_option (cur_info k) (new k) else infos (w_state w1) k)"
      by blast
    moreover have "load_add now cur new (vID # adds) w = load_add now cur new adds w1"
      by (simp only: load_add.simps Some option.case w1(1) prod.case)
    ultimately show ?thesis using Some d(2) by (auto simp: w1(3) fun_eq_iff)
  qed
qed simp

lemma loadValidators_world:
  assumes w: "w_inv marshal w" and now: "clock_ok now" and ok: "set_ok new" "constants_kept (infos (w_state w)) new"
    and orders: "set dels = st_GetValidationIDs (w_state w)" "distinct adds" "set adds = dom new"
  shows "\<exists>w'. loadValidators now new dels adds w = Some (w', None) \<and> w_inv marshal w'
    \<and> infos (w_state w') = (\<lambda>k. map_option (cur_info k) (new k))"
proof -
  have dom: "st_GetValidationIDs (w_state w) = dom (infos (w_state w))"
    by (auto simp: st_GetValidationIDs_def infos_def)
  from load_delete_world [OF w, of now new dels] obtain w1 where
    w1: "load_delete now new dels w = Some w1" "w_inv marshal w1"
      "infos (w_state w1) = (\<lambda>k. if k \<in> set dels \<and> new k = None then None else infos (w_state w) k)" by blast
  have "constants_kept (infos (w_state w1)) new" using ok(2) by (auto simp: w1(3) constants_kept_def)
  moreover have "dom (infos (w_state w1)) \<subseteq> dom new" using orders(1) dom by (auto simp: w1(3) split: if_splits)
  moreover have "k \<in> st_GetValidationIDs (w_state w) \<longleftrightarrow> infos (w_state w1) k \<noteq> None" if "k \<in> set adds" for k
    using that orders(3) dom by (auto simp: w1(3))
  ultimately obtain w' where w': "load_add now (st_GetValidationIDs (w_state w)) new adds w1 = Some (w', None)" "w_inv marshal w'"
      "infos (w_state w') = (\<lambda>k. if k \<in> set adds \<and> new k \<noteq> None then map_option (cur_info k) (new k) else infos (w_state w1) k)"
    using load_add_world [OF w1(2) now ok(1) _ _ orders(2)] by blast
  have "infos (w_state w') = (\<lambda>k. map_option (cur_info k) (new k))"
    using orders dom by (auto simp: w'(3) w1(3) fun_eq_iff)
  with w' w1(1) show ?thesis by (simp add: loadValidators_def)
qed


definition demo_set :: "ids_id \<rightharpoonup> cur_vdr" where
  "demo_set = [viValidationID demo_vdr \<mapsto> \<lparr>cvNodeID = viNodeID demo_vdr, cvWeight = 9, cvStartTime = 100,
     cvIsActive = True, cvIsL1Validator = True\<rparr>]"

lemma demo_set_marks:
  "loadValidators demo_now demo_set [viValidationID demo_vdr] [viValidationID demo_vdr] demo_world = Some (w', None)
    \<Longrightarrow> dom (updatedData (w_state w')) = {viValidationID demo_vdr}"
  by (auto simp: loadValidators_def demo_set_def demo_vdr_def demo_world_def demo_start_def w_state_def um_New_def
      pm_New_def st_GetValidationIDs_def st_UpdateValidator_def cur_info_def constantsAreUnmodified_def new_data_def
      mutate_def notify_all_def pm_OnValidatorStatusUpdated_def pm_resume_def w_upd_def mark_def Let_def split: if_splits)

text \<open>A manager made by \<open>NewManager\<close> has neither a logger nor a validator source: \<open>Sync\<close> panics on it.\<close>

lemma Sync_panics_after_NewManager:
  "evm_NewManager unmarshal db entries order now = Some (Inr m) \<Longrightarrow> evm_Sync marshal wr now' answer dels adds marked m = None"
  by (auto simp: evm_NewManager_def evm_Sync_def split: sum.splits option.splits)

end
