(* ===== verification/Codec.thy ===== *)
theory Codec
  imports Packing Bimap "HOL-Library.List_Lexorder" "HOL-Library.AList"
begin

text \<open>
  The binary codec of \<open>utils/codec\<close>: the reflection codec, the type registry of the linear codec and the
  manager. A \<open>reflect.Type\<close> is a value of \<open>gty\<close> and a \<open>reflect.Value\<close> a value of \<open>gval\<close> read at a type; types are
  finite, so a struct type that contains itself other than through an interface is not represented. The value of
  a map lists its entries in the order Go iterates over them. A nil slice and an empty one are the same value.
  Map keys are compared as values: pointer keys, which Go compares by address, and interface keys whose dynamic type
  cannot be compared, on which Go panics, are outside the model.
\<close>

subsection \<open>Types and values\<close>

datatype gty = TUint8 | TInt8 | TUint16 | TInt16 | TUint32 | TInt32 | TUint64 | TInt64 | TBool | TString
  | TPtr gty | TInterface string | TSlice gty | TArray nat gty | TStruct string "gfield list" | TMap gty gty | TOther string
and gfield = Field (fTags: "(string \<times> string) list") (fExported: bool) (fType: gty)

text \<open>Signed integers are words read with a sign.\<close>

datatype gval = VUint8 byte | VInt8 byte | VUint16 uint16 | VInt16 uint16 | VUint32 uint32 | VInt32 uint32
  | VUint64 uint64 | VInt64 uint64 | VBool bool | VString bytes | VPtr "gval option" | VInterface "(gty \<times> gval) option"
  | VSlice "gval list" | VArray "gval list" | VStruct "gval list" | VMap "(gval \<times> gval) list" | VOther

datatype codec_err = EMarshalNil | EUnmarshalNil | EUnsupportedType | EMaxSliceLen | ENotImplements | EUnexportedField
  | EMarshalZeroLength | EUnmarshalZeroLength | ECantPackVersion | ECantUnpackVersion | ERecursiveInterface | ENeedPointer
  | EUnmarshalTooBig | EExtraSpace | EDuplicateType | EUnregistered | EUnknownTypeID uint32 | EKeysNotSorted
  | EPack pack_err | EUnknownKind

lemma size_fType [termination_simp]: "f \<in> set fs \<Longrightarrow> size (fType f) < Suc (size_list size fs)"
proof -
  assume "f \<in> set fs"
  then have "size f \<le> size_list size fs" by (rule size_list_estimation') simp
  moreover have "size (fType f) < Suc (size f)" by (cases f) simp
  ultimately show ?thesis by simp
qed

text \<open>\<open>reflect.Zero\<close>.\<close>

fun zero_val :: "gty \<Rightarrow> gval" where
  "zero_val TUint8 = VUint8 0" | "zero_val TInt8 = VInt8 0" | "zero_val TUint16 = VUint16 0" | "zero_val TInt16 = VInt16 0"
| "zero_val TUint32 = VUint32 0" | "zero_val TInt32 = VInt32 0" | "zero_val TUint64 = VUint64 0" | "zero_val TInt64 = VInt64 0"
| "zero_val TBool = VBool False" | "zero_val TString = VString []" | "zero_val (TPtr t) = VPtr None"
| "zero_val (TInterface i) = VInterface None" | "zero_val (TSlice t) = VSlice []"
| "zero_val (TArray n t) = VArray (replicate n (zero_val t))"
| "zero_val (TStruct s fs) = VStruct (map (\<lambda>f. zero_val (fType f)) fs)"
| "zero_val (TMap k e) = VMap []" | "zero_val (TOther s) = VOther"

subsection \<open>Struct fields\<close>

definition TagValue :: string where
  "TagValue = ''true''"

definition captured :: "string list \<Rightarrow> gfield \<Rightarrow> bool" where
  "captured tags f \<longleftrightarrow> (\<exists>tag\<in>set tags. map_of (fTags f) tag = Some TagValue)"

fun serialized_fields :: "string list \<Rightarrow> nat \<Rightarrow> gfield list \<Rightarrow> (codec_err, nat list) go_result" where
  "serialized_fields tags i [] = Inr []"
| "serialized_fields tags i (f # fs) =
     (if \<not> captured tags f then serialized_fields tags (Suc i) fs
      else if \<not> fExported f then Inl EUnexportedField
      else res_bind (serialized_fields tags (Suc i) fs) (\<lambda>is. Inr (i # is)))"

record structFielder =
  sfTags :: "string list"
  serializedFieldIndices :: "gty \<rightharpoonup> nat list"

definition NewStructFielder :: "string list \<Rightarrow> structFielder" where
  "NewStructFielder tags = \<lparr>sfTags = tags, serializedFieldIndices = Map.empty\<rparr>"

definition getCachedSerializedFields :: "structFielder \<Rightarrow> gty \<Rightarrow> nat list option" where
  "getCachedSerializedFields s t = serializedFieldIndices s t"

definition GetSerializedFields :: "structFielder \<Rightarrow> string \<Rightarrow> gfield list \<Rightarrow> (codec_err, nat list) go_result \<times> structFielder" where
  "GetSerializedFields s name fs =
     (case getCachedSerializedFields s (TStruct name fs) of
        Some is \<Rightarrow> (Inr is, s)
      | None \<Rightarrow>
          (case serialized_fields (sfTags s) 0 fs of
             Inl e \<Rightarrow> (Inl e, s)
           | Inr is \<Rightarrow> (Inr is, s\<lparr>serializedFieldIndices := (serializedFieldIndices s)(TStruct name fs \<mapsto> is)\<rparr>)))"

subsection \<open>The type registry\<close>

record linearCodec =
  nextTypeID :: uint32
  registeredTypes :: "(uint32, gty) bimap"
  tagNames :: "string list"

definition lc_New :: "string list \<Rightarrow> linearCodec" where
  "lc_New tags = \<lparr>nextTypeID = 0, registeredTypes = bm_New, tagNames = tags\<rparr>"

definition NewDefault :: linearCodec where
  "NewDefault = lc_New [''serialize'']"

definition SkipRegistrations :: "int \<Rightarrow> linearCodec \<Rightarrow> linearCodec" where
  "SkipRegistrations num c = c\<lparr>nextTypeID := nextTypeID c + of_int num\<rparr>"

definition RegisterType :: "gty \<Rightarrow> linearCodec \<Rightarrow> codec_err option \<times> linearCodec" where
  "RegisterType t c =
     (if bm_HasValue (registeredTypes c) t then (Some EDuplicateType, c)
      else (None, c\<lparr>registeredTypes := snd (bm_Put (registeredTypes c) (nextTypeID c) t), nextTypeID := nextTypeID c + 1\<rparr>))"

definition PrefixSize :: nat where
  "PrefixSize = 4"

text \<open>
  A packing step: \<open>None\<close> is a panic; otherwise the error, if any, and the packer. \<open>impl\<close> is \<open>reflect.Type.Implements\<close>.
\<close>

type_synonym grower = "nat \<Rightarrow> nat \<Rightarrow> nat"
type_synonym pstep = "packer \<Rightarrow> (codec_err option \<times> packer) option"

definition packed :: "(packer \<Rightarrow> packer option) \<Rightarrow> pstep" where
  "packed f p = map_option (\<lambda>q. (map_option EPack (Err q), q)) (f p)"

definition andthen :: "pstep \<Rightarrow> pstep \<Rightarrow> pstep" where
  "andthen f g p = (case f p of None \<Rightarrow> None | Some (Some e, q) \<Rightarrow> Some (Some e, q) | Some (None, q) \<Rightarrow> g q)"

definition failing :: "codec_err \<Rightarrow> pstep" where
  "failing e p = Some (Some e, p)"

definition skip :: pstep where
  "skip p = Some (None, p)"

definition PackPrefix :: "grower \<Rightarrow> linearCodec \<Rightarrow> gty \<Rightarrow> pstep" where
  "PackPrefix g c t = (case bm_GetKey (registeredTypes c) t of None \<Rightarrow> failing EUnregistered | Some i \<Rightarrow> packed (PackInt g i))"

definition UnpackPrefix :: "(gty \<Rightarrow> string \<Rightarrow> bool) \<Rightarrow> linearCodec \<Rightarrow> string \<Rightarrow> packer \<Rightarrow> (codec_err, gty) go_result \<times> packer" where
  "UnpackPrefix impl c iname p0 =
     (case UnpackInt p0 of (typeID, p) \<Rightarrow>
        (case Err p of
           Some e \<Rightarrow> (Inl (EPack e), p)
         | None \<Rightarrow>
             (case bm_GetValue (registeredTypes c) typeID of
                None \<Rightarrow> (Inl (EUnknownTypeID typeID), p)
              | Some t \<Rightarrow> if \<not> impl t iname then (Inl ENotImplements, p) else (Inr t, p))))"

subsection \<open>Size\<close>

text \<open>The size of a value, and whether every value of its type has this size.\<close>

type_synonym size_result = "(codec_err, nat \<times> bool) go_result"

fun sum_sizes :: "size_result list \<Rightarrow> (codec_err, nat) go_result" where
  "sum_sizes [] = Inr 0"
| "sum_sizes (r # rs) = res_bind r (\<lambda>(n, _). res_bind (sum_sizes rs) (\<lambda>m. Inr (n + m)))"

fun struct_size :: "size_result list \<Rightarrow> size_result" where
  "struct_size [] = Inr (0, True)"
| "struct_size (r # rs) = res_bind r (\<lambda>(n, c). res_bind (struct_size rs) (\<lambda>(m, d). Inr (n + m, c \<and> d)))"

definition slice_size :: "size_result list \<Rightarrow> size_result" where
  "slice_size rs =
     (case rs of [] \<Rightarrow> Inr (4, False)
      | r # rest \<Rightarrow>
          res_bind r (\<lambda>(n, c).
            if n = 0 then Inl EMarshalZeroLength
            else if c then Inr (4 + length rs * n, False)
            else res_bind (sum_sizes rest) (\<lambda>m. Inr (4 + (n + m), False))))"

definition array_size :: "size_result list \<Rightarrow> size_result" where
  "array_size rs =
     (case rs of [] \<Rightarrow> Inr (0, True)
      | r # rest \<Rightarrow>
          res_bind r (\<lambda>(n, c).
            if c then Inr (length rs * n, True) else res_bind (sum_sizes rest) (\<lambda>m. Inr (n + m, False))))"

definition map_size :: "(size_result \<times> size_result) list \<Rightarrow> size_result" where
  "map_size rs =
     (case rs of [] \<Rightarrow> Inr (4, False)
      | (rk, re) # rest \<Rightarrow>
          res_bind rk (\<lambda>(ks, kc). res_bind re (\<lambda>(es, ec).
            if ks = 0 \<and> es = 0 then Inl EMarshalZeroLength
            else if kc \<and> ec then Inr (4 + length rs * (ks + es), False)
            else if kc then res_bind (sum_sizes (map snd rest)) (\<lambda>m. Inr (4 + length rs * ks + (es + m), False))
            else if ec then res_bind (sum_sizes (map fst rest)) (\<lambda>m. Inr (4 + (ks + m) + length rs * es, False))
            else res_bind (sum_sizes (concat (map (\<lambda>(a, b). [a, b]) rest))) (\<lambda>m. Inr (4 + ks + es + m, False)))))"

text \<open>The elements of a list at the given indices.\<close>

definition pick :: "nat list \<Rightarrow> 'a list \<Rightarrow> 'a list" where
  "pick is xs = map ((!) xs) (filter (\<lambda>i. i < length xs) is)"

lemma set_pick: "set (pick is xs) \<subseteq> set xs"
  by (auto simp: pick_def)

lemma size_pick [termination_simp]: "(t, v) \<in> set (pick is (zip ts vs)) \<Longrightarrow> size v < Suc (size_list size vs)"
  using set_pick [of "is" "zip ts vs"] size_list_estimation' [of v vs "size v" size] by (auto dest!: subsetD set_zip_rightD)

lemma size_entry [termination_simp]:
  "(k, e) \<in> set kvs \<Longrightarrow> size k < Suc (size_list (size_prod size size) kvs)"
  "(k, e) \<in> set kvs \<Longrightarrow> size e < Suc (size_list (size_prod size size) kvs)"
  using size_list_estimation' [of "(k, e)" kvs "size k" "size_prod size size"] size_list_estimation' [of "(k, e)" kvs "size e" "size_prod size size"]
  by auto

text \<open>The kinds of fixed width.\<close>

definition fixed_width :: "gty \<Rightarrow> nat option" where
  "fixed_width t = (case t of TUint8 \<Rightarrow> Some 1 | TInt8 \<Rightarrow> Some 1 | TUint16 \<Rightarrow> Some 2 | TInt16 \<Rightarrow> Some 2
     | TUint32 \<Rightarrow> Some 4 | TInt32 \<Rightarrow> Some 4 | TUint64 \<Rightarrow> Some 8 | TInt64 \<Rightarrow> Some 8 | TBool \<Rightarrow> Some 1 | _ \<Rightarrow> None)"

definition scalar_size :: "gty \<Rightarrow> size_result" where
  "scalar_size t = (case fixed_width t of None \<Rightarrow> Inl EUnknownKind | Some n \<Rightarrow> Inr (n, True))"

fun size_of :: "linearCodec \<Rightarrow> gty set \<Rightarrow> gty \<Rightarrow> gval \<Rightarrow> size_result" where
  "size_of C S t (VString s) = (case t of TString \<Rightarrow> Inr (2 + length s, False) | _ \<Rightarrow> Inl EUnknownKind)"
| "size_of C S t (VPtr r) =
     (case t of TPtr t' \<Rightarrow> (case r of None \<Rightarrow> Inl EMarshalNil | Some v \<Rightarrow> size_of C S t' v) | _ \<Rightarrow> Inl EUnknownKind)"
| "size_of C S t (VInterface r) =
     (case t of
        TInterface i \<Rightarrow>
          (case r of
             None \<Rightarrow> Inl EMarshalNil
           | Some (t', v) \<Rightarrow>
               if t' \<in> S then Inl ERecursiveInterface
               else res_bind (size_of C (insert t' S) t' v) (\<lambda>(n, _). Inr (PrefixSize + n, False)))
      | _ \<Rightarrow> Inl EUnknownKind)"
| "size_of C S t (VSlice vs) =
     (case t of TSlice t' \<Rightarrow> slice_size (map (\<lambda>v. size_of C S t' v) vs) | _ \<Rightarrow> Inl EUnknownKind)"
| "size_of C S t (VArray vs) =
     (case t of TArray n t' \<Rightarrow> array_size (map (\<lambda>v. size_of C S t' v) vs) | _ \<Rightarrow> Inl EUnknownKind)"
| "size_of C S t (VStruct vs) =
     (case t of
        TStruct s fs \<Rightarrow>
          res_bind (serialized_fields (tagNames C) 0 fs) (\<lambda>is.
            struct_size (map (\<lambda>(t', v). size_of C S t' v) (pick is (zip (map fType fs) vs))))
      | _ \<Rightarrow> Inl EUnknownKind)"
| "size_of C S t (VMap kvs) =
     (case t of
        TMap kt et \<Rightarrow> map_size (map (\<lambda>(k, e). (size_of C S kt k, size_of C S et e)) kvs)
      | _ \<Rightarrow> Inl EUnknownKind)"
| "size_of C S t v = scalar_size t"

subsection \<open>Marshalling\<close>

fun step_all :: "pstep list \<Rightarrow> pstep" where
  "step_all [] = skip"
| "step_all (f # fs) = andthen f (step_all fs)"

text \<open>A step that must write something.\<close>

definition nonempty_step :: "pstep \<Rightarrow> pstep" where
  "nonempty_step f p =
     (case f p of
        Some (None, q) \<Rightarrow> if Offset p = Offset q then Some (Some EMarshalZeroLength, q) else Some (None, q)
      | r \<Rightarrow> r)"

definition MaxInt32 :: nat where
  "MaxInt32 = 2147483647"

definition pack_len :: "grower \<Rightarrow> nat \<Rightarrow> pstep" where
  "pack_len g n = (if n > MaxInt32 then failing EMaxSliceLen else packed (PackInt g (of_nat n)))"

definition val_byte :: "gval \<Rightarrow> byte" where
  "val_byte v = (case v of VUint8 b \<Rightarrow> b | _ \<Rightarrow> 0)"

definition slice_step :: "grower \<Rightarrow> gty \<Rightarrow> gval list \<Rightarrow> pstep list \<Rightarrow> pstep" where
  "slice_step g t vs steps =
     andthen (pack_len g (length vs))
       (if vs = [] then skip
        else if t = TUint8 then packed (PackFixedBytes g (map val_byte vs))
        else step_all (map nonempty_step steps))"

text \<open>
  A map: all keys are packed first, in iteration order, and their ranges sorted by the packed bytes; then the offset goes back
  and key bytes and values are packed in that order. Go's sort is not stable; here ranges with equal bytes keep
  their order.
\<close>

fun pack_keys :: "(pstep \<times> pstep) list \<Rightarrow> packer \<Rightarrow> ((codec_err, (int \<times> int \<times> pstep) list) go_result \<times> packer) option" where
  "pack_keys [] p = Some (Inr [], p)"
| "pack_keys ((fk, fe) # rest) p =
     (case fk p of
        None \<Rightarrow> None
      | Some (Some e, q) \<Rightarrow> Some (Inl e, q)
      | Some (None, q) \<Rightarrow>
          (case Err q of
             Some e \<Rightarrow> Some (Inl (EPack e), q)
           | None \<Rightarrow>
               (case pack_keys rest q of
                  None \<Rightarrow> None
                | Some (Inl e, q') \<Rightarrow> Some (Inl e, q')
                | Some (Inr ks, q') \<Rightarrow> Some (Inr ((Offset p, Offset q, fe) # ks), q'))))"

definition key_bytes :: "packer \<Rightarrow> int \<times> int \<times> pstep \<Rightarrow> bytes" where
  "key_bytes p k = (case k of (a, b, _) \<Rightarrow> read_at (Bytes p) a (nat (b - a)))"

definition map_step :: "grower \<Rightarrow> (pstep \<times> pstep) list \<Rightarrow> pstep" where
  "map_step g kes = andthen (pack_len g (length kes)) (\<lambda>p.
     case pack_keys kes p of
       None \<Rightarrow> None
     | Some (Inl e, q) \<Rightarrow> Some (Some e, q)
     | Some (Inr ks, q) \<Rightarrow>
         step_all (map (\<lambda>k. nonempty_step (andthen (packed (PackFixedBytes g (key_bytes q k))) (snd (snd k)))) (sort_key (key_bytes q) ks))
           (q\<lparr>Offset := Offset p\<rparr>))"

definition scalar_step :: "grower \<Rightarrow> gty \<Rightarrow> gval \<Rightarrow> pstep" where
  "scalar_step g t v =
     (case (t, v) of
        (TUint8, VUint8 x) \<Rightarrow> packed (PackByte g x) | (TInt8, VInt8 x) \<Rightarrow> packed (PackByte g x)
      | (TUint16, VUint16 x) \<Rightarrow> packed (PackShort g x) | (TInt16, VInt16 x) \<Rightarrow> packed (PackShort g x)
      | (TUint32, VUint32 x) \<Rightarrow> packed (PackInt g x) | (TInt32, VInt32 x) \<Rightarrow> packed (PackInt g x)
      | (TUint64, VUint64 x) \<Rightarrow> packed (PackLong g x) | (TInt64, VInt64 x) \<Rightarrow> packed (PackLong g x)
      | (TString, VString s) \<Rightarrow> packed (PackStr g s) | (TBool, VBool b) \<Rightarrow> packed (PackBool g b)
      | _ \<Rightarrow> failing EUnsupportedType)"

fun marshal :: "grower \<Rightarrow> linearCodec \<Rightarrow> gty set \<Rightarrow> gty \<Rightarrow> gval \<Rightarrow> pstep" where
  "marshal g C S t (VPtr r) =
     (case t of TPtr t' \<Rightarrow> (case r of None \<Rightarrow> failing EMarshalNil | Some v \<Rightarrow> marshal g C S t' v) | _ \<Rightarrow> failing EUnsupportedType)"
| "marshal g C S t (VInterface r) =
     (case t of
        TInterface i \<Rightarrow>
          (case r of
             None \<Rightarrow> failing EMarshalNil
           | Some (t', v) \<Rightarrow>
               if t' \<in> S then failing ERecursiveInterface
               else andthen (PackPrefix g C t') (marshal g C (insert t' S) t' v))
      | _ \<Rightarrow> failing EUnsupportedType)"
| "marshal g C S t (VSlice vs) =
     (case t of TSlice t' \<Rightarrow> slice_step g t' vs (map (\<lambda>v. marshal g C S t' v) vs) | _ \<Rightarrow> failing EUnsupportedType)"
| "marshal g C S t (VArray vs) =
     (case t of TArray n t' \<Rightarrow> step_all (map (\<lambda>v. marshal g C S t' v) vs) | _ \<Rightarrow> failing EUnsupportedType)"
| "marshal g C S t (VStruct vs) =
     (case t of
        TStruct s fs \<Rightarrow>
          (case serialized_fields (tagNames C) 0 fs of
             Inl e \<Rightarrow> failing e
           | Inr is \<Rightarrow> step_all (map (\<lambda>(t', v). marshal g C S t' v) (pick is (zip (map fType fs) vs))))
      | _ \<Rightarrow> failing EUnsupportedType)"
| "marshal g C S t (VMap kvs) =
     (case t of
        TMap kt et \<Rightarrow> map_step g (map (\<lambda>(k, e). (marshal g C S kt k, marshal g C S et e)) kvs)
      | _ \<Rightarrow> failing EUnsupportedType)"
| "marshal g C S t v = scalar_step g t v"

subsection \<open>Unmarshalling\<close>

text \<open>
  Reading into a destination of a type: the destination's fields that are not serialized keep their values. On an error the
  destination is not used by any caller and is left out.
\<close>

type_synonym 'a ustep = "packer \<Rightarrow> (codec_err, 'a) go_result \<times> packer"

definition unpacked :: "('a \<Rightarrow> 'b) \<Rightarrow> (packer \<Rightarrow> 'a \<times> packer) \<Rightarrow> 'b ustep" where
  "unpacked mk f p0 = (case f p0 of (x, p) \<Rightarrow> (case Err p of Some e \<Rightarrow> (Inl (EPack e), p) | None \<Rightarrow> (Inr (mk x), p)))"

definition u_bind :: "'a ustep \<Rightarrow> ('a \<Rightarrow> 'b ustep) \<Rightarrow> 'b ustep" where
  "u_bind f k p0 = (case f p0 of (Inl e, p) \<Rightarrow> (Inl e, p) | (Inr x, p) \<Rightarrow> k x p)"

definition u_ret :: "'a \<Rightarrow> 'a ustep" where
  "u_ret x p = (Inr x, p)"

definition u_fail :: "codec_err \<Rightarrow> 'a ustep" where
  "u_fail e p = (Inl e, p)"

definition u_nonempty :: "'a ustep \<Rightarrow> 'a ustep" where
  "u_nonempty f p0 = (case f p0 of (Inl e, p) \<Rightarrow> (Inl e, p)
     | (Inr x, p) \<Rightarrow> if Offset p0 = Offset p then (Inl EUnmarshalZeroLength, p) else (Inr x, p))"

fun u_repeat :: "nat \<Rightarrow> 'a ustep \<Rightarrow> 'a list ustep" where
  "u_repeat 0 f = u_ret []"
| "u_repeat (Suc n) f = u_bind f (\<lambda>x. u_bind (u_repeat n f) (\<lambda>xs. u_ret (x # xs)))"

fun u_seq :: "'a ustep list \<Rightarrow> 'a list ustep" where
  "u_seq [] = u_ret []"
| "u_seq (f # fs) = u_bind f (\<lambda>x. u_bind (u_seq fs) (\<lambda>xs. u_ret (x # xs)))"

definition unpack_len :: "nat ustep" where
  "unpack_len = u_bind (unpacked id UnpackInt) (\<lambda>n. if unat n > MaxInt32 then u_fail EMaxSliceLen else u_ret (unat n))"

text \<open>The fields at the given indices, in order.\<close>

fun u_fields :: "nat list \<Rightarrow> (gval \<Rightarrow> gval ustep) list \<Rightarrow> gval list \<Rightarrow> gval list ustep" where
  "u_fields [] fs vs = u_ret vs"
| "u_fields (i # is) fs vs =
     (if i < length fs \<and> i < length vs then u_bind ((fs ! i) (vs ! i)) (\<lambda>x. u_fields is fs (vs[i := x]))
      else u_fail EUnknownKind)"

text \<open>The entries of a map: the bytes of each key must be above those of the key before.\<close>

fun u_entries :: "nat \<Rightarrow> gval ustep \<Rightarrow> gval ustep \<Rightarrow> bytes option \<Rightarrow> (gval \<times> gval) list \<Rightarrow> (gval \<times> gval) list ustep" where
  "u_entries 0 fk fe prev m p = (Inr m, p)"
| "u_entries (Suc n) fk fe prev m p =
     (case fk p of
        (Inl e, q) \<Rightarrow> (Inl e, q)
      | (Inr k, q) \<Rightarrow>
          (let keyBytes = read_at (Bytes q) (Offset p) (nat (Offset q - Offset p)) in
           if (case prev of None \<Rightarrow> False | Some pk \<Rightarrow> keyBytes \<le> pk) then (Inl EKeysNotSorted, q)
           else case fe q of
             (Inl e, r) \<Rightarrow> (Inl e, r)
           | (Inr v, r) \<Rightarrow>
               if Offset p = Offset r then (Inl EUnmarshalZeroLength, r)
               else u_entries n fk fe (Some keyBytes) (AList.update k v m) r))"

definition scalar_read :: "gty \<Rightarrow> gval ustep" where
  "scalar_read t =
     (case t of
        TUint8 \<Rightarrow> unpacked VUint8 UnpackByte | TInt8 \<Rightarrow> unpacked VInt8 UnpackByte
      | TUint16 \<Rightarrow> unpacked VUint16 UnpackShort | TInt16 \<Rightarrow> unpacked VInt16 UnpackShort
      | TUint32 \<Rightarrow> unpacked VUint32 UnpackInt | TInt32 \<Rightarrow> unpacked VInt32 UnpackInt
      | TUint64 \<Rightarrow> unpacked VUint64 UnpackLong | TInt64 \<Rightarrow> unpacked VInt64 UnpackLong
      | TBool \<Rightarrow> unpacked VBool UnpackBool | TString \<Rightarrow> unpacked VString UnpackStr
      | _ \<Rightarrow> u_fail EUnknownKind)"

definition array_elems :: "gval \<Rightarrow> gval list" where
  "array_elems v = (case v of VArray vs \<Rightarrow> vs | _ \<Rightarrow> [])"

definition struct_elems :: "gval \<Rightarrow> gval list" where
  "struct_elems v = (case v of VStruct vs \<Rightarrow> vs | _ \<Rightarrow> [])"

lemma UnpackPrefix_registered: "UnpackPrefix impl C i p = (Inr t, q) \<Longrightarrow> t \<in> ran (keyToValue (registeredTypes C)) \<and> impl t i"
  by (auto simp: UnpackPrefix_def bm_GetValue_def ran_def split: prod.splits option.splits if_splits)

lemma interface_measure:
  assumes "(Inr t, q) = UnpackPrefix impl C i p" "t \<notin> S"
  shows "card (ran (keyToValue (registeredTypes C)) - insert t S) < card (ran (keyToValue (registeredTypes C)) - S)"
proof -
  let ?R = "ran (keyToValue (registeredTypes C))"
  have "finite ?R" by (rule finite_ran) (rule finite)
  moreover have "t \<in> ?R" using UnpackPrefix_registered [of impl C i p t q] assms(1) by simp
  ultimately show ?thesis using assms(2) by (intro psubset_card_mono) auto
qed

text \<open>
  Every interface on the way adds a registered type to the stack, and between two interfaces the type gets
  smaller: reading always ends.
\<close>

function (sequential) unmarshal :: "(gty \<Rightarrow> string \<Rightarrow> bool) \<Rightarrow> linearCodec \<Rightarrow> gty set \<Rightarrow> gty \<Rightarrow> gval \<Rightarrow> gval ustep" where
  "unmarshal impl C S (TSlice t) v p =
     u_bind unpack_len (\<lambda>n.
       if t = TUint8 then unpacked (\<lambda>bs. VSlice (map VUint8 bs)) (UnpackFixedBytes (int n))
       else u_bind (u_repeat n (u_nonempty (\<lambda>q. unmarshal impl C S t (zero_val t) q))) (\<lambda>vs. u_ret (VSlice vs))) p"
| "unmarshal impl C S (TArray n t) v p =
     (if t = TUint8 then unpacked (\<lambda>bs. VArray (map VUint8 bs)) (UnpackFixedBytes (int n)) p
      else u_bind (u_seq (map (\<lambda>w q. unmarshal impl C S t w q) (array_elems v))) (\<lambda>vs. u_ret (VArray vs)) p)"
| "unmarshal impl C S (TInterface i) v p =
     (case UnpackPrefix impl C i p of
        (Inl e, q) \<Rightarrow> (Inl e, q)
      | (Inr t, q) \<Rightarrow>
          if t \<in> S then (Inl ERecursiveInterface, q)
          else (case unmarshal impl C (insert t S) t (zero_val t) q of
                  (Inl e, r) \<Rightarrow> (Inl e, r)
                | (Inr w, r) \<Rightarrow> (Inr (VInterface (Some (t, w))), r)))"
| "unmarshal impl C S (TStruct s fs) v p =
     (case serialized_fields (tagNames C) 0 fs of
        Inl e \<Rightarrow> (Inl e, p)
      | Inr is \<Rightarrow> u_bind (u_fields is (map (\<lambda>f w q. unmarshal impl C S (fType f) w q) fs) (struct_elems v)) (\<lambda>vs. u_ret (VStruct vs)) p)"
| "unmarshal impl C S (TPtr t) v p = u_bind (\<lambda>q. unmarshal impl C S t (zero_val t) q) (\<lambda>w. u_ret (VPtr (Some w))) p"
| "unmarshal impl C S (TMap kt et) v p =
     u_bind unpack_len (\<lambda>n.
       u_bind (u_entries n (\<lambda>q. unmarshal impl C S kt (zero_val kt) q) (\<lambda>q. unmarshal impl C S et (zero_val et) q) None []) (\<lambda>m. u_ret (VMap m))) p"
| "unmarshal impl C S t v p = scalar_read t p"
  by pat_completeness auto
termination
  by (relation "inv_image (less_than <*lex*> less_than)
    (\<lambda>(impl, C, S, t, v, p). (card (ran (keyToValue (registeredTypes C)) - S), size t))")
    (auto simp: size_fType intro: interface_measure)

subsection \<open>The codec and its manager\<close>

text \<open>An argument of type \<open>interface{}\<close> is nil or a value with its type.\<close>

type_synonym any = "(gty \<times> gval) option"

definition codec_Size :: "linearCodec \<Rightarrow> any \<Rightarrow> (codec_err, nat) go_result" where
  "codec_Size C value = (case value of None \<Rightarrow> Inl EMarshalNil | Some (t, v) \<Rightarrow> res_bind (size_of C {} t v) (\<lambda>(n, _). Inr n))"

definition MarshalInto :: "grower \<Rightarrow> linearCodec \<Rightarrow> any \<Rightarrow> pstep" where
  "MarshalInto g C value = (case value of None \<Rightarrow> failing EMarshalNil | Some (t, v) \<Rightarrow> marshal g C {} t v)"

text \<open>The new value of what the destination points to.\<close>

definition UnmarshalFrom :: "(gty \<Rightarrow> string \<Rightarrow> bool) \<Rightarrow> linearCodec \<Rightarrow> any \<Rightarrow> gval ustep" where
  "UnmarshalFrom impl C dest =
     (case dest of
        None \<Rightarrow> u_fail EUnmarshalNil
      | Some (TPtr t, VPtr (Some v)) \<Rightarrow> unmarshal impl C {} t v
      | Some (TPtr t, _) \<Rightarrow> u_fail EUnknownKind
      | Some _ \<Rightarrow> u_fail ENeedPointer)"

record codec_manager =
  cmMaxSize :: int
  cmCodec :: linearCodec

definition codec_NewManager :: "int \<Rightarrow> linearCodec \<Rightarrow> codec_manager" where
  "codec_NewManager mx C = \<lparr>cmMaxSize = mx, cmCodec = C\<rparr>"

definition cm_Size :: "codec_manager \<Rightarrow> any \<Rightarrow> (codec_err, nat) go_result" where
  "cm_Size m value = (case value of None \<Rightarrow> Inl EMarshalNil | Some _ \<Rightarrow> res_bind (codec_Size (cmCodec m) value) (\<lambda>n. Inr (2 + n)))"

text \<open>
  The source returns \<open>p.Bytes\<close> and the result of \<open>MarshalInto\<close> in one statement; Go's order of evaluation lets the field be read
  on either side of the call, and its compiler reads it after the call. The returned bytes are those after marshalling.
\<close>

definition cm_Marshal :: "grower \<Rightarrow> codec_manager \<Rightarrow> any \<Rightarrow> (bytes \<times> codec_err option) option" where
  "cm_Marshal g m value =
     (case value of
        None \<Rightarrow> Some ([], Some EMarshalNil)
      | Some _ \<Rightarrow>
          (case PackShort g 0 \<lparr>Err = None, MaxSize = cmMaxSize m, Bytes = [], Spare = replicate 128 0, Offset = 0\<rparr> of
             None \<Rightarrow> None
           | Some p \<Rightarrow>
               if Errored p then Some ([], Some ECantPackVersion)
               else map_option (\<lambda>(e, q). (Bytes q, e)) (MarshalInto g (cmCodec m) value p)))"

definition cm_Unmarshal :: "(gty \<Rightarrow> string \<Rightarrow> bool) \<Rightarrow> codec_manager \<Rightarrow> bytes \<Rightarrow> any \<Rightarrow> (codec_err, gval) go_result" where
  "cm_Unmarshal impl m bs dest =
     (if dest = None then Inl EUnmarshalNil
      else if int (length bs) > cmMaxSize m then Inl EUnmarshalTooBig
      else case UnpackShort \<lparr>Err = None, MaxSize = 0, Bytes = bs, Spare = [], Offset = 0\<rparr> of (_, p) \<Rightarrow>
        if Errored p then Inl ECantUnpackVersion
        else case UnmarshalFrom impl (cmCodec m) dest p of
          (Inl e, q) \<Rightarrow> Inl e
        | (Inr v, q) \<Rightarrow> if Offset q \<noteq> int (length bs) then Inl EExtraSpace else Inr v)"

end
