(* ===== verification/Codec_Encode.thy ===== *)
theory Codec_Encode
  imports Codec
begin

text \<open>
  What marshalling writes. \<open>conf\<close> is the typing of values, \<open>enc\<close> the encoding of a value as a
  list of bytes, with no packer, buffer or offset in it. The marshaller of \<open>type_codec.go\<close>, which writes map keys,
  rewinds and overwrites them, is shown to write exactly this encoding, and \<open>Size\<close> to be its length.
\<close>

subsection \<open>Typed values\<close>

lemma size_zip [termination_simp]: "(t, v) \<in> set (zip ts vs) \<Longrightarrow> size v < Suc (size_list size vs)"
  using size_list_estimation' [of v vs "size v" size] by (auto dest!: set_zip_rightD)

fun conf :: "(gty \<Rightarrow> string \<Rightarrow> bool) \<Rightarrow> gty \<Rightarrow> gval \<Rightarrow> bool" where
  "conf impl t (VUint8 _) \<longleftrightarrow> t = TUint8" | "conf impl t (VInt8 _) \<longleftrightarrow> t = TInt8"
| "conf impl t (VUint16 _) \<longleftrightarrow> t = TUint16" | "conf impl t (VInt16 _) \<longleftrightarrow> t = TInt16"
| "conf impl t (VUint32 _) \<longleftrightarrow> t = TUint32" | "conf impl t (VInt32 _) \<longleftrightarrow> t = TInt32"
| "conf impl t (VUint64 _) \<longleftrightarrow> t = TUint64" | "conf impl t (VInt64 _) \<longleftrightarrow> t = TInt64"
| "conf impl t (VBool _) \<longleftrightarrow> t = TBool" | "conf impl t (VString _) \<longleftrightarrow> t = TString"
| "conf impl t (VPtr r) \<longleftrightarrow> (case t of TPtr t' \<Rightarrow> (case r of None \<Rightarrow> True | Some v \<Rightarrow> conf impl t' v) | _ \<Rightarrow> False)"
| "conf impl t (VInterface r) \<longleftrightarrow>
     (case t of TInterface i \<Rightarrow> (case r of None \<Rightarrow> True | Some (t', v) \<Rightarrow> impl t' i \<and> conf impl t' v) | _ \<Rightarrow> False)"
| "conf impl t (VSlice vs) \<longleftrightarrow> (case t of TSlice t' \<Rightarrow> (\<forall>v\<in>set vs. conf impl t' v) | _ \<Rightarrow> False)"
| "conf impl t (VArray vs) \<longleftrightarrow> (case t of TArray n t' \<Rightarrow> length vs = n \<and> (\<forall>v\<in>set vs. conf impl t' v) | _ \<Rightarrow> False)"
| "conf impl t (VStruct vs) \<longleftrightarrow>
     (case t of TStruct s fs \<Rightarrow> length vs = length fs \<and> (\<forall>(t', v)\<in>set (zip (map fType fs) vs). conf impl t' v) | _ \<Rightarrow> False)"
| "conf impl t (VMap kvs) \<longleftrightarrow>
     (case t of TMap kt et \<Rightarrow> distinct (map fst kvs) \<and> (\<forall>(k, e)\<in>set kvs. conf impl kt k \<and> conf impl et e) | _ \<Rightarrow> False)"
| "conf impl t VOther \<longleftrightarrow> (case t of TOther s \<Rightarrow> True | _ \<Rightarrow> False)"

subsection \<open>The encoding\<close>

definition nonempty :: "bytes option \<Rightarrow> bytes option" where
  "nonempty r = (if r = Some [] then None else r)"

text \<open>The entries of a map, in the order of the encodings of their keys.\<close>

definition map_enc :: "(bytes option \<times> bytes option) list \<Rightarrow> bytes option" where
  "map_enc rs =
     (if length rs > MaxInt32 then None
      else Option.bind (those (map fst rs)) (\<lambda>ks.
        map_option (\<lambda>es. be_put 4 (of_nat (length rs) :: uint32) @ concat es)
          (those (map (\<lambda>(k, r). nonempty (map_option ((@) k) r)) (sort_key fst (zip ks (map snd rs)))))))"

definition slice_enc :: "bytes option list \<Rightarrow> bytes option" where
  "slice_enc rs =
     (if length rs > MaxInt32 then None
      else map_option (\<lambda>es. be_put 4 (of_nat (length rs) :: uint32) @ concat es) (those (map nonempty rs)))"

definition scalar_enc :: "gval \<Rightarrow> bytes option" where
  "scalar_enc v =
     (case v of VUint8 x \<Rightarrow> Some [x] | VInt8 x \<Rightarrow> Some [x] | VUint16 x \<Rightarrow> Some (be_put 2 x) | VInt16 x \<Rightarrow> Some (be_put 2 x)
      | VUint32 x \<Rightarrow> Some (be_put 4 x) | VInt32 x \<Rightarrow> Some (be_put 4 x) | VUint64 x \<Rightarrow> Some (be_put 8 x) | VInt64 x \<Rightarrow> Some (be_put 8 x)
      | VBool b \<Rightarrow> Some [if b then 1 else 0]
      | VString s \<Rightarrow> if length s > MaxStringLen then None else Some (be_put 2 (of_nat (length s) :: uint16) @ s)
      | _ \<Rightarrow> None)"

fun enc :: "linearCodec \<Rightarrow> gty set \<Rightarrow> gty \<Rightarrow> gval \<Rightarrow> bytes option" where
  "enc C S t (VPtr r) = (case t of TPtr t' \<Rightarrow> (case r of None \<Rightarrow> None | Some v \<Rightarrow> enc C S t' v) | _ \<Rightarrow> None)"
| "enc C S t (VInterface r) =
     (case t of
        TInterface i \<Rightarrow>
          (case r of
             None \<Rightarrow> None
           | Some (t', v) \<Rightarrow>
               if t' \<in> S then None
               else Option.bind (bm_GetKey (registeredTypes C) t') (\<lambda>i. map_option (\<lambda>b. be_put 4 i @ b) (enc C (insert t' S) t' v)))
      | _ \<Rightarrow> None)"
| "enc C S t (VSlice vs) = (case t of TSlice t' \<Rightarrow> slice_enc (map (\<lambda>v. enc C S t' v) vs) | _ \<Rightarrow> None)"
| "enc C S t (VArray vs) = (case t of TArray n t' \<Rightarrow> map_option concat (those (map (\<lambda>v. enc C S t' v) vs)) | _ \<Rightarrow> None)"
| "enc C S t (VStruct vs) =
     (case t of
        TStruct s fs \<Rightarrow>
          (case serialized_fields (tagNames C) 0 fs of
             Inl e \<Rightarrow> None
           | Inr is \<Rightarrow> map_option concat (those (map (\<lambda>(t', v). enc C S t' v) (pick is (zip (map fType fs) vs)))))
      | _ \<Rightarrow> None)"
| "enc C S t (VMap kvs) =
     (case t of TMap kt et \<Rightarrow> map_enc (map (\<lambda>(k, e). (enc C S kt k, enc C S et e)) kvs) | _ \<Rightarrow> None)"
| "enc C S t v = scalar_enc v"

subsection \<open>Writing at an offset\<close>

definition overwrite :: "bytes \<Rightarrow> nat \<Rightarrow> bytes \<Rightarrow> bytes" where
  "overwrite bs i e = take i bs @ e @ drop (i + length e) bs"

lemma overwrite_append: "i \<le> length bs \<Longrightarrow> overwrite (overwrite bs i a) (i + length a) b = overwrite bs i (a @ b)"
  by (simp add: overwrite_def add.commute add.left_commute)

lemma overwrite_longer: "\<lbrakk>i \<le> length bs; length a \<le> length b\<rbrakk> \<Longrightarrow> overwrite (overwrite bs i a) i b = overwrite bs i b"
  by (simp add: overwrite_def add.commute)

lemma overwrite_nil [simp]: "overwrite bs i [] = bs"
  by (simp add: overwrite_def)

lemma read_overwrite: "i \<le> length bs \<Longrightarrow> take (length e) (drop i (overwrite bs i e)) = e"
  by (simp add: overwrite_def)

definition pok :: "packer \<Rightarrow> bool" where
  "pok p \<longleftrightarrow> Err p = None \<and> 0 \<le> Offset p \<and> Offset p \<le> int (length (Bytes p)) \<and> int (length (Bytes p)) \<le> MaxSize p"

definition wrote :: "bytes \<Rightarrow> packer \<Rightarrow> packer \<Rightarrow> bool" where
  "wrote e p q \<longleftrightarrow> pok q \<and> MaxSize q = MaxSize p \<and> Offset q = Offset p + int (length e)
     \<and> Bytes q = overwrite (Bytes p) (nat (Offset p)) e"

lemma wrote_nil: "pok p \<Longrightarrow> wrote [] p p"
  by (simp add: wrote_def)

lemma wrote_append: "\<lbrakk>pok p; wrote a p q; wrote b q r\<rbrakk> \<Longrightarrow> wrote (a @ b) p r"
  using overwrite_append [of "nat (Offset p)" "Bytes p" a b] by (auto simp: wrote_def pok_def nat_add_distrib)

text \<open>A step writes an encoding: it succeeds exactly when there is one and it fits, and it never panics.\<close>

definition writes :: "pstep \<Rightarrow> bytes option \<Rightarrow> bool" where
  "writes f r \<longleftrightarrow> (\<forall>p. pok p \<longrightarrow>
     (if \<exists>e. r = Some e \<and> Offset p + int (length e) \<le> MaxSize p
      then \<exists>q. f p = Some (None, q) \<and> wrote (the r) p q
      else \<exists>e q. f p = Some (Some e, q)))"

lemma writesI:
  assumes "\<And>p e. \<lbrakk>pok p; r = Some e; Offset p + int (length e) \<le> MaxSize p\<rbrakk> \<Longrightarrow> \<exists>q. f p = Some (None, q) \<and> wrote e p q"
    and "\<And>p. \<lbrakk>pok p; \<And>e. r = Some e \<Longrightarrow> MaxSize p < Offset p + int (length e)\<rbrakk> \<Longrightarrow> \<exists>e q. f p = Some (Some e, q)"
  shows "writes f r"
  unfolding writes_def using assms by (auto simp: not_le)

lemma writes_ok: "\<lbrakk>writes f (Some e); pok p; Offset p + int (length e) \<le> MaxSize p\<rbrakk> \<Longrightarrow> \<exists>q. f p = Some (None, q) \<and> wrote e p q"
  by (auto simp: writes_def)

lemma writes_fail: "\<lbrakk>writes f r; pok p; \<And>e. r = Some e \<Longrightarrow> MaxSize p < Offset p + int (length e)\<rbrakk> \<Longrightarrow> \<exists>e q. f p = Some (Some e, q)"
  unfolding writes_def by (metis not_le)

lemma writes_failing: "writes (failing e) None"
  by (simp add: writes_def failing_def)

lemma pok_offset_max: "pok p \<Longrightarrow> Offset p \<le> MaxSize p"
  by (simp add: pok_def)

lemma wrote_fits: "wrote e p q \<Longrightarrow> Offset p + int (length e) \<le> MaxSize p"
  by (auto simp: wrote_def pok_def)

lemma writes_skip: "writes skip (Some [])"
  by (rule writesI) (auto simp: skip_def wrote_nil dest: pok_offset_max)

lemma expand_at:
  assumes "pok p" "Offset p + int n \<le> MaxSize p"
  shows "let q = expand g (int n) p in Err q = None \<and> Offset q = Offset p \<and> MaxSize q = MaxSize p
    \<and> take (nat (Offset p)) (Bytes q) = take (nat (Offset p)) (Bytes p)
    \<and> drop (nat (Offset p) + n) (Bytes q) = drop (nat (Offset p) + n) (Bytes p)
    \<and> length (Bytes q) = max (length (Bytes p)) (nat (Offset p) + n)"
  using assms by (auto simp: expand_def Let_def pok_def max_def)

lemma pack_raw_at:
  assumes "pok p" "Offset p + int (length bs) \<le> MaxSize p"
  shows "\<exists>q. pack_raw g bs p = Some q \<and> wrote bs p q"
proof -
  define q where "q = expand g (int (length bs)) p"
  have q: "Err q = None" "Offset q = Offset p" "MaxSize q = MaxSize p"
      "take (nat (Offset p)) (Bytes q) = take (nat (Offset p)) (Bytes p)"
      "drop (nat (Offset p) + length bs) (Bytes q) = drop (nat (Offset p) + length bs) (Bytes p)"
      "length (Bytes q) = max (length (Bytes p)) (nat (Offset p) + length bs)"
    using expand_at [OF assms, of g] by (simp_all add: q_def Let_def)
  have o: "0 \<le> Offset p" "Offset p \<le> int (length (Bytes p))" "int (length (Bytes p)) \<le> MaxSize p"
    using assms(1) by (simp_all add: pok_def)
  have "write_at (Bytes q) (Offset q) bs = Some (overwrite (Bytes p) (nat (Offset p)) bs)"
    using o q by (auto simp: write_at_def Let_def overwrite_def min_def)
  then have "pack_raw g bs p = Some (q\<lparr>Bytes := overwrite (Bytes p) (nat (Offset p)) bs, Offset := Offset p + int (length bs)\<rparr>)"
    using q by (simp add: pack_raw_def q_def [symmetric] Let_def Errored_def)
  moreover have "length (overwrite (Bytes p) (nat (Offset p)) bs) = max (length (Bytes p)) (nat (Offset p) + length bs)"
    using o by (auto simp: overwrite_def)
  ultimately show ?thesis
    using o q assms(2) by (auto simp: wrote_def pok_def max_def)
qed

lemma pack_raw_full:
  assumes "pok p" "MaxSize p < Offset p + int (length bs)"
  shows "\<exists>q. pack_raw g bs p = Some q \<and> Err q \<noteq> None"
  using assms by (auto simp: pack_raw_def expand_def Let_def pok_def Errored_def)

lemma writes_raw: "writes (packed (pack_raw g bs)) (Some bs)"
proof (rule writesI)
  fix p e assume "pok p" "Some bs = Some e" "Offset p + int (length e) \<le> MaxSize p"
  then show "\<exists>q. packed (pack_raw g bs) p = Some (None, q) \<and> wrote e p q"
    using pack_raw_at [of p bs g] by (auto simp: packed_def wrote_def pok_def)
next
  fix p assume "pok p" "\<And>e. Some bs = Some e \<Longrightarrow> MaxSize p < Offset p + int (length e)"
  then show "\<exists>e q. packed (pack_raw g bs) p = Some (Some e, q)"
    using pack_raw_full [of p bs g] by (auto simp: packed_def)
qed

text \<open>Two encodings one after the other.\<close>

definition seq_enc :: "bytes option \<Rightarrow> bytes option \<Rightarrow> bytes option" where
  "seq_enc r s = Option.bind r (\<lambda>a. map_option ((@) a) s)"

lemma writes_andthen:
  assumes "writes f r" "writes h s"
  shows "writes (andthen f h) (seq_enc r s)"
proof (rule writesI)
  fix p e assume p: "pok p" and e: "seq_enc r s = Some e" and m: "Offset p + int (length e) \<le> MaxSize p"
  from e obtain a b where ab: "r = Some a" "s = Some b" "e = a @ b" by (auto simp: seq_enc_def bind_eq_Some_conv)
  obtain q where q: "f p = Some (None, q)" "wrote a p q" using writes_ok [of f a p] assms(1) p m ab by auto
  then have "pok q" "Offset q + int (length b) \<le> MaxSize q" using m ab(3) by (auto simp: wrote_def)
  then obtain u where "h q = Some (None, u)" "wrote b q u" using writes_ok [of h b q] assms(2) ab(2) by auto
  then show "\<exists>u. andthen f h p = Some (None, u) \<and> wrote e p u"
    using q ab(3) wrote_append [OF p] by (auto simp: andthen_def)
next
  fix p assume p: "pok p" and m: "\<And>e. seq_enc r s = Some e \<Longrightarrow> MaxSize p < Offset p + int (length e)"
  show "\<exists>e q. andthen f h p = Some (Some e, q)"
  proof (cases "\<exists>a. r = Some a \<and> Offset p + int (length a) \<le> MaxSize p")
    case True
    then obtain a q where q: "r = Some a" "f p = Some (None, q)" "wrote a p q" using writes_ok [of f _ p] assms(1) p by blast
    then have "pok q" by (simp add: wrote_def)
    then have "\<exists>e u. h q = Some (Some e, u)"
      using q m by (intro writes_fail [OF assms(2)]) (auto simp: seq_enc_def wrote_def)
    then show ?thesis using q by (auto simp: andthen_def)
  next
    case False
    then have "\<exists>e q. f p = Some (Some e, q)" using p by (intro writes_fail [OF assms(1)]) (auto simp: not_le)
    then show ?thesis by (auto simp: andthen_def)
  qed
qed

lemma writes_nonempty:
  assumes "writes f r"
  shows "writes (nonempty_step f) (nonempty r)"
proof (rule writesI)
  fix p e assume p: "pok p" and e: "nonempty r = Some e" and m: "Offset p + int (length e) \<le> MaxSize p"
  from e have r: "r = Some e" "e \<noteq> []" by (auto simp: nonempty_def split: if_splits)
  then obtain q where "f p = Some (None, q)" "wrote e p q" using writes_ok [of f e p] assms p m by auto
  with r(2) show "\<exists>q. nonempty_step f p = Some (None, q) \<and> wrote e p q" by (auto simp: nonempty_step_def wrote_def)
next
  fix p assume p: "pok p" and m: "\<And>e. nonempty r = Some e \<Longrightarrow> MaxSize p < Offset p + int (length e)"
  show "\<exists>e q. nonempty_step f p = Some (Some e, q)"
  proof (cases "r = Some []")
    case True
    then obtain q where "f p = Some (None, q)" "wrote [] p q" using writes_ok [of f "[]" p] assms p pok_offset_max by auto
    then show ?thesis by (simp add: nonempty_step_def wrote_def)
  next
    case False
    then have "\<exists>e q. f p = Some (Some e, q)" using p m by (intro writes_fail [OF assms]) (auto simp: nonempty_def)
    then show ?thesis by (auto simp: nonempty_step_def)
  qed
qed

lemma seq_enc_those: "seq_enc r (map_option concat (those rs)) = map_option concat (those (r # rs))"
  by (cases r; cases "those rs") (simp_all add: seq_enc_def)

lemma writes_all: "list_all2 writes fs rs \<Longrightarrow> writes (step_all fs) (map_option concat (those rs))"
proof (induction rule: list_all2_induct)
  case Nil
  then show ?case using writes_skip by simp
next
  case (Cons f fs r rs)
  then show ?case using writes_andthen [of f r "step_all fs" "map_option concat (those rs)"] by (simp only: step_all.simps seq_enc_those)
qed

lemma writes_len: "n \<le> MaxInt32 \<Longrightarrow> writes (pack_len g n) (Some (be_put 4 (of_nat n :: uint32)))"
  using writes_raw [of g "be_put 4 (of_nat n :: uint32)"] by (simp add: pack_len_def PackInt_def [abs_def])

lemma writes_slice_steps:
  assumes "list_all2 writes fs rs"
  shows "writes (andthen (pack_len g (length fs)) (step_all (map nonempty_step fs))) (slice_enc rs)"
proof (cases "length fs > MaxInt32")
  case True
  have "writes (andthen (failing e) h) None" for e h by (auto simp: andthen_def failing_def intro: writesI)
  then show ?thesis using True list_all2_lengthD [OF assms] by (simp add: slice_enc_def pack_len_def)
next
  case False
  have "list_all2 writes (map nonempty_step fs) (map nonempty rs)"
    using assms by (auto simp: list_all2_conv_all_nth intro: writes_nonempty)
  then have "writes (andthen (pack_len g (length fs)) (step_all (map nonempty_step fs)))
      (seq_enc (Some (be_put 4 (of_nat (length fs) :: uint32))) (map_option concat (those (map nonempty rs))))"
    using False by (intro writes_andthen writes_len writes_all) simp
  then show ?thesis using False list_all2_lengthD [OF assms]
    by (simp add: slice_enc_def seq_enc_def option.map_comp comp_def)
qed

subsection \<open>Maps\<close>

lemma map_sort_key: "map h (sort_key (\<lambda>x. f (h x)) xs) = sort_key f (map h xs)"
proof (induction xs)
  case (Cons x xs)
  have "map h (insort_key (\<lambda>x. f (h x)) x ys) = insort_key f (h x) (map h ys)" for ys by (induction ys) auto
  with Cons show ?case by simp
qed simp

lemma sort_key_all2:
  assumes "list_all2 R xs ys" "\<And>x y. R x y \<Longrightarrow> f x = h y"
  shows "list_all2 R (sort_key f xs) (sort_key h ys)"
  using assms(1)
proof (induction rule: list_all2_induct)
  case (Cons x xs y ys)
  have "list_all2 R (insort_key f x us) (insort_key h y vs)" if "list_all2 R us vs" for us vs
    using that by (induction rule: list_all2_induct) (use Cons.hyps(1) assms(2) in auto)
  with Cons.IH show ?case by simp
qed simp

text \<open>Where the keys stand.\<close>

fun key_ranges :: "int \<Rightarrow> bytes list \<Rightarrow> pstep list \<Rightarrow> (int \<times> int \<times> pstep) list" where
  "key_ranges o1 (k # ks) (f # fs) = (o1, o1 + int (length k), f) # key_ranges (o1 + int (length k)) ks fs"
| "key_ranges o1 _ _ = []"

lemma pack_keys_ok:
  assumes "list_all2 (\<lambda>f k. writes (fst f) (Some k)) kes ks" "pok p" "Offset p + int (length (concat ks)) \<le> MaxSize p"
  shows "\<exists>q. pack_keys kes p = Some (Inr (key_ranges (Offset p) ks (map snd kes)), q) \<and> wrote (concat ks) p q"
  using assms
proof (induction arbitrary: p rule: list_all2_induct)
  case Nil
  then show ?case by (simp add: wrote_nil)
next
  case (Cons fe kes k ks)
  obtain fk f where fe: "fe = (fk, f)" by (cases fe)
  have "Offset p + int (length k) \<le> MaxSize p" using Cons.prems by simp
  then obtain q where q: "fk p = Some (None, q)" "wrote k p q" using writes_ok [of fk k p] Cons.hyps(1) Cons.prems(1) fe by auto
  then have "pok q" "Offset q + int (length (concat ks)) \<le> MaxSize q" "Err q = None" "Offset q = Offset p + int (length k)"
    using Cons.prems(2) by (auto simp: wrote_def pok_def)
  moreover obtain u where "pack_keys kes q = Some (Inr (key_ranges (Offset q) ks (map snd kes)), u)" "wrote (concat ks) q u"
    using Cons.IH [of q] calculation by blast
  ultimately show ?case using q fe wrote_append [OF Cons.prems(1) q(2)] by auto
qed

lemma pack_keys_fail:
  assumes "list_all2 (\<lambda>f r. writes (fst f) r) kes rs" "pok p"
    "\<And>ks. those rs = Some ks \<Longrightarrow> MaxSize p < Offset p + int (length (concat ks))"
  shows "\<exists>e q. pack_keys kes p = Some (Inl e, q)"
  using assms
proof (induction arbitrary: p rule: list_all2_induct)
  case Nil
  then show ?case using pok_offset_max [of p] by simp
next
  case (Cons fe kes r rs)
  obtain fk f where fe: "fe = (fk, f)" by (cases fe)
  show ?case
  proof (cases "\<exists>k. r = Some k \<and> Offset p + int (length k) \<le> MaxSize p")
    case True
    then obtain k where k: "r = Some k" "Offset p + int (length k) \<le> MaxSize p" by blast
    then obtain q where q: "r = Some k" "fk p = Some (None, q)" "wrote k p q"
      using writes_ok [of fk k p] Cons.hyps(1) Cons.prems(1) fe by auto
    then have "pok q" "Err q = None" by (auto simp: wrote_def pok_def)
    moreover have "\<exists>e u. pack_keys kes q = Some (Inl e, u)"
      using q Cons.prems(2) calculation by (intro Cons.IH) (auto simp: wrote_def)
    ultimately show ?thesis using q fe by auto
  next
    case False
    then have "\<exists>e q. fk p = Some (Some e, q)"
      using Cons.hyps(1) Cons.prems(1) fe by (intro writes_fail [of fk r]) (auto simp: not_le)
    then show ?thesis using fe by auto
  qed
qed

lemma key_ranges_bytes:
  assumes "0 \<le> i" "drop (nat i) bs = concat ks @ rest" "length ks = length fs"
  shows "map (\<lambda>k. (read_at bs (fst k) (nat (fst (snd k) - fst k)), snd (snd k))) (key_ranges i ks fs) = zip ks fs"
  using assms(2,3,1)
proof (induction ks arbitrary: fs i)
  case (Cons k ks)
  then obtain f fs' where fs: "fs = f # fs'" by (cases fs) auto
  have "drop (nat (i + int (length k))) bs = drop (length k) (drop (nat i) bs)"
    using Cons.prems(3) by (simp add: nat_add_distrib add.commute)
  then have "drop (nat (i + int (length k))) bs = concat ks @ rest" using Cons.prems(1) by simp
  then have "map (\<lambda>k. (read_at bs (fst k) (nat (fst (snd k) - fst k)), snd (snd k))) (key_ranges (i + int (length k)) ks fs') = zip ks fs'"
    using Cons.prems by (intro Cons.IH) (simp_all add: fs)
  then show ?case using Cons.prems by (simp add: fs read_at_def)
qed simp

text \<open>The steps of the second pass, as the reference orders them.\<close>

lemma sorted_steps:
  assumes "pok p" "wrote (concat ks) p q" "length ks = length fs"
  shows "map (\<lambda>k. nonempty_step (andthen (packed (PackFixedBytes g (key_bytes q k))) (snd (snd k)))) (sort_key (key_bytes q) (key_ranges (Offset p) ks fs))
    = map (\<lambda>(k, f). nonempty_step (andthen (packed (pack_raw g k)) f)) (sort_key fst (zip ks fs))"
proof -
  let ?h = "\<lambda>k. (key_bytes q k, snd (snd k))"
  have o: "0 \<le> Offset p" "nat (Offset p) \<le> length (Bytes p)" using assms(1) by (auto simp: pok_def)
  have "drop (nat (Offset p)) (Bytes q) = concat ks @ drop (nat (Offset p) + length (concat ks)) (Bytes p)"
    using assms(2) o by (simp add: wrote_def overwrite_def)
  then have z: "map ?h (key_ranges (Offset p) ks fs) = zip ks fs"
    using key_ranges_bytes [OF o(1) _ assms(3), of "Bytes q"] by (simp add: key_bytes_def split_beta)
  have "map ?h (sort_key (key_bytes q) (key_ranges (Offset p) ks fs)) = sort_key fst (zip ks fs)"
    using map_sort_key [of ?h fst "key_ranges (Offset p) ks fs"] by (simp add: z)
  from arg_cong [OF this, of "map (\<lambda>(k, f). nonempty_step (andthen (packed (pack_raw g k)) f))"]
  show ?thesis by (simp add: comp_def PackFixedBytes_def [abs_def])
qed

lemma sort_key_sum: "length (concat (map h (sort_key f xs))) = length (concat (map h xs))"
proof (induction xs)
  case (Cons x xs)
  have "length (concat (map h (insort_key f x ys))) = length (h x) + length (concat (map h ys))" for ys by (induction ys) auto
  with Cons show ?case by simp
qed simp

abbreviation entry_enc :: "bytes \<times> bytes option \<Rightarrow> bytes option" where
  "entry_enc \<equiv> \<lambda>(k, r). nonempty (map_option ((@) k) r)"

abbreviation entry_step :: "grower \<Rightarrow> bytes \<times> pstep \<Rightarrow> pstep" where
  "entry_step g \<equiv> \<lambda>(k, f). nonempty_step (andthen (packed (pack_raw g k)) f)"

lemma nonempty_Some: "nonempty r = Some e \<longleftrightarrow> r = Some e \<and> e \<noteq> []"
  by (auto simp: nonempty_def)

lemma those_Some: "those rs = Some es \<longleftrightarrow> rs = map Some es"
  by (induction rs arbitrary: es) (auto split: option.splits simp: map_eq_Cons_conv)

lemma entry_enc_Some: "entry_enc x = Some u \<longleftrightarrow> (\<exists>e. snd x = Some e \<and> u = fst x @ e \<and> (fst x \<noteq> [] \<or> e \<noteq> []))"
  by (auto simp: nonempty_Some split: prod.splits)

lemma entries_Some:
  assumes "map entry_enc xs = map Some us"
  shows "us = map (\<lambda>x. fst x @ the (snd x)) xs \<and> (\<forall>x\<in>set xs. \<exists>e. snd x = Some e \<and> (fst x \<noteq> [] \<or> e \<noteq> []))"
  using assms
proof (induction xs arbitrary: us)
  case (Cons x xs)
  then obtain u us' where "us = u # us'" "entry_enc x = Some u" "map entry_enc xs = map Some us'" by (auto simp: Cons_eq_map_conv)
  with Cons.IH [of us'] show ?case by (auto simp: entry_enc_Some)
qed simp

lemma entries_longer: "those (map entry_enc xs) = Some es \<Longrightarrow> length (concat (map fst xs)) \<le> length (concat es)"
proof (induction xs arbitrary: es)
  case (Cons x xs)
  then obtain e es' where es: "es = e # es'" "entry_enc x = Some e" "those (map entry_enc xs) = Some es'"
    by (auto split: option.splits)
  then have "length (fst x) \<le> length e" by (auto simp: nonempty_Some split: prod.splits)
  with Cons.IH [OF es(3)] es(1) show ?case by simp
qed simp

lemma writes_sorted:
  assumes "list_all2 writes fs rs" "length ks = length fs"
  shows "writes (step_all (map (entry_step g) (sort_key fst (zip ks fs)))) (map_option concat (those (map entry_enc (sort_key fst (zip ks rs)))))"
proof -
  let ?R = "\<lambda>x y. fst x = fst y \<and> writes (snd x) (snd y)"
  have "list_all2 ?R (zip ks fs) (zip ks rs)"
    using assms by (auto simp: list_all2_conv_all_nth)
  then have "list_all2 ?R (sort_key fst (zip ks fs)) (sort_key fst (zip ks rs))" by (rule sort_key_all2) simp
  moreover have "writes (entry_step g x) (entry_enc y)" if "?R x y" for x y
    using that writes_andthen [OF writes_raw, of "snd x" "snd y" g "fst y"]
    by (auto simp: split_beta seq_enc_def intro: writes_nonempty)
  ultimately have "list_all2 (\<lambda>x y. writes (entry_step g x) (entry_enc y)) (sort_key fst (zip ks fs)) (sort_key fst (zip ks rs))"
    by (rule list_all2_mono)
  then show ?thesis by (intro writes_all) (simp only: list_all2_map1 list_all2_map2)
qed

lemma rewound:
  assumes "pok p" "wrote k p q"
  shows "pok (q\<lparr>Offset := Offset p\<rparr>)"
    and "\<lbrakk>wrote e (q\<lparr>Offset := Offset p\<rparr>) u; length k \<le> length e\<rbrakk> \<Longrightarrow> wrote e p u"
  using assms overwrite_longer [of "nat (Offset p)" "Bytes p" k e] by (auto simp: wrote_def pok_def)

lemma writes_map_body:
  assumes all: "list_all2 (\<lambda>f r. writes (fst f) (fst r) \<and> writes (snd f) (snd r)) kes rs"
    and body: "\<And>p. body p = (case pack_keys kes p of
       None \<Rightarrow> None
     | Some (Inl e, q) \<Rightarrow> Some (Some e, q)
     | Some (Inr ks, q) \<Rightarrow>
         step_all (map (\<lambda>k. nonempty_step (andthen (packed (PackFixedBytes g (key_bytes q k))) (snd (snd k)))) (sort_key (key_bytes q) ks))
           (q\<lparr>Offset := Offset p\<rparr>))"
  shows "writes body (Option.bind (those (map fst rs)) (\<lambda>ks. map_option concat (those (map entry_enc (sort_key fst (zip ks (map snd rs)))))))"
    (is "writes _ (Option.bind _ (\<lambda>ks. map_option concat (those (?es ks))))")
proof (cases "those (map fst rs)")
  case None
  have "\<exists>e q. pack_keys kes p = Some (Inl e, q)" if "pok p" for p
    using all that by (intro pack_keys_fail [of kes "map fst rs"]) (auto simp: list_all2_conv_all_nth None)
  then have "\<exists>e q. body p = Some (Some e, q)" if "pok p" for p using that by (fastforce simp: body)
  then show ?thesis unfolding None by (simp add: writes_def)
next
  case (Some ks)
  then have rs: "map fst rs = map Some ks" by (simp add: those_Some)
  have len: "length kes = length rs" "length ks = length rs"
    using all arg_cong [OF rs, of length] by (auto simp: list_all2_lengthD)
  have k2: "list_all2 (\<lambda>f k. writes (fst f) (Some k)) kes ks"
    using all len rs unfolding list_all2_conv_all_nth by (metis length_map nth_map)
  have w: "writes (step_all (map (entry_step g) (sort_key fst (zip ks (map snd kes))))) (map_option concat (those (?es ks)))"
    using all len by (intro writes_sorted) (auto simp: list_all2_conv_all_nth)
  have run: "\<exists>q. wrote (concat ks) p q \<and> body p = step_all (map (entry_step g) (sort_key fst (zip ks (map snd kes)))) (q\<lparr>Offset := Offset p\<rparr>)"
    if "pok p" "Offset p + int (length (concat ks)) \<le> MaxSize p" for p
    using pack_keys_ok [OF k2 that] sorted_steps [OF that(1), of ks _ "map snd kes" g] len by (auto simp: body)
  have longer: "length (concat ks) \<le> length (concat es)" if "those (?es ks) = Some es" for es
    using entries_longer [OF that] sort_key_sum [of fst fst "zip ks (map snd rs)"] len by simp
  show ?thesis
  proof (rule writesI)
    fix p e assume p: "pok p" "Offset p + int (length e) \<le> MaxSize p"
      and "Option.bind (those (map fst rs)) (\<lambda>ks. map_option concat (those (?es ks))) = Some e"
    then obtain es where es: "those (?es ks) = Some es" "e = concat es" by (auto simp: Some)
    obtain q where q: "wrote (concat ks) p q" "body p = step_all (map (entry_step g) (sort_key fst (zip ks (map snd kes)))) (q\<lparr>Offset := Offset p\<rparr>)"
      using run [OF p(1)] longer [OF es(1)] p(2) es(2) by auto
    have "\<exists>u. body p = Some (None, u) \<and> wrote e (q\<lparr>Offset := Offset p\<rparr>) u"
      unfolding q(2) using w es p q(1) rewound(1) [OF p(1) q(1)] by (intro writes_ok) (auto simp: wrote_def)
    then show "\<exists>u. body p = Some (None, u) \<and> wrote e p u"
      using rewound(2) [OF p(1) q(1)] longer [OF es(1)] es(2) by blast
  next
    fix p assume p: "pok p"
      and m: "\<And>e. Option.bind (those (map fst rs)) (\<lambda>ks. map_option concat (those (?es ks))) = Some e \<Longrightarrow> MaxSize p < Offset p + int (length e)"
    show "\<exists>e q. body p = Some (Some e, q)"
    proof (cases "Offset p + int (length (concat ks)) \<le> MaxSize p")
      case True
      then obtain q where q: "wrote (concat ks) p q" "body p = step_all (map (entry_step g) (sort_key fst (zip ks (map snd kes)))) (q\<lparr>Offset := Offset p\<rparr>)"
        using run [OF p] by blast
      show ?thesis unfolding q(2) using rewound(1) [OF p q(1)] m q(1)
        by (intro writes_fail [OF w]) (auto simp: Some wrote_def)
    next
      case False
      then have "\<exists>e q. pack_keys kes p = Some (Inl e, q)"
        using all p by (intro pack_keys_fail [of kes "map fst rs"]) (auto simp: list_all2_conv_all_nth Some)
      then show ?thesis by (auto simp: body)
    qed
  qed
qed

lemma writes_map:
  assumes "list_all2 (\<lambda>f r. writes (fst f) (fst r) \<and> writes (snd f) (snd r)) kes rs"
  shows "writes (map_step g kes) (map_enc rs)"
proof (cases "length kes > MaxInt32")
  case True
  have "writes (andthen (failing e) h) None" for e h by (auto simp: andthen_def failing_def intro: writesI)
  then show ?thesis using True list_all2_lengthD [OF assms] by (simp add: map_enc_def map_step_def pack_len_def)
next
  case False
  have "map_enc rs = seq_enc (Some (be_put 4 (of_nat (length kes) :: uint32)))
      (Option.bind (those (map fst rs)) (\<lambda>ks. map_option concat (those (map entry_enc (sort_key fst (zip ks (map snd rs)))))))"
    using False list_all2_lengthD [OF assms]
    by (cases "those (map fst rs)") (simp_all add: map_enc_def seq_enc_def option.map_comp comp_def)
  then show ?thesis unfolding map_step_def
    using False assms by (simp only:) (intro writes_andthen writes_len writes_map_body refl, simp_all)
qed

subsection \<open>The marshaller writes the encoding\<close>

definition same_outcome :: "pstep \<Rightarrow> pstep \<Rightarrow> bool" where
  "same_outcome f h \<longleftrightarrow> (\<forall>p. f p = h p \<or> (\<exists>d e q u. f p = Some (Some d, q) \<and> h p = Some (Some e, u)))"

lemma writes_same: "\<lbrakk>same_outcome f h; writes h r\<rbrakk> \<Longrightarrow> writes f r"
  unfolding writes_def
proof (intro allI impI)
  fix p assume s: "same_outcome f h" and w: "\<forall>p. pok p \<longrightarrow> (if \<exists>e. r = Some e \<and> Offset p + int (length e) \<le> MaxSize p
      then \<exists>q. h p = Some (None, q) \<and> wrote (the r) p q else \<exists>e q. h p = Some (Some e, q))" and p: "pok p"
  from s consider "f p = h p" | d e q u where "f p = Some (Some d, q)" "h p = Some (Some e, u)" unfolding same_outcome_def by blast
  then show "if \<exists>e. r = Some e \<and> Offset p + int (length e) \<le> MaxSize p
      then \<exists>q. f p = Some (None, q) \<and> wrote (the r) p q else \<exists>e q. f p = Some (Some e, q)"
    using w [rule_format, OF p] by cases (simp_all split: if_splits)
qed

lemma writes_str: "writes (packed (PackStr g s)) (scalar_enc (VString s))"
proof (cases "length s > MaxStringLen")
  case True
  then show ?thesis by (simp add: writes_def packed_def PackStr_def scalar_enc_def AddErr_def)
next
  case False
  let ?n = "be_put 2 (of_nat (length s) :: uint16)"
  have sticky: "\<exists>q'. pack_raw g s q = Some q' \<and> Err q' \<noteq> None" if "Err q \<noteq> None" for q
    using that by (auto simp: pack_raw_def expand_def Let_def Errored_def)
  have "packed (PackStr g s) p = andthen (packed (pack_raw g ?n)) (packed (pack_raw g s)) p \<or>
      (\<exists>d e q u. packed (PackStr g s) p = Some (Some d, q) \<and> andthen (packed (pack_raw g ?n)) (packed (pack_raw g s)) p = Some (Some e, u))" for p
  proof (cases "pack_raw g ?n p")
    case None
    then show ?thesis using False by (simp add: packed_def andthen_def PackStr_def PackShort_def)
  next
    case (Some q)
    show ?thesis
    proof (cases "Err q = None")
      case True
      with Some False show ?thesis by (simp add: packed_def andthen_def PackStr_def PackShort_def PackFixedBytes_def)
    next
      case err: False
      with Some False sticky [OF err] show ?thesis by (auto simp: packed_def andthen_def PackStr_def PackShort_def PackFixedBytes_def)
    qed
  qed
  then have "same_outcome (packed (PackStr g s)) (andthen (packed (pack_raw g ?n)) (packed (pack_raw g s)))"
    unfolding same_outcome_def by blast
  from writes_same [OF this writes_andthen [OF writes_raw writes_raw]] False show ?thesis
    by (simp add: scalar_enc_def seq_enc_def)
qed

lemma writes_scalar: "conf impl t v \<Longrightarrow> writes (scalar_step g t v) (scalar_enc v)"
  using writes_raw [of g] writes_str [of g] writes_failing
  by (cases v) (auto simp: scalar_step_def scalar_enc_def PackByte_def [abs_def] PackShort_def [abs_def] PackInt_def [abs_def]
      PackLong_def [abs_def] PackBool_def [abs_def] split: gty.splits)

lemma conf_bytes: "\<forall>v\<in>set vs. conf impl TUint8 v \<Longrightarrow> map (\<lambda>v. enc C S TUint8 v) vs = map (\<lambda>v. Some [val_byte v]) vs"
proof (rule map_cong)
  fix v assume "\<forall>v\<in>set vs. conf impl TUint8 v" "v \<in> set vs"
  then have "conf impl TUint8 v" by blast
  then show "enc C S TUint8 v = Some [val_byte v]" by (cases v) (auto simp: scalar_enc_def val_byte_def)
qed simp

lemma slice_enc_bytes: "slice_enc (map (\<lambda>v. Some [f v]) vs) =
    (if length vs > MaxInt32 then None else Some (be_put 4 (of_nat (length vs) :: uint32) @ map f vs))"
proof -
  have "those (map nonempty (map (\<lambda>v. Some [f v]) vs)) = Some (map (\<lambda>v. [f v]) vs)"
    by (simp add: those_Some nonempty_def comp_def)
  then show ?thesis by (simp add: slice_enc_def concat_map_singleton comp_def)
qed

lemma writes_slice:
  assumes "\<forall>v\<in>set vs. conf impl t v" "\<And>v. v \<in> set vs \<Longrightarrow> writes (marshal g C S t v) (enc C S t v)"
  shows "writes (slice_step g t vs (map (\<lambda>v. marshal g C S t v) vs)) (slice_enc (map (\<lambda>v. enc C S t v) vs))"
proof (cases "t = TUint8 \<and> vs \<noteq> []")
  case True
  show ?thesis
  proof (cases "length vs > MaxInt32")
    case big: True
    then show ?thesis by (simp add: slice_step_def pack_len_def slice_enc_def andthen_def failing_def writes_def)
  next
    case False
    then have "writes (andthen (pack_len g (length vs)) (packed (pack_raw g (map val_byte vs))))
        (seq_enc (Some (be_put 4 (of_nat (length vs) :: uint32))) (Some (map val_byte vs)))"
      by (intro writes_andthen writes_len writes_raw) simp
    with True False assms(1) show ?thesis
      by (simp add: slice_step_def conf_bytes [of vs impl] slice_enc_bytes seq_enc_def PackFixedBytes_def [abs_def])
  qed
next
  case False
  have "list_all2 writes (map (\<lambda>v. marshal g C S t v) vs) (map (\<lambda>v. enc C S t v) vs)"
    using assms(2) by (simp add: list_all2_conv_all_nth)
  from writes_slice_steps [OF this, of g] False show ?thesis by (auto simp: slice_step_def)
qed

lemma marshal_writes: "conf impl t v \<Longrightarrow> writes (marshal g C S t v) (enc C S t v)"
proof (induction C S t v rule: enc.induct)
  case (1 C S t r)
  then show ?case by (auto split: gty.splits option.splits simp: writes_failing)
next
  case (2 C S t r)
  show ?case
  proof (cases "\<exists>i t' v. t = TInterface i \<and> r = Some (t', v) \<and> t' \<notin> S")
    case True
    then obtain i t' v where r: "t = TInterface i" "r = Some (t', v)" "t' \<notin> S" by blast
    show ?thesis
    proof (cases "bm_GetKey (registeredTypes C) t'")
      case None
      then show ?thesis using r by (simp add: PackPrefix_def andthen_def failing_def writes_def)
    next
      case (Some n)
      then have w: "writes (marshal g C (insert t' S) t' v) (enc C (insert t' S) t' v)" using 2 r by simp
      from writes_andthen [OF writes_raw w, of g "be_put 4 n"] Some r show ?thesis
        by (simp add: PackPrefix_def PackInt_def [abs_def] seq_enc_def)
    qed
  next
    case False
    then show ?thesis using 2(2) by (auto split: gty.splits option.splits simp: writes_failing)
  qed
next
  case (3 C S t vs)
  then show ?case by (auto split: gty.splits intro!: writes_slice)
next
  case (4 C S t vs)
  then show ?case by (auto split: gty.splits simp: list_all2_conv_all_nth intro!: writes_all)
next
  case (5 C S t vs)
  then obtain s fs where t: "t = TStruct s fs" by (auto split: gty.splits)
  show ?case
  proof (cases "serialized_fields (tagNames C) 0 fs")
    case (Inl e)
    then show ?thesis by (simp add: t writes_failing)
  next
    case (Inr "is")
    have "writes (marshal g C S (fst x) (snd x)) (enc C S (fst x) (snd x))" if "x \<in> set (pick is (zip (map fType fs) vs))" for x
    proof -
      obtain t' v where x: "x = (t', v)" by (cases x)
      have "(t', v) \<in> set (zip (map fType fs) vs)" using that x set_pick [of "is" "zip (map fType fs) vs"] by auto
      then have "conf impl t' v" using 5(2) t by auto
      then show ?thesis using 5(1) [OF t Inr that x [symmetric]] x by simp
    qed
    then show ?thesis by (auto simp: t Inr list_all2_conv_all_nth split_beta intro!: writes_all)
  qed
next
  case (6 C S t kvs)
  then obtain kt et where t: "t = TMap kt et" by (auto split: gty.splits)
  have "writes (marshal g C S kt (fst x)) (enc C S kt (fst x)) \<and> writes (marshal g C S et (snd x)) (enc C S et (snd x))" if "x \<in> set kvs" for x
    using 6 that t by (cases x) auto
  then have "writes (marshal g C S kt (fst (kvs ! i))) (enc C S kt (fst (kvs ! i))) \<and>
      writes (marshal g C S et (snd (kvs ! i))) (enc C S et (snd (kvs ! i)))" if "i < length kvs" for i using that by simp
  then show ?case by (simp add: t list_all2_conv_all_nth split_beta writes_map)
qed (simp_all add: writes_scalar del: conf.simps)

end
