(* ===== verification/Codec_Size.thy ===== *)
theory Codec_Size
  imports Codec_Encode
begin

text \<open>
  \<open>Size\<close> of the codec, which measures one element of a slice, array or map and multiplies when the type
  has a constant size, is the length of the encoding.
\<close>

subsection \<open>The width of constant-size types\<close>

lemma size_pick_field [termination_simp]: "f \<in> set (pick is fs) \<Longrightarrow> size (fType f) < Suc (size_list size fs)"
  using set_pick [of "is" fs] size_fType by blast

fun const_width :: "linearCodec \<Rightarrow> gty \<Rightarrow> nat option" where
  "const_width C (TPtr t) = const_width C t"
| "const_width C (TArray n t) = (if n = 0 then Some 0 else map_option ((*) n) (const_width C t))"
| "const_width C (TStruct s fs) =
     (case serialized_fields (tagNames C) 0 fs of
        Inl e \<Rightarrow> None
      | Inr is \<Rightarrow> map_option sum_list (those (map (\<lambda>f. const_width C (fType f)) (pick is fs))))"
| "const_width C t = fixed_width t"

lemma pick_zip: "length xs = length ys \<Longrightarrow> pick is (zip xs ys) = zip (pick is xs) (pick is ys)"
  by (induction "is") (auto simp: pick_def)

lemma pick_map: "pick is (map f xs) = map f (pick is xs)"
  by (induction "is") (auto simp: pick_def)

lemma length_pick: "length xs = length ys \<Longrightarrow> length (pick is xs) = length (pick is ys)"
  by (simp add: pick_def)

lemma fields_widths: "length vs = length fs \<Longrightarrow>
    map (\<lambda>x. w (fst x)) (pick is (zip (map fType fs) vs)) = map (\<lambda>f. w (fType f)) (pick is fs)"
proof -
  assume l: "length vs = length fs"
  then have "map fst (pick is (zip (map fType fs) vs)) = map fType (pick is fs)"
    using length_pick [of vs "map fType fs" "is"] by (simp add: pick_zip pick_map)
  from arg_cong [OF this, of "map w"] show ?thesis by (simp add: comp_def)
qed

lemma those_lengths:
  assumes "those (map f xs) = Some bs" "those (map w xs) = Some ns"
    "\<And>x b n. \<lbrakk>x \<in> set xs; f x = Some b; w x = Some n\<rbrakk> \<Longrightarrow> length b = n"
  shows "length (concat bs) = sum_list ns"
  using assms
proof (induction xs arbitrary: bs ns)
  case (Cons x xs)
  then obtain b bs' n ns' where "bs = b # bs'" "ns = n # ns'" "f x = Some b" "w x = Some n" "those (map f xs) = Some bs'" "those (map w xs) = Some ns'"
    by (auto split: option.splits)
  moreover have "length (concat bs') = sum_list ns'" using Cons.prems(3) calculation by (intro Cons.IH) auto
  moreover have "length b = n" using Cons.prems(3) [of x] calculation by simp
  ultimately show ?case by simp
qed simp

lemma those_const_length:
  assumes "those (map f xs) = Some bs" "\<And>x b. \<lbrakk>x \<in> set xs; f x = Some b\<rbrakk> \<Longrightarrow> length b = n"
  shows "length (concat bs) = length xs * n"
proof -
  have "those (map (\<lambda>x. Some n) xs) = Some (map (\<lambda>x. n) xs)" by (simp add: those_Some)
  from those_lengths [OF assms(1) this] assms(2) show ?thesis by (simp add: sum_list_triv)
qed

lemma const_width_scalar: "\<lbrakk>conf impl t v; scalar_enc v = Some b; const_width C t = Some n\<rbrakk> \<Longrightarrow> length b = n"
  by (cases v) (auto simp: scalar_enc_def fixed_width_def split: gty.splits if_splits)

lemma zip_field_conf: "\<lbrakk>conf impl (TStruct s fs) (VStruct vs); x \<in> set (pick is (zip (map fType fs) vs))\<rbrakk> \<Longrightarrow> conf impl (fst x) (snd x)"
  using set_pick [of "is" "zip (map fType fs) vs"] by (auto simp: case_prod_unfold)

lemma const_width_enc: "\<lbrakk>conf impl t v; enc C S t v = Some b; const_width C t = Some n\<rbrakk> \<Longrightarrow> length b = n"
proof (induction C S t v arbitrary: b n rule: enc.induct)
  case (1 C S t r)
  then show ?case by (auto split: gty.splits option.splits)
next
  case (2 C S t r)
  then show ?case by (auto split: gty.splits simp: fixed_width_def)
next
  case (3 C S t vs)
  then show ?case by (auto split: gty.splits simp: fixed_width_def)
next
  case (4 C S t vs)
  then obtain m t' where t: "t = TArray m t'" "length vs = m" "\<forall>v\<in>set vs. conf impl t' v" by (auto split: gty.splits)
  show ?case
  proof (cases "m = 0")
    case True
    then show ?thesis using 4(3,4) t by auto
  next
    case False
    then obtain k where k: "const_width C t' = Some k" "n = m * k" using 4(4) t by auto
    obtain bs where bs: "those (map (\<lambda>v. enc C S t' v) vs) = Some bs" "b = concat bs" using 4(3) t by auto
    show ?thesis using those_const_length [OF bs(1), of k] 4(1) [OF t(1) _ _ _ k(1)] t bs(2) k(2) by auto
  qed
next
  case (5 C S t vs)
  then obtain s fs where t: "t = TStruct s fs" "length vs = length fs" by (auto split: gty.splits)
  then obtain "is" where i: "serialized_fields (tagNames C) 0 fs = Inr is" using 5(3) by (auto split: sum.splits)
  let ?xs = "pick is (zip (map fType fs) vs)"
  obtain bs where bs: "those (map (\<lambda>x. enc C S (fst x) (snd x)) ?xs) = Some bs" "b = concat bs"
    using 5(3) t i by (auto simp: case_prod_unfold)
  obtain ns where ns: "those (map (\<lambda>x. const_width C (fst x)) ?xs) = Some ns" "n = sum_list ns"
    using 5(4) t i fields_widths [OF t(2), of "const_width C" "is"] by auto
  have "length c = k" if "x \<in> set ?xs" "enc C S (fst x) (snd x) = Some c" "const_width C (fst x) = Some k" for x c k
    using 5(1) [OF t(1) i that(1) prod.collapse] that zip_field_conf [of impl s fs vs x] 5(2) t(1) by simp
  then show ?case using those_lengths [OF bs(1) ns(1)] bs(2) ns(2) by simp
next
  case (6 C S t kvs)
  then show ?case by (auto split: gty.splits simp: fixed_width_def)
qed (use const_width_scalar in \<open>simp_all del: conf.simps\<close>)
subsection \<open>Size is the length of the encoding\<close>

text \<open>A size result is right for an encoding and a width.\<close>

definition sized :: "size_result \<Rightarrow> bytes \<Rightarrow> nat option \<Rightarrow> bool" where
  "sized r b w \<longleftrightarrow> (\<exists>c. r = Inr (length b, c) \<and> (c \<longrightarrow> w = Some (length b)))"

lemma sizedD: "sized r b w \<Longrightarrow> \<exists>c. r = Inr (length b, c) \<and> (c \<longrightarrow> w = Some (length b))"
  by (simp add: sized_def)

lemma sum_sizes_ok:
  assumes "those (map f xs) = Some bs" "\<And>x b. \<lbrakk>x \<in> set xs; f x = Some b\<rbrakk> \<Longrightarrow> sized (s x) b (w x)"
  shows "sum_sizes (map s xs) = Inr (length (concat bs))"
  using assms
proof (induction xs arbitrary: bs)
  case (Cons x xs)
  then obtain b bs' where b: "bs = b # bs'" "f x = Some b" "those (map f xs) = Some bs'" by (auto split: option.splits)
  have "sum_sizes (map s xs) = Inr (length (concat bs'))" using Cons.prems(2) by (intro Cons.IH b(3)) simp
  then show ?case using sizedD [OF Cons.prems(2) [OF _ b(2)]] b(1) by (auto simp: res_bind_def)
qed simp

lemma struct_size_ok:
  assumes "those (map f xs) = Some bs" "\<And>x b. \<lbrakk>x \<in> set xs; f x = Some b\<rbrakk> \<Longrightarrow> sized (s x) b (w x)"
  shows "sized (struct_size (map s xs)) (concat bs) (map_option sum_list (those (map w xs)))"
  using assms
proof (induction xs arbitrary: bs)
  case (Cons x xs)
  then obtain b bs' where b: "bs = b # bs'" "f x = Some b" "those (map f xs) = Some bs'" by (auto split: option.splits)
  have "sized (struct_size (map s xs)) (concat bs') (map_option sum_list (those (map w xs)))"
    using Cons.prems(2) by (intro Cons.IH b(3)) simp
  then show ?case using sizedD [OF Cons.prems(2) [OF _ b(2)]] b(1) by (auto simp: res_bind_def sized_def)
qed (auto simp: sized_def)

lemma array_size_ok:
  assumes "those (map f xs) = Some bs" "\<And>x b. \<lbrakk>x \<in> set xs; f x = Some b\<rbrakk> \<Longrightarrow> sized (s x) b w"
    "\<And>x b n. \<lbrakk>x \<in> set xs; f x = Some b; w = Some n\<rbrakk> \<Longrightarrow> length b = n"
  shows "sized (array_size (map s xs)) (concat bs) (if xs = [] then Some 0 else map_option ((*) (length xs)) w)"
proof (cases xs)
  case Nil
  then show ?thesis using assms(1) by (auto simp: array_size_def sized_def)
next
  case (Cons x ys)
  then obtain b bs' where b: "bs = b # bs'" "f x = Some b" "those (map f ys) = Some bs'" using assms(1) by (auto split: option.splits)
  obtain c where c: "s x = Inr (length b, c)" "c \<longrightarrow> w = Some (length b)" using sizedD [OF assms(2) [OF _ b(2)]] Cons by auto
  have "sum_sizes (map s ys) = Inr (length (concat bs'))" using assms(2) Cons by (intro sum_sizes_ok [OF b(3), where w = "\<lambda>_. w"]) simp
  moreover have "length (concat bs) = length xs * length b" if c
    using that c(2) assms(3) by (intro those_const_length [OF assms(1)]) auto
  ultimately show ?thesis using Cons c b(1) by (auto simp: array_size_def res_bind_def sized_def)
qed

lemma slice_size_ok:
  assumes "slice_enc (map f xs) = Some e" "\<And>x b. \<lbrakk>x \<in> set xs; f x = Some b\<rbrakk> \<Longrightarrow> sized (s x) b w"
    "\<And>x b n. \<lbrakk>x \<in> set xs; f x = Some b; w = Some n\<rbrakk> \<Longrightarrow> length b = n"
  shows "sized (slice_size (map s xs)) e None"
proof -
  obtain bs where bs: "those (map (\<lambda>x. nonempty (f x)) xs) = Some bs" "length e = 4 + length (concat bs)"
    using assms(1) by (auto simp: slice_enc_def comp_def split: if_splits)
  have sz: "sized (s x) b w \<and> b \<noteq> []" if "x \<in> set xs" "nonempty (f x) = Some b" for x b using that assms(2) by (auto simp: nonempty_Some)
  show ?thesis
  proof (cases xs)
    case Nil
    then show ?thesis using bs by (auto simp: slice_size_def sized_def)
  next
    case (Cons x ys)
    then obtain b bs' where b: "bs = b # bs'" "nonempty (f x) = Some b" "those (map (\<lambda>x. nonempty (f x)) ys) = Some bs'"
      using bs(1) by (auto split: option.splits)
    obtain c where c: "s x = Inr (length b, c)" "c \<longrightarrow> w = Some (length b)" "b \<noteq> []" using sz [OF _ b(2)] Cons by (auto simp: sized_def)
    have "sum_sizes (map s ys) = Inr (length (concat bs'))" using sz Cons by (intro sum_sizes_ok [OF b(3), where w = "\<lambda>_. w"]) simp
    moreover have "length (concat bs) = length xs * length b" if c
      using that c(2) assms(3) by (intro those_const_length [OF bs(1)]) (auto simp: nonempty_Some)
    ultimately show ?thesis using Cons c b(1) bs(2) by (auto simp: slice_size_def res_bind_def sized_def)
  qed
qed

lemma zip_entries:
  assumes "length ks = length rs" "\<forall>x\<in>set (zip ks rs). \<exists>e. snd x = Some e \<and> (fst x \<noteq> [] \<or> e \<noteq> [])"
  shows "\<exists>es. rs = map Some es \<and> (\<forall>x\<in>set (zip ks es). fst x \<noteq> [] \<or> snd x \<noteq> [])
    \<and> length (concat (map (\<lambda>x. fst x @ the (snd x)) (zip ks rs))) = length (concat ks) + length (concat es)"
  using assms
proof (induction rule: list_induct2)
  case (Cons k ks r rs)
  then obtain es e where "rs = map Some es" "\<forall>x\<in>set (zip ks es). fst x \<noteq> [] \<or> snd x \<noteq> []" "r = Some e" "k \<noteq> [] \<or> e \<noteq> []"
      "length (concat (map (\<lambda>x. fst x @ the (snd x)) (zip ks rs))) = length (concat ks) + length (concat es)"
    by auto
  then show ?case by (intro exI [of _ "e # es"]) auto
qed simp

lemma map_enc_length:
  assumes "map_enc rs = Some b"
  shows "\<exists>ks es. map fst rs = map Some ks \<and> map snd rs = map Some es \<and> length b = 4 + length (concat ks) + length (concat es)
    \<and> (\<forall>x\<in>set (zip ks es). fst x \<noteq> [] \<or> snd x \<noteq> [])"
proof -
  from assms obtain ks us where u: "map fst rs = map Some ks" "b = be_put 4 (of_nat (length rs) :: uint32) @ concat us"
      "map entry_enc (sort_key fst (zip ks (map snd rs))) = map Some us"
    by (auto simp: map_enc_def those_Some bind_eq_Some_conv split: if_splits)
  have len: "length ks = length (map snd rs)" using arg_cong [OF u(1), of length] by simp
  note us = entries_Some [OF u(3)]
  have "\<forall>x\<in>set (zip ks (map snd rs)). \<exists>e. snd x = Some e \<and> (fst x \<noteq> [] \<or> e \<noteq> [])"
    using us [THEN conjunct2] by (simp only: set_sort)
  from zip_entries [OF len this] obtain es where es: "map snd rs = map Some es" "\<forall>x\<in>set (zip ks es). fst x \<noteq> [] \<or> snd x \<noteq> []"
      "length (concat (map (\<lambda>x. fst x @ the (snd x)) (zip ks (map snd rs)))) = length (concat ks) + length (concat es)"
    by blast
  have "length (concat us) = length (concat (map (\<lambda>x. fst x @ the (snd x)) (zip ks (map snd rs))))"
    unfolding us [THEN conjunct1] by (rule sort_key_sum)
  then have "length b = 4 + length (concat ks) + length (concat es)" using es(3) u(2) by simp
  with u(1) es(1,2) show ?thesis by blast
qed

lemma sized_Inr: "sized (Inr (n, c)) b w \<longleftrightarrow> n = length b \<and> (c \<longrightarrow> w = Some (length b))"
  by (auto simp: sized_def)

lemma sum_pairs:
  assumes "sum_sizes (map a xs) = Inr m" "sum_sizes (map b xs) = Inr n"
  shows "sum_sizes (concat (map (\<lambda>x. [a x, b x]) xs)) = Inr (m + n)"
  using assms
proof (induction xs arbitrary: m n)
  case (Cons x xs)
  from Cons.prems obtain i c j d k l where "a x = Inr (i, c)" "b x = Inr (j, d)" "sum_sizes (map a xs) = Inr k" "sum_sizes (map b xs) = Inr l"
      "m = i + k" "n = j + l"
    by (auto simp: res_bind_def split: sum.splits)
  with Cons.IH [of k l] show ?case by (simp add: res_bind_def)
qed simp

lemma map_size_ok:
  assumes "map_enc (map (\<lambda>x. (fk x, fe x)) xs) = Some b"
    and sk: "\<And>x b. \<lbrakk>x \<in> set xs; fk x = Some b\<rbrakk> \<Longrightarrow> sized (sk x) b wk" "\<And>x b n. \<lbrakk>x \<in> set xs; fk x = Some b; wk = Some n\<rbrakk> \<Longrightarrow> length b = n"
    and se: "\<And>x b. \<lbrakk>x \<in> set xs; fe x = Some b\<rbrakk> \<Longrightarrow> sized (se x) b we" "\<And>x b n. \<lbrakk>x \<in> set xs; fe x = Some b; we = Some n\<rbrakk> \<Longrightarrow> length b = n"
  shows "sized (map_size (map (\<lambda>x. (sk x, se x)) xs)) b None"
proof -
  obtain ks es where ke: "those (map fk xs) = Some ks" "those (map fe xs) = Some es" "length b = 4 + length (concat ks) + length (concat es)"
      "\<forall>x\<in>set (zip ks es). fst x \<noteq> [] \<or> snd x \<noteq> []"
    using map_enc_length [OF assms(1)] by (auto simp: comp_def those_Some)
  show ?thesis
  proof (cases xs)
    case Nil
    then show ?thesis using ke by (auto simp: map_size_def sized_def)
  next
    case (Cons x ys)
    then obtain k ks' e es' where k: "ks = k # ks'" "fk x = Some k" "those (map fk ys) = Some ks'"
      and e: "es = e # es'" "fe x = Some e" "those (map fe ys) = Some es'"
      using ke(1,2) by (auto split: option.splits)
    obtain c d where c: "sk x = Inr (length k, c)" "c \<longrightarrow> wk = Some (length k)" and d: "se x = Inr (length e, d)" "d \<longrightarrow> we = Some (length e)"
      using sizedD [OF sk(1) [OF _ k(2)]] sizedD [OF se(1) [OF _ e(2)]] Cons by auto
    have "sum_sizes (map sk ys) = Inr (length (concat ks'))" using sk(1) Cons by (intro sum_sizes_ok [OF k(3), where w = "\<lambda>_. wk"]) simp
    moreover have "sum_sizes (map se ys) = Inr (length (concat es'))" using se(1) Cons by (intro sum_sizes_ok [OF e(3), where w = "\<lambda>_. we"]) simp
    moreover have "length (concat ks) = length xs * length k" if c using that c(2) sk(2) by (intro those_const_length [OF ke(1)]) auto
    moreover have "length (concat es) = length xs * length e" if d using that d(2) se(2) by (intro those_const_length [OF ke(2)]) auto
    moreover have "(k = [] \<and> e = []) = False" using ke(4) k(1) e(1) by auto
    moreover have "sum_sizes (concat (map (\<lambda>x. [sk x, se x]) ys)) = Inr (length (concat ks') + length (concat es'))"
      using calculation by (intro sum_pairs)
    ultimately show ?thesis using Cons c d k(1) e(1) ke(3)
      by (cases c; cases d) (auto simp: map_size_def res_bind_def sized_Inr comp_def algebra_simps)
  qed
qed

lemma size_is_length: "\<lbrakk>conf impl t v; enc C S t v = Some b\<rbrakk> \<Longrightarrow> sized (size_of C S t v) b (const_width C t)"
proof (induction C S t v arbitrary: b rule: enc.induct)
  case (1 C S t r)
  then show ?case by (auto split: gty.splits option.splits)
next
  case (2 C S t r)
  then obtain i t' v where r: "t = TInterface i" "r = Some (t', v)" "t' \<notin> S" "conf impl t' v" by (auto split: gty.splits option.splits if_splits)
  then obtain n b' where b: "bm_GetKey (registeredTypes C) t' = Some n" "enc C (insert t' S) t' v = Some b'" "b = be_put 4 n @ b'"
    using 2(3) by (auto simp: bind_eq_Some_conv)
  have "sized (size_of C (insert t' S) t' v) b' (const_width C t')" using 2(1) r b by simp
  then show ?case using r b(3) by (auto simp: sized_def res_bind_def PrefixSize_def)
next
  case (3 C S t vs)
  then obtain t' where t: "t = TSlice t'" "\<forall>v\<in>set vs. conf impl t' v" by (auto split: gty.splits)
  have "sized (slice_size (map (\<lambda>v. size_of C S t' v) vs)) b None"
    using 3 t const_width_enc by (intro slice_size_ok [where f = "\<lambda>v. enc C S t' v" and w = "const_width C t'"]) auto
  then show ?case by (auto simp: t sized_def)
next
  case (4 C S t vs)
  then obtain t' where t: "t = TArray (length vs) t'" "\<forall>v\<in>set vs. conf impl t' v" by (auto split: gty.splits)
  then obtain bs where bs: "those (map (\<lambda>v. enc C S t' v) vs) = Some bs" "b = concat bs" using 4(3) by auto
  have "sized (array_size (map (\<lambda>v. size_of C S t' v) vs)) (concat bs) (if vs = [] then Some 0 else map_option ((*) (length vs)) (const_width C t'))"
    using 4(1) t const_width_enc by (intro array_size_ok [OF bs(1)]) auto
  then show ?case by (simp add: t bs(2) split: if_splits)
next
  case (5 C S t vs)
  then obtain s fs where t: "t = TStruct s fs" "length vs = length fs" by (auto split: gty.splits)
  then obtain "is" where i: "serialized_fields (tagNames C) 0 fs = Inr is" using 5(3) by (auto split: sum.splits)
  let ?xs = "pick is (zip (map fType fs) vs)"
  obtain bs where bs: "those (map (\<lambda>x. enc C S (fst x) (snd x)) ?xs) = Some bs" "b = concat bs"
    using 5(3) t i by (auto simp: case_prod_unfold)
  have each: "sized (size_of C S (fst x) (snd x)) c (const_width C (fst x))" if "x \<in> set ?xs" "enc C S (fst x) (snd x) = Some c" for x c
    using 5(1) [OF t(1) i that(1) prod.collapse] that zip_field_conf [of impl s fs vs x] 5(2) t(1) by simp
  have "sized (struct_size (map (\<lambda>x. size_of C S (fst x) (snd x)) ?xs)) (concat bs) (map_option sum_list (those (map (\<lambda>x. const_width C (fst x)) ?xs)))"
    by (rule struct_size_ok [OF bs(1) each])
  with fields_widths [OF t(2), of "const_width C" "is"] show ?case
    by (simp add: t i bs(2) res_bind_def case_prod_unfold)
next
  case (6 C S t kvs)
  then obtain kt et where t: "t = TMap kt et" by (auto split: gty.splits)
  have c: "conf impl kt (fst x) \<and> conf impl et (snd x)" if "x \<in> set kvs" for x using 6(3) that t by auto
  have "sized (size_of C S kt (fst x)) b' (const_width C kt)" if "x \<in> set kvs" "enc C S kt (fst x) = Some b'" for x b'
    using 6(1) [OF t that(1) prod.collapse] that c by simp
  moreover have "sized (size_of C S et (snd x)) b' (const_width C et)" if "x \<in> set kvs" "enc C S et (snd x) = Some b'" for x b'
    using 6(2) [OF t that(1) prod.collapse] that c by simp
  moreover have "length b' = n" if "x \<in> set kvs" "enc C S kt (fst x) = Some b'" "const_width C kt = Some n" for x b' n
    using const_width_enc that c by blast
  moreover have "length b' = n" if "x \<in> set kvs" "enc C S et (snd x) = Some b'" "const_width C et = Some n" for x b' n
    using const_width_enc that c by blast
  ultimately have "sized (map_size (map (\<lambda>x. (size_of C S kt (fst x), size_of C S et (snd x))) kvs)) b None"
    using 6(4)
    by (intro map_size_ok [where fk = "\<lambda>x. enc C S kt (fst x)" and fe = "\<lambda>x. enc C S et (snd x)" and wk = "const_width C kt" and we = "const_width C et"])
      (simp_all add: t case_prod_unfold)
  then show ?case by (auto simp: t sized_def case_prod_unfold)
qed (auto simp: scalar_enc_def scalar_size_def fixed_width_def sized_Inr split: if_splits)

end
