(* ===== verification/Codec_Decode.thy ===== *)
theory Codec_Decode
  imports Codec_Encode
begin

text \<open>
  What unmarshalling reads. Every read that succeeds consumed exactly the encoding of the value it returns (so the
  codec has one encoding per value, and the value has its type), and a read that fails has not left the input.
\<close>

subsection \<open>Big-endian words from bytes\<close>

lemma take_be_get: "8 * length bs \<le> n \<Longrightarrow> take_bit n (be_get bs :: 'a::len word) = be_get bs"
proof (induction bs)
  case Nil
  then show ?case by (simp add: be_get_def)
next
  case (Cons b bs)
  then have IH: "take_bit n (be_get bs :: 'a word) = be_get bs" by simp
  have "take_bit n (push_bit (8 * length bs) (ucast b :: 'a word)) = push_bit (8 * length bs) (ucast b)"
    using Cons.prems by (intro bit_word_eqI) (auto simp: bit_simps dest: bit_imp_le_length)
  then show ?case by (simp add: be_get_Cons IH)
qed

lemma be_put_take: "be_put n (take_bit (8 * n) v) = be_put n v"
proof -
  have "(ucast (drop_bit (8 * i) (take_bit (8 * n) v)) :: byte) = ucast (drop_bit (8 * i) v)" if "i < n" for i
    using that by (intro bit_word_eqI) (auto simp: bit_simps)
  then show ?thesis by (simp add: be_put_def)
qed

lemma be_put_get: "\<lbrakk>length bs = n; 8 * n \<le> LENGTH('a)\<rbrakk> \<Longrightarrow> be_put n (be_get bs :: 'a::len word) = bs"
proof (induction bs arbitrary: n)
  case Nil
  then show ?case by (simp add: be_put_def)
next
  case (Cons b bs)
  let ?k = "length bs"
  have n: "n = Suc ?k" using Cons.prems(1) by simp
  have hi: "(ucast (drop_bit (8 * ?k) (push_bit (8 * ?k) (ucast b) OR be_get bs :: 'a word)) :: byte) = b"
  proof (rule bit_word_eqI)
    fix i assume i: "i < LENGTH(8)"
    have "\<not> bit (be_get bs :: 'a word) (8 * ?k + i)"
      using take_be_get [of bs "8 * ?k", where 'a = 'a] by (metis bit_take_bit_iff le_refl not_add_less1)
    then show "bit (ucast (drop_bit (8 * ?k) (push_bit (8 * ?k) (ucast b) OR be_get bs :: 'a word)) :: byte) i = bit b i"
      using i Cons.prems(2) n by (auto simp: bit_simps)
  qed
  have "take_bit (8 * ?k) (push_bit (8 * ?k) (ucast b) OR be_get bs :: 'a word) = be_get bs"
    using take_be_get [of bs "8 * ?k", where 'a = 'a] by (intro bit_word_eqI) (auto simp: bit_simps)
  then have "be_put ?k (push_bit (8 * ?k) (ucast b) OR be_get bs :: 'a word) = be_put ?k (be_get bs :: 'a word)"
    using be_put_take [of ?k "push_bit (8 * ?k) (ucast b) OR be_get bs :: 'a word"] by simp
  also have "\<dots> = bs" using Cons.prems n by (intro Cons.IH) auto
  finally show ?case unfolding n be_put_Suc be_get_Cons using hi by simp
qed

subsection \<open>What a read consumes\<close>

definition uok :: "packer \<Rightarrow> bool" where
  "uok p \<longleftrightarrow> Err p = None \<and> 0 \<le> Offset p \<and> Offset p \<le> int (length (Bytes p))"

text \<open>From \<open>p\<close> to \<open>q\<close> exactly the bytes \<open>b\<close> were read.\<close>

definition got :: "bytes \<Rightarrow> packer \<Rightarrow> packer \<Rightarrow> bool" where
  "got b p q \<longleftrightarrow> q = p\<lparr>Offset := Offset p + int (length b)\<rparr> \<and> (\<exists>rest. drop (nat (Offset p)) (Bytes p) = b @ rest)"

definition kept :: "packer \<Rightarrow> packer \<Rightarrow> bool" where
  "kept p q \<longleftrightarrow> Bytes q = Bytes p \<and> Offset p \<le> Offset q \<and> Offset q \<le> int (length (Bytes p))"

text \<open>
  A read at a packer: on success exactly some bytes were consumed, and they are related to the value by \<open>P\<close>; on an error the
  bytes are untouched and the offset is still inside them.
\<close>

definition reads_at :: "packer \<Rightarrow> 'a ustep \<Rightarrow> ('a \<Rightarrow> bytes \<Rightarrow> bool) \<Rightarrow> bool" where
  "reads_at p f P \<longleftrightarrow> (uok p \<longrightarrow> (case f p of (Inl e, q) \<Rightarrow> kept p q | (Inr x, q) \<Rightarrow> \<exists>b. got b p q \<and> P x b))"

definition reads :: "'a ustep \<Rightarrow> ('a \<Rightarrow> bytes \<Rightarrow> bool) \<Rightarrow> bool" where
  "reads f P \<longleftrightarrow> (\<forall>p. reads_at p f P)"

lemma readsI: "(\<And>p. reads_at p f P) \<Longrightarrow> reads f P"
  by (simp add: reads_def)

lemma readsD: "\<lbrakk>reads f P; uok p; f p = (Inr x, q)\<rbrakk> \<Longrightarrow> \<exists>b. got b p q \<and> P x b"
  by (force simp: reads_def reads_at_def)

lemma readsE: "\<lbrakk>reads f P; uok p; f p = (Inl e, q)\<rbrakk> \<Longrightarrow> kept p q"
  by (force simp: reads_def reads_at_def)

lemma reads_atI:
  assumes "\<And>e q. \<lbrakk>uok p; f p = (Inl e, q)\<rbrakk> \<Longrightarrow> kept p q" "\<And>x q. \<lbrakk>uok p; f p = (Inr x, q)\<rbrakk> \<Longrightarrow> \<exists>b. got b p q \<and> P x b"
  shows "reads_at p f P"
  using assms by (auto simp: reads_at_def split: prod.split sum.split)

lemma reads_post: "\<lbrakk>reads f P; \<And>x b. P x b \<Longrightarrow> Q x b\<rbrakk> \<Longrightarrow> reads f Q"
  by (rule readsI, rule reads_atI) (blast dest: readsD readsE)+

lemma got_uok: "\<lbrakk>uok p; got b p q\<rbrakk> \<Longrightarrow> uok q"
proof -
  assume p: "uok p" and g: "got b p q"
  then obtain rest where "drop (nat (Offset p)) (Bytes p) = b @ rest" by (auto simp: got_def)
  from arg_cong [OF this, of length] p have "Offset p + int (length b) \<le> int (length (Bytes p))" by (auto simp: uok_def)
  with p g show ?thesis by (simp add: got_def uok_def)
qed

lemma got_nil: "got [] p p"
  by (simp add: got_def)

lemma got_append: "\<lbrakk>uok p; got a p q; got b q r\<rbrakk> \<Longrightarrow> got (a @ b) p r"
  unfolding got_def uok_def
proof (elim conjE exE, intro conjI)
  fix x y assume p: "0 \<le> Offset p" and q: "q = p\<lparr>Offset := Offset p + int (length a)\<rparr>" and x: "drop (nat (Offset p)) (Bytes p) = a @ x"
    and r: "r = q\<lparr>Offset := Offset q + int (length b)\<rparr>" and y: "drop (nat (Offset q)) (Bytes q) = b @ y"
  show "r = p\<lparr>Offset := Offset p + int (length (a @ b))\<rparr>" by (simp add: q r)
  have "drop (nat (Offset q)) (Bytes q) = drop (length a) (drop (nat (Offset p)) (Bytes p))"
    using p by (simp add: q nat_add_distrib add.commute)
  then show "\<exists>rest. drop (nat (Offset p)) (Bytes p) = (a @ b) @ rest" using x y by auto
qed

lemma got_kept: "\<lbrakk>uok p; got b p q\<rbrakk> \<Longrightarrow> kept p q"
  using got_uok [of p b q] by (simp add: got_def kept_def uok_def)

lemma kept_trans: "\<lbrakk>kept p q; kept q r\<rbrakk> \<Longrightarrow> kept p r"
  by (simp add: kept_def)

lemma got_read: "\<lbrakk>got b p q\<rbrakk> \<Longrightarrow> read_at (Bytes q) (Offset p) (nat (Offset q - Offset p)) = b"
  by (auto simp: got_def read_at_def)

lemma got_moved: "got b p q \<Longrightarrow> Offset p = Offset q \<longleftrightarrow> b = []"
  by (auto simp: got_def)

lemma reads_ret: "P x [] \<Longrightarrow> reads (u_ret x) P"
  by (rule readsI, rule reads_atI) (auto simp: u_ret_def intro: got_nil)

lemma reads_fail: "reads (u_fail e) P"
  by (rule readsI, rule reads_atI) (auto simp: u_fail_def kept_def uok_def)

lemma reads_at_bind:
  assumes "reads f P" "\<And>x b. P x b \<Longrightarrow> reads (k x) (\<lambda>y c. Q y (b @ c))"
  shows "reads_at p (u_bind f k) Q"
proof (rule reads_atI)
  fix e q assume p: "uok p" and r: "u_bind f k p = (Inl e, q)"
  then consider "f p = (Inl e, q)" | x u where "f p = (Inr x, u)" "k x u = (Inl e, q)"
    by (auto simp: u_bind_def split: prod.splits sum.splits)
  then show "kept p q"
  proof cases
    case 1
    then show ?thesis by (rule readsE [OF assms(1) p])
  next
    case 2
    then obtain b where b: "got b p u" "P x b" using readsD [OF assms(1) p] by blast
    from readsE [OF assms(2) [OF b(2)] got_uok [OF p b(1)] 2(2)] got_kept [OF p b(1)] show ?thesis by (rule kept_trans [rotated])
  qed
next
  fix y q assume p: "uok p" and r: "u_bind f k p = (Inr y, q)"
  then obtain x u where 2: "f p = (Inr x, u)" "k x u = (Inr y, q)" by (auto simp: u_bind_def split: prod.splits sum.splits)
  then obtain b where b: "got b p u" "P x b" using readsD [OF assms(1) p] by blast
  from readsD [OF assms(2) [OF b(2)] got_uok [OF p b(1)] 2(2)] obtain c where "got c u q" "Q y (b @ c)" by blast
  with got_append [OF p b(1)] show "\<exists>b. got b p q \<and> Q y b" by blast
qed

lemma reads_bind: "\<lbrakk>reads f P; \<And>x b. P x b \<Longrightarrow> reads (k x) (\<lambda>y c. Q y (b @ c))\<rbrakk> \<Longrightarrow> reads (u_bind f k) Q"
  by (rule readsI) (rule reads_at_bind)

lemma reads_nonempty: "reads f P \<Longrightarrow> reads (u_nonempty f) (\<lambda>x b. P x b \<and> b \<noteq> [])"
proof (rule readsI, rule reads_atI)
  fix p e q assume "reads f P" "uok p" "u_nonempty f p = (Inl e, q)"
  then show "kept p q"
    by (auto simp: u_nonempty_def split: prod.splits sum.splits if_splits dest: readsE readsD got_kept)
next
  fix p x q assume "reads f P" "uok p" "u_nonempty f p = (Inr x, q)"
  then show "\<exists>b. got b p q \<and> P x b \<and> b \<noteq> []"
    by (fastforce simp: u_nonempty_def got_moved split: prod.splits sum.splits if_splits dest: readsD)
qed

subsection \<open>Primitive reads\<close>

lemma checkSpace_bad: "Err (checkSpace n p) \<noteq> None \<Longrightarrow> Bytes (checkSpace n p) = Bytes p \<and> Offset (checkSpace n p) = Offset p"
  by (auto simp: checkSpace_def AddErr_def)

lemma reads_raw:
  assumes "\<And>b. length b = n \<Longrightarrow> P (mk (Some b)) b"
  shows "reads (unpacked mk (unpack_raw n)) P"
proof (rule readsI, rule reads_atI)
  fix p e q assume "uok p" "unpacked mk (unpack_raw n) p = (Inl e, q)"
  then show "kept p q"
    using checkSpace_bad [of "int n" p]
    by (auto simp: unpacked_def unpack_raw_def Let_def Errored_def kept_def uok_def split: if_splits option.splits prod.splits)
next
  fix p x q assume p: "uok p" and r: "unpacked mk (unpack_raw n) p = (Inr x, q)"
  have ok: "Err (checkSpace (int n) p) = None"
    using r by (auto simp: unpacked_def unpack_raw_def Let_def Errored_def split: if_splits option.splits prod.splits)
  note cs = checkSpace_ok [OF ok]
  let ?b = "take n (drop (nat (Offset p)) (Bytes p))"
  have len: "length ?b = n" using ok p by (auto simp: checkSpace_ok_iff uok_def)
  have "x = mk (Some ?b)" "q = p\<lparr>Offset := Offset p + int n\<rparr>"
    using r ok by (auto simp: unpacked_def unpack_raw_def Let_def cs Errored_def read_at_def)
  moreover have "drop (nat (Offset p)) (Bytes p) = ?b @ drop n (drop (nat (Offset p)) (Bytes p))" by (rule append_take_drop_id [symmetric])
  ultimately show "\<exists>b. got b p q \<and> P x b" using assms [OF len] len unfolding got_def by metis
qed

lemma unpacked_word: "unpacked mk (unpack_word n) = unpacked (\<lambda>r. mk (case r of None \<Rightarrow> 0 | Some bs \<Rightarrow> be_get bs)) (unpack_raw n)"
  by (rule ext) (auto simp: unpacked_def unpack_word_def split: prod.splits option.splits)

lemma reads_word:
  fixes mk :: "'a::len word \<Rightarrow> 'b"
  assumes "LENGTH('a) = 8 * n" "\<And>x. P (mk x) (be_put n x)"
  shows "reads (unpacked mk (unpack_word n)) P"
  unfolding unpacked_word
proof (rule reads_raw)
  fix b :: bytes assume "length b = n"
  then have "be_put n (be_get b :: 'a word) = b" using assms(1) by (intro be_put_get) auto
  with assms(2) [of "be_get b"] show "P (mk (case Some b of None \<Rightarrow> 0 | Some bs \<Rightarrow> be_get bs)) b" by simp
qed

lemma unpacked_fixed: "unpacked mk (UnpackFixedBytes (int n)) = unpacked (\<lambda>r. mk (case r of None \<Rightarrow> [] | Some bs \<Rightarrow> bs)) (unpack_raw n)"
  by (rule ext) (auto simp: unpacked_def UnpackFixedBytes_def unpack_raw_def Let_def Errored_def split: if_splits)

lemma reads_fixed: "(\<And>b. length b = n \<Longrightarrow> P (mk b) b) \<Longrightarrow> reads (unpacked mk (UnpackFixedBytes (int n))) P"
  unfolding unpacked_fixed by (rule reads_raw) simp

lemma uint_nat_int: "uint (x :: 'a::len word) = int (unat x)"
  by simp

lemma reads_len: "reads unpack_len (\<lambda>n b. n \<le> MaxInt32 \<and> b = be_put 4 (of_nat n :: uint32))"
  unfolding unpack_len_def UnpackInt_def [abs_def]
proof (rule reads_bind)
  show "reads (unpacked id (unpack_word 4)) (\<lambda>x b. b = be_put 4 (x :: uint32))" by (rule reads_word) simp_all
  fix x :: uint32 and b assume "b = be_put 4 x"
  then show "reads (if MaxInt32 < unat x then u_fail EMaxSliceLen else u_ret (unat x)) (\<lambda>n c. n \<le> MaxInt32 \<and> b @ c = be_put 4 (of_nat n :: uint32))"
    by (auto intro: reads_fail reads_ret)
qed

subsection \<open>Loops\<close>

lemma reads_repeat:
  assumes "reads f P"
  shows "reads (u_repeat n f) (\<lambda>xs b. length xs = n \<and> (\<exists>bs. b = concat bs \<and> list_all2 P xs bs))"
proof (induction n)
  case 0
  then show ?case by (auto intro!: reads_ret exI [of _ "[]"])
next
  case (Suc n)
  show ?case unfolding u_repeat.simps
  proof (rule reads_bind [OF assms], rule reads_bind [OF Suc], rule reads_ret)
    fix x b xs c assume "P x b" "length xs = n \<and> (\<exists>bs. c = concat bs \<and> list_all2 P xs bs)"
    then obtain bs where "c = concat bs" "list_all2 P xs bs" "length xs = n" by blast
    with \<open>P x b\<close> show "length (x # xs) = Suc n \<and> (\<exists>bs. b @ c @ [] = concat bs \<and> list_all2 P (x # xs) bs)"
      by (auto intro!: exI [of _ "b # bs"])
  qed
qed

lemma reads_seq:
  assumes "\<And>f. f \<in> set fs \<Longrightarrow> reads f P"
  shows "reads (u_seq fs) (\<lambda>xs b. length xs = length fs \<and> (\<exists>bs. b = concat bs \<and> list_all2 P xs bs))"
  using assms
proof (induction fs)
  case Nil
  then show ?case by (auto intro!: reads_ret exI [of _ "[]"])
next
  case (Cons f fs)
  have f: "reads f P" and fs: "reads (u_seq fs) (\<lambda>xs b. length xs = length fs \<and> (\<exists>bs. b = concat bs \<and> list_all2 P xs bs))"
    using Cons by simp_all
  show ?case unfolding u_seq.simps
  proof (rule reads_bind [OF f], rule reads_bind [OF fs], rule reads_ret)
    fix x b xs c assume "P x b" "length xs = length fs \<and> (\<exists>bs. c = concat bs \<and> list_all2 P xs bs)"
    then obtain bs where "c = concat bs" "list_all2 P xs bs" "length xs = length fs" by blast
    with \<open>P x b\<close> show "length (x # xs) = length (f # fs) \<and> (\<exists>bs. b @ c @ [] = concat bs \<and> list_all2 P (x # xs) bs)"
      by (auto intro!: exI [of _ "b # bs"])
  qed
qed

lemma list_all2_upd:
  assumes "i \<notin> set is" "list_all2 (\<lambda>j b. P j (ws ! j) b) is bs"
  shows "list_all2 (\<lambda>j b. P j (ws[i := x] ! j) b) is bs"
  using assms(2,1) by (induction rule: list_all2_induct) auto

definition fields_read :: "(nat \<Rightarrow> gval \<Rightarrow> bytes \<Rightarrow> bool) \<Rightarrow> nat list \<Rightarrow> gval list \<Rightarrow> gval list \<Rightarrow> bytes \<Rightarrow> bool" where
  "fields_read P is vs ws b \<longleftrightarrow> length ws = length vs \<and> (\<forall>i\<in>set is. i < length vs) \<and> (\<forall>j. j \<notin> set is \<longrightarrow> ws ! j = vs ! j)
     \<and> (\<exists>bs. b = concat bs \<and> list_all2 (\<lambda>i b. P i (ws ! i) b) is bs)"

lemma fields_read_Cons:
  assumes "P i x a" "i < length vs" "i \<notin> set is" "fields_read P is (vs[i := x]) ws c"
  shows "fields_read P (i # is) vs ws (a @ c)"
proof -
  from assms(4) obtain bs where c: "c = concat bs" "list_all2 (\<lambda>i b. P i (ws ! i) b) is bs" "length ws = length vs"
      "\<forall>i\<in>set is. i < length vs" "\<forall>j. j \<notin> set is \<longrightarrow> ws ! j = vs[i := x] ! j"
    by (auto simp: fields_read_def)
  moreover have "ws ! i = x" using c assms(2,3) by simp
  ultimately show ?thesis using assms(1,2) unfolding fields_read_def by (auto intro!: exI [of _ "a # bs"])
qed

lemma reads_fields:
  assumes "distinct is" "\<And>i. \<lbrakk>i \<in> set is; i < length fs; i < length vs\<rbrakk> \<Longrightarrow> reads ((fs ! i) (vs ! i)) (P i)"
  shows "reads (u_fields is fs vs) (fields_read P is vs)"
  using assms
proof (induction "is" arbitrary: vs)
  case Nil
  then show ?case by (auto simp: fields_read_def intro!: reads_ret exI [of _ "[]"])
next
  case (Cons i "is")
  show ?case
  proof (cases "i < length fs \<and> i < length vs")
    case True
    have rest: "reads (u_fields is fs (vs[i := x])) (fields_read P is (vs[i := x]))" for x
    proof (rule Cons.IH)
      fix j assume j: "j \<in> set is" "j < length fs" "j < length (vs[i := x])"
      then have "j \<noteq> i" using Cons.prems(1) by auto
      then have "vs[i := x] ! j = vs ! j" by simp
      with Cons.prems(2) [of j] j show "reads ((fs ! j) (vs[i := x] ! j)) (P j)" by simp
    qed (use Cons.prems in simp)
    have "reads ((fs ! i) (vs ! i)) (P i)" using Cons.prems True by simp
    then have "reads (u_bind ((fs ! i) (vs ! i)) (\<lambda>x. u_fields is fs (vs[i := x]))) (fields_read P (i # is) vs)"
    proof (rule reads_bind)
      fix x a assume "P i x a"
      then show "reads (u_fields is fs (vs[i := x])) (\<lambda>ws c. fields_read P (i # is) vs ws (a @ c))"
        using True Cons.prems(1) by (intro reads_post [OF rest] fields_read_Cons) simp_all
    qed
    then show ?thesis using True by simp
  next
    case False
    then show ?thesis by (auto intro: reads_fail)
  qed
qed

subsection \<open>Map entries\<close>

text \<open>The entries read: their keys are in strictly increasing order of their bytes, above the last key before.\<close>

fun entries_read :: "(gval \<Rightarrow> bytes \<Rightarrow> bool) \<Rightarrow> (gval \<Rightarrow> bytes \<Rightarrow> bool) \<Rightarrow> bytes option \<Rightarrow> (gval \<times> gval) list \<Rightarrow> (bytes \<times> bytes) list \<Rightarrow> bool" where
  "entries_read P Q prev [] [] \<longleftrightarrow> True"
| "entries_read P Q prev ((k, e) # kvs) ((a, b) # abz) \<longleftrightarrow>
     P k a \<and> Q e b \<and> a @ b \<noteq> [] \<and> (case prev of None \<Rightarrow> True | Some c \<Rightarrow> c < a) \<and> entries_read P Q (Some a) kvs abz"
| "entries_read P Q prev _ _ \<longleftrightarrow> False"

definition keys_upto :: "(gval \<Rightarrow> bytes \<Rightarrow> bool) \<Rightarrow> bytes option \<Rightarrow> (gval \<times> gval) list \<Rightarrow> bool" where
  "keys_upto P prev m \<longleftrightarrow> (\<forall>k\<in>fst ` set m. \<exists>a c. P k a \<and> prev = Some c \<and> a \<le> c)"

lemma update_new: "k \<notin> fst ` set m \<Longrightarrow> AList.update k v m = m @ [(k, v)]"
  by (induction m) auto

lemma keys_upto_new:
  assumes "keys_upto P prev m" "P k a" "case prev of None \<Rightarrow> True | Some c \<Rightarrow> c < a" "\<And>k a b. \<lbrakk>P k a; P k b\<rbrakk> \<Longrightarrow> a = b"
  shows "AList.update k v m = m @ [(k, v)] \<and> keys_upto P (Some a) (m @ [(k, v)])"
proof -
  have "k \<notin> fst ` set m" using assms by (fastforce simp: keys_upto_def)
  moreover have "keys_upto P (Some a) (m @ [(k, v)])" using assms(1-3) unfolding keys_upto_def by (fastforce intro: order_trans less_imp_le)
  ultimately show ?thesis by (simp add: update_new)
qed

lemma u_entries_ok:
  assumes "reads fk P" "reads fe Q" "\<And>k a b. \<lbrakk>P k a; P k b\<rbrakk> \<Longrightarrow> a = b"
    and "uok p" "u_entries n fk fe prev m p = (Inr m', q)" "keys_upto P prev m"
  shows "\<exists>kvs abz. m' = m @ kvs \<and> length kvs = n \<and> entries_read P Q prev kvs abz \<and> got (concat (map (\<lambda>x. fst x @ snd x) abz)) p q"
  using assms(4-6)
proof (induction n arbitrary: prev m p)
  case 0
  then show ?case by (auto intro!: exI [of _ "[]"] simp: got_nil)
next
  case (Suc n)
  from Suc.prems(2) obtain k u v r where r: "fk p = (Inr k, u)" "fe u = (Inr v, r)" "Offset p \<noteq> Offset r"
      "\<not> (case prev of None \<Rightarrow> False | Some pk \<Rightarrow> read_at (Bytes u) (Offset p) (nat (Offset u - Offset p)) \<le> pk)"
      "u_entries n fk fe (Some (read_at (Bytes u) (Offset p) (nat (Offset u - Offset p)))) (AList.update k v m) r = (Inr m', q)"
    by (auto simp: Let_def split: prod.splits sum.splits if_splits)
  obtain a where a: "got a p u" "P k a" using readsD [OF assms(1) Suc.prems(1) r(1)] by blast
  obtain b where b: "got b u r" "Q v b" using readsD [OF assms(2) got_uok [OF Suc.prems(1) a(1)] r(2)] by blast
  have ab: "got (a @ b) p r" by (rule got_append [OF Suc.prems(1) a(1) b(1)])
  have ne: "a @ b \<noteq> []" using r(3) got_moved [OF ab] by simp
  have lt: "case prev of None \<Rightarrow> True | Some c \<Rightarrow> c < a" using r(4) got_read [OF a(1)] by (auto simp: not_le split: option.splits)
  have new: "AList.update k v m = m @ [(k, v)] \<and> keys_upto P (Some a) (m @ [(k, v)])"
    by (rule keys_upto_new [OF Suc.prems(3) a(2) lt]) (rule assms(3))
  have "u_entries n fk fe (Some a) (m @ [(k, v)]) r = (Inr m', q)" using r(5) got_read [OF a(1)] new by simp
  from Suc.IH [OF got_uok [OF Suc.prems(1) ab] this] new obtain kvs abz where
    "m' = (m @ [(k, v)]) @ kvs" "length kvs = n" "entries_read P Q (Some a) kvs abz" "got (concat (map (\<lambda>x. fst x @ snd x) abz)) r q"
    by blast
  then show ?case using a b ne lt got_append [OF Suc.prems(1) ab]
    by (intro exI [of _ "(k, v) # kvs"] exI [of _ "(a, b) # abz"]) auto
qed

lemma u_entries_err:
  assumes "reads fk P" "reads fe Q" "uok p" "u_entries n fk fe prev m p = (Inl e, q)"
  shows "kept p q"
  using assms(3,4)
proof (induction n arbitrary: prev m p)
  case (Suc n)
  show ?case
  proof (cases "fk p")
    case (Pair x u)
    show ?thesis
    proof (cases x)
      case (Inl e)
      then show ?thesis using Suc.prems Pair readsE [OF assms(1) Suc.prems(1), of e u] by auto
    next
      case k: (Inr k)
      then obtain a where a: "got a p u" using readsD [OF assms(1) Suc.prems(1)] Pair by blast
      note u = got_uok [OF Suc.prems(1) a]
      obtain y r where y: "fe u = (y, r)" by (cases "fe u")
      have "kept u r \<and> (\<forall>v. y = Inr v \<longrightarrow> uok r)" using y readsE [OF assms(2) u] readsD [OF assms(2) u] got_kept [OF u] got_uok [OF u]
        by (cases y) blast+
      then have "kept p u" "kept p r" "\<And>v. y = Inr v \<Longrightarrow> uok r" using got_kept [OF Suc.prems(1) a] kept_trans by blast+
      moreover have "kept p q" if "kept r q" using that \<open>kept p r\<close> kept_trans by blast
      ultimately show ?thesis using Suc.prems(2) Suc.IH Pair k y
        by (auto simp: Let_def split: sum.splits if_splits option.splits)
    qed
  qed
qed simp

subsection \<open>Reading is the inverse of the encoding\<close>

lemma conf_zero: "conf impl t (zero_val t)"
proof (induction t rule: zero_val.induct)
  case (15 s fs)
  have "conf impl t' v" if "(t', v) \<in> set (zip (map fType fs) (map (\<lambda>f. zero_val (fType f)) fs))" for t' v
    using that 15 by (auto simp: zip_map1 zip_map2 zip_same_conv_map)
  then show ?case by auto
qed auto

lemma UnpackPrefix_bind:
  "UnpackPrefix impl C i = u_bind (unpacked id (unpack_word 4)) (\<lambda>n. case keyToValue (registeredTypes C) n of
      None \<Rightarrow> u_fail (EUnknownTypeID n) | Some t \<Rightarrow> if \<not> impl t i then u_fail ENotImplements else u_ret t)"
  by (rule ext) (auto simp: UnpackPrefix_def u_bind_def unpacked_def UnpackInt_def bm_GetValue_def u_fail_def u_ret_def split: prod.splits option.splits)

lemma reads_prefix:
  "reads (UnpackPrefix impl C i) (\<lambda>t b. impl t i \<and> (\<exists>n. b = be_put 4 n \<and> keyToValue (registeredTypes C) n = Some t))"
proof -
  have "reads (unpacked id (unpack_word 4)) (\<lambda>x b. b = be_put 4 (x :: uint32))" by (rule reads_word) simp_all
  then show ?thesis unfolding UnpackPrefix_bind
    by (auto intro!: reads_bind [of "unpacked id (unpack_word 4)" "\<lambda>x b. b = be_put 4 x"] reads_fail reads_ret split: option.split) blast
qed

lemma unpacked_str: "unpacked mk UnpackStr = u_bind (unpacked id (unpack_word 2)) (\<lambda>n :: uint16. unpacked mk (UnpackFixedBytes (int (unat n))))"
proof (rule ext)
  fix p
  obtain n :: uint16 and q where q: "unpack_word 2 p = (n, q)" by (cases "unpack_word 2 p :: uint16 \<times> packer")
  show "unpacked mk UnpackStr p = u_bind (unpacked id (unpack_word 2)) (\<lambda>n :: uint16. unpacked mk (UnpackFixedBytes (int (unat n)))) p"
    using q by (cases "Err q")
      (simp_all add: unpacked_def u_bind_def UnpackStr_def UnpackShort_def UnpackFixedBytes_def checkSpace_sticky Let_def Errored_def)
qed

lemma unpacked_bool: "unpacked VBool UnpackBool =
    u_bind (unpacked id (unpack_word 1)) (\<lambda>b :: byte. if b = 0 then u_ret (VBool False) else if b = 1 then u_ret (VBool True)
      else (\<lambda>p. (Inl (EPack ErrBadBool), AddErr ErrBadBool p)))"
proof (rule ext)
  fix p
  obtain n :: byte and q where q: "unpack_word 1 p = (n, q)" by (cases "unpack_word 1 p :: byte \<times> packer")
  have "n = 0" if "Err q \<noteq> None"
    using that q by (auto simp: unpack_word_def unpack_raw_def Let_def Errored_def split: if_splits)
  then show "unpacked VBool UnpackBool p = u_bind (unpacked id (unpack_word 1)) (\<lambda>b :: byte. if b = 0 then u_ret (VBool False)
      else if b = 1 then u_ret (VBool True) else (\<lambda>p. (Inl (EPack ErrBadBool), AddErr ErrBadBool p))) p"
    using q by (cases "Err q") (auto simp: unpacked_def u_bind_def UnpackBool_def UnpackByte_def u_ret_def AddErr_def)
qed

lemma be_put_1: "be_put (Suc 0) (x :: byte) = [x]"
  by (simp add: be_put_def)

lemma reads_scalar: "reads (scalar_read t) (\<lambda>v b. scalar_enc v = Some b \<and> conf impl t v \<and> enc C S t v = scalar_enc v)"
proof -
  have str: "reads (unpacked VString UnpackStr) (\<lambda>v b. \<exists>s. v = VString s \<and> length s \<le> MaxStringLen \<and> b = be_put 2 (of_nat (length s) :: uint16) @ s)"
    unfolding unpacked_str
  proof (rule reads_bind)
    show "reads (unpacked id (unpack_word 2)) (\<lambda>n b. b = be_put 2 (n :: uint16))" by (rule reads_word) simp_all
    fix n :: uint16 and b assume "b = be_put 2 n"
    moreover have "unat n \<le> MaxStringLen" using unat_lt2p [of n] by (simp add: MaxStringLen_def)
    ultimately show "reads (unpacked VString (UnpackFixedBytes (int (unat n))))
        (\<lambda>v c. \<exists>s. v = VString s \<and> length s \<le> MaxStringLen \<and> b @ c = be_put 2 (of_nat (length s) :: uint16) @ s)"
      by (intro reads_fixed) auto
  qed
  have bool: "reads (unpacked VBool UnpackBool) (\<lambda>v b. \<exists>x. v = VBool x \<and> b = [if x then 1 else 0])"
    unfolding unpacked_bool
  proof (rule reads_bind)
    show "reads (unpacked id (unpack_word 1)) (\<lambda>n b. b = [n :: byte])" by (rule reads_word) (simp_all add: be_put_1)
    have "reads (\<lambda>p. (Inl (EPack ErrBadBool), AddErr ErrBadBool p)) Q" for Q :: "gval \<Rightarrow> bytes \<Rightarrow> bool"
      by (rule readsI, rule reads_atI) (auto simp: kept_def uok_def AddErr_def)
    then show "reads (if n = 0 then u_ret (VBool False) else if n = 1 then u_ret (VBool True) else (\<lambda>p. (Inl (EPack ErrBadBool), AddErr ErrBadBool p)))
        (\<lambda>v c. \<exists>x. v = VBool x \<and> b @ c = [if x then 1 else 0])" if "b = [n :: byte]" for n b
      using that by (auto intro!: reads_ret)
  qed
  have "reads (unpacked VString UnpackStr) (\<lambda>v b. scalar_enc v = Some b \<and> conf impl TString v \<and> enc C S TString v = scalar_enc v)"
    by (rule reads_post [OF str]) (auto simp: scalar_enc_def)
  moreover have "reads (unpacked VBool UnpackBool) (\<lambda>v b. scalar_enc v = Some b \<and> conf impl TBool v \<and> enc C S TBool v = scalar_enc v)"
    by (rule reads_post [OF bool]) (auto simp: scalar_enc_def)
  ultimately show ?thesis
    by (cases t) (auto simp: scalar_read_def scalar_enc_def UnpackByte_def [abs_def] UnpackShort_def [abs_def] UnpackInt_def [abs_def]
        UnpackLong_def [abs_def] be_put_1 intro!: reads_word reads_fail)
qed
lemma serialized_fields_distinct:
  "serialized_fields tags i fs = Inr is \<Longrightarrow> distinct is \<and> (\<forall>j\<in>set is. i \<le> j \<and> j < i + length fs)"
proof (induction tags i fs arbitrary: "is" rule: serialized_fields.induct)
  case (2 tags i f fs)
  then show ?case by (fastforce simp: res_bind_def split: if_splits sum.splits)
qed simp

lemma those_all2: "list_all2 (\<lambda>x b. f x = Some b) xs bs \<Longrightarrow> those (map f xs) = Some bs"
  by (induction rule: list_all2_induct) auto

lemma slice_enc_ok:
  assumes "list_all2 (\<lambda>v b. f v = Some b \<and> b \<noteq> []) vs bs" "length vs \<le> MaxInt32"
  shows "slice_enc (map f vs) = Some (be_put 4 (of_nat (length vs) :: uint32) @ concat bs)"
proof -
  have "those (map (\<lambda>v. nonempty (f v)) vs) = Some bs"
    by (rule those_all2, rule list_all2_mono [OF assms(1)]) (simp add: nonempty_def)
  then show ?thesis using assms(2) by (simp add: slice_enc_def comp_def)
qed

lemma entries_sorted: "entries_read P Q prev kvs abz \<Longrightarrow>
    sorted (map fst abz) \<and> (\<forall>x\<in>set abz. \<forall>c. prev = Some c \<longrightarrow> c \<le> fst x)"
proof (induction P Q prev kvs abz rule: entries_read.induct)
  case (2 P Q prev k e kvs a b abz)
  then show ?case by (fastforce split: option.splits)
qed auto

lemma entries_enc:
  assumes "entries_read P Q prev kvs abz" "\<And>k a. P k a \<Longrightarrow> fk k = Some a" "\<And>e b. Q e b \<Longrightarrow> fe e = Some b" "length kvs \<le> MaxInt32"
  shows "map_enc (map (\<lambda>(k, e). (fk k, fe e)) kvs) = Some (be_put 4 (of_nat (length kvs) :: uint32) @ concat (map (\<lambda>x. fst x @ snd x) abz))"
proof -
  have z: "map (\<lambda>(k, e). (fk k, fe e)) kvs = map (\<lambda>x. (Some (fst x), Some (snd x))) abz \<and> (\<forall>x\<in>set abz. fst x @ snd x \<noteq> [])"
    using assms(1-3) by (induction P Q prev kvs abz rule: entries_read.induct) auto
  have k: "those (map fst (map (\<lambda>(k, e). (fk k, fe e)) kvs)) = Some (map fst abz)"
    by (simp add: z [THEN conjunct1] comp_def those_Some)
  have "zip (map fst abz) (map snd (map (\<lambda>(k, e). (fk k, fe e)) kvs)) = map (\<lambda>x. (fst x, Some (snd x))) abz"
    by (simp add: z [THEN conjunct1] zip_map1 zip_map2 zip_same_conv_map)
  moreover have "sort_key fst (map (\<lambda>x. (fst x, Some (snd x))) abz) = map (\<lambda>x. (fst x, Some (snd x))) abz"
    using entries_sorted [OF assms(1)] by (intro sort_key_id_if_sorted) (simp add: comp_def)
  moreover have "those (map entry_enc (map (\<lambda>x. (fst x, Some (snd x))) abz)) = Some (map (\<lambda>x. fst x @ snd x) abz)"
    using z by (auto simp: those_Some nonempty_def)
  ultimately show ?thesis using assms(4) unfolding map_enc_def k by simp
qed

lemma entries_keys: "\<lbrakk>entries_read P Q prev kvs abz; \<And>k a b. \<lbrakk>P k a; P k b\<rbrakk> \<Longrightarrow> a = b\<rbrakk> \<Longrightarrow>
    distinct (map fst kvs) \<and> (\<forall>x\<in>set kvs. (\<exists>a. P (fst x) a \<and> (\<forall>c. prev = Some c \<longrightarrow> c < a)) \<and> (\<exists>b. Q (snd x) b))"
proof (induction P Q prev kvs abz rule: entries_read.induct)
  case (2 P Q prev k e kvs a b abz)
  then have IH: "distinct (map fst kvs)" "\<And>x. x \<in> set kvs \<Longrightarrow> (\<exists>c. P (fst x) c \<and> a < c) \<and> (\<exists>b. Q (snd x) b)" by auto
  have "k \<notin> fst ` set kvs" using IH(2) 2(2,3) by fastforce
  moreover have "(\<exists>c. P (fst x) c \<and> (\<forall>d. prev = Some d \<longrightarrow> d < c))" if "x \<in> set kvs" for x
    using IH(2) [OF that] 2(2) by (auto split: option.splits intro: less_trans)
  ultimately show ?case using IH 2(2) by (auto split: option.splits)
qed auto
definition decodes :: "(gty \<Rightarrow> string \<Rightarrow> bool) \<Rightarrow> linearCodec \<Rightarrow> gty set \<Rightarrow> gty \<Rightarrow> gval \<Rightarrow> gval \<Rightarrow> bytes \<Rightarrow> bool" where
  "decodes impl C S t d v b \<longleftrightarrow> enc C S t v = Some b \<and> (conf impl t d \<longrightarrow> conf impl t v)"

lemma decodes_zero: "decodes impl C S t (zero_val t) v b \<longleftrightarrow> enc C S t v = Some b \<and> conf impl t v"
  by (simp add: decodes_def conf_zero)

lemma decodes_bytes: "decodes impl C S (TSlice TUint8) d (VSlice (map VUint8 bs)) (be_put 4 (of_nat (length bs) :: uint32) @ bs)"
  if "length bs \<le> MaxInt32"
proof -
  have "enc C S (TSlice TUint8) (VSlice (map VUint8 bs)) = slice_enc (map (\<lambda>b. Some [b]) bs)"
    by (simp add: scalar_enc_def comp_def)
  then show ?thesis using that slice_enc_bytes [of "\<lambda>b. b" bs] by (auto simp: decodes_def)
qed

lemma reads_slice:
  assumes "reads (unmarshal impl C S t (zero_val t)) (decodes impl C S t (zero_val t))"
  shows "reads (unmarshal impl C S (TSlice t) d) (decodes impl C S (TSlice t) d)"
proof -
  have "reads (u_bind unpack_len (\<lambda>n.
       if t = TUint8 then unpacked (\<lambda>bs. VSlice (map VUint8 bs)) (UnpackFixedBytes (int n))
       else u_bind (u_repeat n (u_nonempty (\<lambda>q. unmarshal impl C S t (zero_val t) q))) (\<lambda>vs. u_ret (VSlice vs)))) (decodes impl C S (TSlice t) d)"
  proof (rule reads_bind [OF reads_len], elim conjE)
    fix n b assume n: "n \<le> MaxInt32" and b: "b = be_put 4 (of_nat n :: uint32)"
    show "reads (if t = TUint8 then unpacked (\<lambda>bs. VSlice (map VUint8 bs)) (UnpackFixedBytes (int n))
       else u_bind (u_repeat n (u_nonempty (\<lambda>q. unmarshal impl C S t (zero_val t) q))) (\<lambda>vs. u_ret (VSlice vs))) (\<lambda>v c. decodes impl C S (TSlice t) d v (b @ c))"
    proof (cases "t = TUint8")
      case True
      with decodes_bytes [of _ impl C S d] n b show ?thesis by (auto intro!: reads_fixed)
    next
      case False
      note rep = reads_repeat [OF reads_nonempty [OF assms], of n]
      show ?thesis unfolding if_not_P [OF False]
      proof (rule reads_bind [OF rep], elim conjE exE, rule reads_ret)
        fix vs c bs assume v: "length vs = n" "c = concat bs" "list_all2 (\<lambda>v b. decodes impl C S t (zero_val t) v b \<and> b \<noteq> []) vs bs"
        have "list_all2 (\<lambda>v b. enc C S t v = Some b \<and> b \<noteq> []) vs bs"
          by (rule list_all2_mono [OF v(3)]) (simp add: decodes_zero)
        moreover have "\<forall>v\<in>set vs. conf impl t v" using v(3) by (auto simp: decodes_zero list_all2_conv_all_nth in_set_conv_nth)
        ultimately show "decodes impl C S (TSlice t) d (VSlice vs) (b @ c @ [])"
          using slice_enc_ok [of "\<lambda>v. enc C S t v" vs bs] n b v by (simp add: decodes_def)
      qed
    qed
  qed
  then show ?thesis by (simp add: reads_def reads_at_def)
qed

lemma reads_array:
  assumes "\<And>w. w \<in> set (array_elems d) \<Longrightarrow> reads (unmarshal impl C S t w) (decodes impl C S t w)"
  shows "reads (unmarshal impl C S (TArray n t) d) (decodes impl C S (TArray n t) d)"
proof (cases "t = TUint8")
  case True
  have "decodes impl C S (TArray n TUint8) d (VArray (map VUint8 bs)) bs" if "length bs = n" for bs
    using that by (auto simp: decodes_def scalar_enc_def comp_def those_Some intro!: exI [of _ "map (\<lambda>b. [b]) bs"])
  then have "reads (unpacked (\<lambda>bs. VArray (map VUint8 bs)) (UnpackFixedBytes (int n))) (decodes impl C S (TArray n TUint8) d)"
    by (rule reads_fixed)
  then show ?thesis using True by (simp add: reads_def reads_at_def)
next
  case False
  let ?P = "\<lambda>v b. enc C S t v = Some b \<and> ((\<forall>w\<in>set (array_elems d). conf impl t w) \<longrightarrow> conf impl t v)"
  have "reads (\<lambda>q. unmarshal impl C S t w q) ?P" if "w \<in> set (array_elems d)" for w
    by (rule reads_post [OF assms [OF that]]) (use that in \<open>auto simp: decodes_def\<close>)
  then have seq: "reads (u_seq (map (\<lambda>w q. unmarshal impl C S t w q) (array_elems d)))
      (\<lambda>xs b. length xs = length (map (\<lambda>w q. unmarshal impl C S t w q) (array_elems d)) \<and> (\<exists>bs. b = concat bs \<and> list_all2 ?P xs bs))"
    by (intro reads_seq) auto
  have "reads (u_bind (u_seq (map (\<lambda>w q. unmarshal impl C S t w q) (array_elems d))) (\<lambda>vs. u_ret (VArray vs))) (decodes impl C S (TArray n t) d)"
  proof (rule reads_bind [OF seq], elim conjE exE, rule reads_ret)
    fix vs c bs assume v: "length vs = length (map (\<lambda>w q. unmarshal impl C S t w q) (array_elems d))" "c = concat bs" "list_all2 ?P vs bs"
    have "those (map (\<lambda>v. enc C S t v) vs) = Some bs" by (rule those_all2, rule list_all2_mono [OF v(3)]) simp
    moreover have "conf impl t x" if "\<forall>w\<in>set (array_elems d). conf impl t w" "x \<in> set vs" for x
      using v(3) that by (auto simp: list_all2_conv_all_nth in_set_conv_nth)
    ultimately show "decodes impl C S (TArray n t) d (VArray vs) (c @ [])"
      using v(1,2) by (cases d) (auto simp: decodes_def array_elems_def)
  qed
  then show ?thesis using False by (simp add: reads_def reads_at_def)
qed

lemma unmarshal_interface:
  "unmarshal impl C S (TInterface i) d = u_bind (UnpackPrefix impl C i) (\<lambda>t. if t \<in> S then u_fail ERecursiveInterface
      else u_bind (unmarshal impl C (insert t S) t (zero_val t)) (\<lambda>w. u_ret (VInterface (Some (t, w)))))"
  by (rule ext) (auto simp: u_bind_def u_fail_def u_ret_def split: prod.splits sum.splits)

lemma reads_interface:
  assumes "bm_inv (registeredTypes C)"
    "\<And>t. \<lbrakk>t \<notin> S; t \<in> ran (keyToValue (registeredTypes C))\<rbrakk> \<Longrightarrow> reads (unmarshal impl C (insert t S) t (zero_val t)) (decodes impl C (insert t S) t (zero_val t))"
  shows "reads (unmarshal impl C S (TInterface i) d) (decodes impl C S (TInterface i) d)"
proof -
  have "reads (u_bind (UnpackPrefix impl C i) (\<lambda>t. if t \<in> S then u_fail ERecursiveInterface
      else u_bind (unmarshal impl C (insert t S) t (zero_val t)) (\<lambda>w. u_ret (VInterface (Some (t, w)))))) (decodes impl C S (TInterface i) d)"
  proof (rule reads_bind [OF reads_prefix], elim conjE exE)
    fix t b n assume t: "impl t i" "b = be_put 4 n" "keyToValue (registeredTypes C) n = Some t"
    then have "valueToKey (registeredTypes C) t = Some n" using bm_invD [OF assms(1)] by blast
    then have "decodes impl C S (TInterface i) d (VInterface (Some (t, w))) (b @ c)"
      if "t \<notin> S" "decodes impl C (insert t S) t (zero_val t) w c" for w c
      using that t by (simp add: decodes_zero) (simp add: decodes_def bm_GetKey_def)
    then have "reads (u_bind (unmarshal impl C (insert t S) t (zero_val t)) (\<lambda>w. u_ret (VInterface (Some (t, w))))) (\<lambda>v c. decodes impl C S (TInterface i) d v (b @ c))"
      if "t \<notin> S" using that by (intro reads_bind [OF assms(2)] reads_ret) (use t(3) in \<open>auto intro: ranI\<close>)
    then show "reads (if t \<in> S then u_fail ERecursiveInterface
      else u_bind (unmarshal impl C (insert t S) t (zero_val t)) (\<lambda>w. u_ret (VInterface (Some (t, w))))) (\<lambda>v c. decodes impl C S (TInterface i) d v (b @ c))"
      by (auto intro: reads_fail)
  qed
  then show ?thesis by (simp only: unmarshal_interface)
qed

lemma pick_in_bounds: "\<forall>i\<in>set is. i < length xs \<Longrightarrow> pick is xs = map ((!) xs) is"
  by (simp add: pick_def)

lemma fields_decode:
  assumes "fields_read (\<lambda>i. decodes impl C S (fType (fs ! i)) (struct_elems d ! i)) is (struct_elems d) ws b"
    "serialized_fields (tagNames C) 0 fs = Inr is"
  shows "decodes impl C S (TStruct s fs) d (VStruct ws) b"
proof -
  let ?ds = "struct_elems d"
  from assms(1) obtain bs where b: "b = concat bs" "list_all2 (\<lambda>i b. decodes impl C S (fType (fs ! i)) (?ds ! i) (ws ! i) b) is bs"
      "length ws = length ?ds" "\<forall>i\<in>set is. i < length ?ds" "\<forall>j. j \<notin> set is \<longrightarrow> ws ! j = ?ds ! j"
    by (auto simp: fields_read_def)
  have i: "\<forall>i\<in>set is. i < length (zip (map fType fs) ws)" using b(3,4) serialized_fields_distinct [OF assms(2)] by auto
  have "list_all2 (\<lambda>i b. enc C S (fst (zip (map fType fs) ws ! i)) (snd (zip (map fType fs) ws ! i)) = Some b) is bs"
    using b(2) i by (auto simp: list_all2_conv_all_nth decodes_def)
  from those_all2 [OF this] have "enc C S (TStruct s fs) (VStruct ws) = Some b"
    by (simp add: assms(2) pick_in_bounds [OF i] comp_def case_prod_unfold b(1))
  moreover have "conf impl (TStruct s fs) (VStruct ws)" if c: "conf impl (TStruct s fs) d"
  proof -
    obtain ds where d: "d = VStruct ds" "length ds = length fs" "\<forall>(t', v)\<in>set (zip (map fType fs) ds). conf impl t' v"
      using c by (cases d) auto
    have dc: "conf impl (fType (fs ! j)) (ds ! j)" if "j < length fs" for j
    proof -
      have "(fType (fs ! j), ds ! j) \<in> set (zip (map fType fs) ds)" using that d(2) by (auto simp: set_zip intro!: exI [of _ j])
      then show ?thesis using d(3) by blast
    qed
    have "conf impl (fType (fs ! j)) (ws ! j)" if "j < length fs" for j
    proof (cases "j \<in> set is")
      case True
      then obtain n where "n < length is" "is ! n = j" by (auto simp: in_set_conv_nth)
      moreover have "conf impl (fType (fs ! j)) (ds ! j)" by (rule dc [OF that])
      ultimately show ?thesis using list_all2_nthD [OF b(2), of n] d(1) by (simp add: decodes_def struct_elems_def)
    next
      case False
      then show ?thesis using b(5) d(1) dc [OF that] by (simp add: struct_elems_def)
    qed
    then show ?thesis using b(3) d by (auto simp: set_zip struct_elems_def)
  qed
  ultimately show ?thesis by (simp add: decodes_def)
qed

lemma reads_struct:
  assumes "\<And>f w. f \<in> set fs \<Longrightarrow> reads (unmarshal impl C S (fType f) w) (decodes impl C S (fType f) w)"
  shows "reads (unmarshal impl C S (TStruct s fs) d) (decodes impl C S (TStruct s fs) d)"
proof (cases "serialized_fields (tagNames C) 0 fs")
  case (Inl e)
  then have "unmarshal impl C S (TStruct s fs) d = u_fail e" by (intro ext) (simp add: u_fail_def)
  then show ?thesis by (simp add: reads_fail)
next
  case (Inr "is")
  let ?us = "map (\<lambda>f w q. unmarshal impl C S (fType f) w q) fs"
  have "reads (u_fields is ?us (struct_elems d)) (fields_read (\<lambda>i. decodes impl C S (fType (fs ! i)) (struct_elems d ! i)) is (struct_elems d))"
    using serialized_fields_distinct [OF Inr] by (intro reads_fields) (auto intro: assms)
  then have "reads (u_bind (u_fields is ?us (struct_elems d)) (\<lambda>vs. u_ret (VStruct vs))) (decodes impl C S (TStruct s fs) d)"
    by (rule reads_bind) (auto intro!: reads_ret fields_decode Inr)
  moreover have "unmarshal impl C S (TStruct s fs) d = u_bind (u_fields is ?us (struct_elems d)) (\<lambda>vs. u_ret (VStruct vs))"
    by (rule ext) (simp add: Inr)
  ultimately show ?thesis by simp
qed

lemma reads_ptr:
  assumes "reads (unmarshal impl C S t (zero_val t)) (decodes impl C S t (zero_val t))"
  shows "reads (unmarshal impl C S (TPtr t) d) (decodes impl C S (TPtr t) d)"
proof -
  have "reads (u_bind (unmarshal impl C S t (zero_val t)) (\<lambda>w. u_ret (VPtr (Some w)))) (decodes impl C S (TPtr t) d)"
    by (rule reads_bind [OF assms], rule reads_ret) (auto simp: decodes_def conf_zero)
  then show ?thesis by (simp add: reads_def reads_at_def)
qed

lemma reads_map:
  assumes "reads (unmarshal impl C S kt (zero_val kt)) (decodes impl C S kt (zero_val kt))"
    "reads (unmarshal impl C S et (zero_val et)) (decodes impl C S et (zero_val et))"
  shows "reads (unmarshal impl C S (TMap kt et) d) (decodes impl C S (TMap kt et) d)"
proof -
  let ?P = "decodes impl C S kt (zero_val kt)" and ?Q = "decodes impl C S et (zero_val et)"
  let ?fk = "\<lambda>q. unmarshal impl C S kt (zero_val kt) q" and ?fe = "\<lambda>q. unmarshal impl C S et (zero_val et) q"
  have fk: "reads ?fk ?P" and fe: "reads ?fe ?Q" by (rule assms(1), rule assms(2))
  have fn: "a = b" if "?P k a" "?P k b" for k a b using that by (simp add: decodes_def)
  have entries: "reads (u_entries n ?fk ?fe None []) (\<lambda>kvs b. length kvs = n \<and> (\<exists>abz. entries_read ?P ?Q None kvs abz \<and> b = concat (map (\<lambda>x. fst x @ snd x) abz)))" for n
  proof (rule readsI, rule reads_atI)
    fix p e q assume "uok p" "u_entries n ?fk ?fe None [] p = (Inl e, q)"
    then show "kept p q" by (rule u_entries_err [OF fk fe])
  next
    fix p m q assume "uok p" "u_entries n ?fk ?fe None [] p = (Inr m, q)"
    from u_entries_ok [OF fk fe _ this] fn show "\<exists>b. got b p q \<and> length m = n \<and> (\<exists>abz. entries_read ?P ?Q None m abz \<and> b = concat (map (\<lambda>x. fst x @ snd x) abz))"
      by (auto simp: keys_upto_def)
  qed
  have dec: "decodes impl C S (TMap kt et) d (VMap kvs) (be_put 4 (of_nat (length kvs) :: uint32) @ concat (map (\<lambda>x. fst x @ snd x) abz))"
    if "entries_read ?P ?Q None kvs abz" "length kvs \<le> MaxInt32" for kvs abz
    using entries_enc [OF that(1) _ _ that(2), of "\<lambda>k. enc C S kt k" "\<lambda>e. enc C S et e"] entries_keys [OF that(1)] fn
    by (auto simp: decodes_def conf_zero)
  have "reads (u_bind unpack_len (\<lambda>n. u_bind (u_entries n ?fk ?fe None []) (\<lambda>m. u_ret (VMap m)))) (decodes impl C S (TMap kt et) d)"
    by (rule reads_bind [OF reads_len], rule reads_bind [OF entries], rule reads_ret) (use dec in auto)
  then show ?thesis by (simp add: reads_def reads_at_def)
qed

lemma unmarshal_reads:
  assumes "bm_inv (registeredTypes C)"
  shows "reads (unmarshal impl C S t d) (decodes impl C S t d)"
proof -
  let ?R = "ran (keyToValue (registeredTypes C))"
  have fin: "finite ?R" by (rule finite_ran) (rule finite)
  have "wf (inv_image (less_than <*lex*> less_than) (\<lambda>(S, t :: gty). (card (?R - S), size t)))"
    by (intro wf_inv_image wf_lex_prod wf_less_than)
  then have "\<forall>S t d. x = (S, t) \<longrightarrow> reads (unmarshal impl C S t d) (decodes impl C S t d)" for x
  proof (induction x rule: wf_induct_rule)
    case (less x)
    have IH: "reads (unmarshal impl C S' t' d') (decodes impl C S' t' d')"
      if "x = (S, t)" "card (?R - S') < card (?R - S) \<or> card (?R - S') = card (?R - S) \<and> size t' < size t" for S t S' t' d'
      using less [of "(S', t')"] that by auto
    have scalar: "reads (scalar_read t) (decodes impl C S t d)" for S t d
      by (rule reads_post [OF reads_scalar [of t impl C S]]) (auto simp: decodes_def)
    show ?case
    proof (intro allI impI)
      fix S t d assume x: "x = (S, t)"
      show "reads (unmarshal impl C S t d) (decodes impl C S t d)"
      proof (cases t)
        case (TInterface i)
        have "card (?R - insert t' S) < card (?R - S)" if "t' \<notin> S" "t' \<in> ?R" for t'
          using that fin by (intro psubset_card_mono) auto
        then show ?thesis using IH [OF x] assms by (auto simp: TInterface intro!: reads_interface simp del: unmarshal.simps)
      next
        case (TStruct s fs)
        then show ?thesis using IH [OF x] by (auto intro!: reads_struct simp: size_fType simp del: unmarshal.simps)
      next
        case (TSlice t')
        then show ?thesis using IH [OF x] by (auto intro!: reads_slice simp del: unmarshal.simps)
      next
        case (TArray n t')
        then show ?thesis using IH [OF x] by (auto intro!: reads_array simp del: unmarshal.simps)
      next
        case (TPtr t')
        then show ?thesis using IH [OF x] by (auto intro!: reads_ptr simp del: unmarshal.simps)
      next
        case (TMap kt et)
        then show ?thesis using IH [OF x] by (auto intro!: reads_map simp del: unmarshal.simps)
      qed (use scalar [of t S d] in \<open>simp_all add: reads_def reads_at_def\<close>)
    qed
  qed
  then show ?thesis by blast
qed

end
