(* ===== verification/Codec_Roundtrip.thy ===== *)
theory Codec_Roundtrip
  imports Codec_Decode
begin

text \<open>
  Unmarshalling what was marshalled. \<open>canon\<close> is what a destination holds after reading the encoding of a value: the
  value itself, with the fields that are not serialized left as the destination had them and the entries
  of maps in the order of their encoded keys.
\<close>

subsection \<open>Reading a given encoding\<close>

text \<open>At a packer that goes on with the bytes \<open>b\<close>, the read returns \<open>x\<close> and consumes them.\<close>

definition yields :: "'a ustep \<Rightarrow> 'a \<Rightarrow> bytes \<Rightarrow> bool" where
  "yields f x b \<longleftrightarrow> (\<forall>p rest. uok p \<longrightarrow> drop (nat (Offset p)) (Bytes p) = b @ rest \<longrightarrow> f p = (Inr x, p\<lparr>Offset := Offset p + int (length b)\<rparr>))"

lemma yieldsI: "(\<And>p rest. \<lbrakk>uok p; drop (nat (Offset p)) (Bytes p) = b @ rest\<rbrakk> \<Longrightarrow> f p = (Inr x, p\<lparr>Offset := Offset p + int (length b)\<rparr>)) \<Longrightarrow> yields f x b"
  by (simp add: yields_def)

lemma yieldsD: "\<lbrakk>yields f x b; uok p; drop (nat (Offset p)) (Bytes p) = b @ rest\<rbrakk> \<Longrightarrow> f p = (Inr x, p\<lparr>Offset := Offset p + int (length b)\<rparr>)"
  by (simp add: yields_def)

lemma step_over:
  assumes "uok p" "drop (nat (Offset p)) (Bytes p) = a @ rest"
  shows "uok (p\<lparr>Offset := Offset p + int (length a)\<rparr>)"
    and "drop (nat (Offset p + int (length a))) (Bytes p) = rest"
proof -
  have "got a p (p\<lparr>Offset := Offset p + int (length a)\<rparr>)" using assms(2) by (simp add: got_def)
  then show "uok (p\<lparr>Offset := Offset p + int (length a)\<rparr>)" by (rule got_uok [OF assms(1)])
  have "drop (nat (Offset p + int (length a))) (Bytes p) = drop (length a) (drop (nat (Offset p)) (Bytes p))"
    using assms(1) by (simp add: uok_def nat_add_distrib add.commute)
  then show "drop (nat (Offset p + int (length a))) (Bytes p) = rest" using assms(2) by simp
qed

lemma yields_ret: "yields (u_ret x) x []"
  by (simp add: yields_def u_ret_def)

lemma yields_bind: "\<lbrakk>yields f x a; yields (k x) y b\<rbrakk> \<Longrightarrow> yields (u_bind f k) y (a @ b)"
proof (rule yieldsI)
  fix p rest assume f: "yields f x a" and k: "yields (k x) y b" and p: "uok p" "drop (nat (Offset p)) (Bytes p) = (a @ b) @ rest"
  then have 1: "f p = (Inr x, p\<lparr>Offset := Offset p + int (length a)\<rparr>)" by (intro yieldsD [OF f p(1)]) simp
  have "k x (p\<lparr>Offset := Offset p + int (length a)\<rparr>) = (Inr y, p\<lparr>Offset := Offset p + int (length (a @ b))\<rparr>)"
    using yieldsD [OF k step_over(1) [OF p(1), of a "b @ rest"], of rest] step_over(2) [OF p(1), of a "b @ rest"] p(2) by simp
  with 1 show "u_bind f k p = (Inr y, p\<lparr>Offset := Offset p + int (length (a @ b))\<rparr>)" by (simp add: u_bind_def)
qed

lemma yields_nonempty: "\<lbrakk>yields f x b; b \<noteq> []\<rbrakk> \<Longrightarrow> yields (u_nonempty f) x b"
  by (rule yieldsI) (simp add: u_nonempty_def yieldsD)

lemma yields_repeat: "list_all2 (yields f) xs bs \<Longrightarrow> yields (u_repeat (length xs) f) xs (concat bs)"
proof (induction rule: list_all2_induct)
  case Nil
  then show ?case by (simp add: yields_ret)
next
  case (Cons x xs b bs)
  have "yields (u_bind f (\<lambda>x. u_bind (u_repeat (length xs) f) (\<lambda>xs. u_ret (x # xs)))) (x # xs) (b @ concat bs @ [])"
    by (rule yields_bind [OF Cons.hyps(1)], rule yields_bind [OF Cons.IH], rule yields_ret)
  then show ?case by simp
qed

lemma yields_seq: "list_all2 (\<lambda>(f, x) b. yields f x b) fxs bs \<Longrightarrow> yields (u_seq (map fst fxs)) (map snd fxs) (concat bs)"
proof (induction rule: list_all2_induct)
  case Nil
  then show ?case by (simp add: yields_ret)
next
  case (Cons fx fxs b bs)
  obtain f x where fx: "fx = (f, x)" by (cases fx)
  have "yields (u_bind f (\<lambda>x. u_bind (u_seq (map fst fxs)) (\<lambda>xs. u_ret (x # xs)))) (x # map snd fxs) (b @ concat bs @ [])"
    by (rule yields_bind [of f x]) (use Cons.hyps(1) fx in simp, rule yields_bind [OF Cons.IH], rule yields_ret)
  then show ?case by (simp add: fx)
qed

definition update_all :: "nat list \<Rightarrow> (nat \<Rightarrow> 'a) \<Rightarrow> 'a list \<Rightarrow> 'a list" where
  "update_all is x vs = map (\<lambda>j. if j \<in> set is then x j else vs ! j) [0..<length vs]"

lemma update_all_Cons: "\<lbrakk>i < length vs; i \<notin> set is\<rbrakk> \<Longrightarrow> update_all (i # is) x vs = update_all is x (vs[i := x i])"
  by (rule nth_equalityI) (auto simp: update_all_def nth_list_update)

lemma yields_fields:
  assumes "list_all2 (\<lambda>i b. i < length fs \<and> i < length vs \<and> yields ((fs ! i) (vs ! i)) (x i) b) is bs" "distinct is"
  shows "yields (u_fields is fs vs) (update_all is x vs) (concat bs)"
  using assms
proof (induction "is" arbitrary: vs bs)
  case Nil
  have "update_all [] x vs = vs" by (rule nth_equalityI) (simp_all add: update_all_def)
  then show ?case using Nil by (simp add: yields_ret)
next
  case (Cons i "is")
  then obtain b bs' where b: "bs = b # bs'" "i < length fs" "i < length vs" "yields ((fs ! i) (vs ! i)) (x i) b" "i \<notin> set is" "distinct is"
      "list_all2 (\<lambda>i b. i < length fs \<and> i < length vs \<and> yields ((fs ! i) (vs ! i)) (x i) b) is bs'"
    by (auto simp: list_all2_Cons1)
  have "list_all2 (\<lambda>j c. j < length fs \<and> j < length (vs[i := x i]) \<and> yields ((fs ! j) (vs[i := x i] ! j)) (x j) c) is bs'"
  proof (rule list.rel_mono_strong [OF b(7)])
    fix j c assume "j \<in> set is" "j < length fs \<and> j < length vs \<and> yields ((fs ! j) (vs ! j)) (x j) c"
    moreover have "j \<noteq> i" using b(5) \<open>j \<in> set is\<close> by auto
    ultimately show "j < length fs \<and> j < length (vs[i := x i]) \<and> yields ((fs ! j) (vs[i := x i] ! j)) (x j) c" by simp
  qed
  from Cons.IH [OF this b(6)] have "yields (u_fields is fs (vs[i := x i])) (update_all (i # is) x vs) (concat bs')"
    by (simp add: update_all_Cons b)
  from yields_bind [OF b(4), of "\<lambda>x. u_fields is fs (vs[i := x])", OF this] show ?case using b(1-3) by simp
qed

lemma split_bytes:
  assumes "uok p" "drop (nat (Offset p)) (Bytes p) = b @ rest"
  obtains xs where "Bytes p = xs @ b @ rest" "Offset p = int (length xs)"
proof
  show "Bytes p = take (nat (Offset p)) (Bytes p) @ b @ rest" using assms(2) by (metis append_take_drop_id)
  show "Offset p = int (length (take (nat (Offset p)) (Bytes p)))" using assms(1) by (auto simp: uok_def)
qed

lemma yields_word: "LENGTH('a) \<le> 8 * n \<Longrightarrow> yields (unpacked mk (unpack_word n)) (mk (x :: 'a::len word)) (be_put n x)"
proof (rule yieldsI)
  fix p rest assume l: "LENGTH('a) \<le> 8 * n" and p: "uok p" "drop (nat (Offset p)) (Bytes p) = be_put n x @ rest"
  obtain xs where x: "Bytes p = xs @ be_put n x @ rest" "Offset p = int (length xs)" by (rule split_bytes [OF p])
  then have "unpack_word n p = (x, p\<lparr>Offset := Offset p + int n\<rparr>)" using unpack_word_read [OF _ x l] p(1) by (simp add: uok_def)
  then show "unpacked mk (unpack_word n) p = (Inr (mk x), p\<lparr>Offset := Offset p + int (length (be_put n x))\<rparr>)"
    using p(1) by (simp add: unpacked_def uok_def)
qed

lemma yields_fixed: "yields (unpacked mk (UnpackFixedBytes (int (length b)))) (mk b) b"
proof (rule yieldsI)
  fix p rest assume p: "uok p" "drop (nat (Offset p)) (Bytes p) = b @ rest"
  obtain xs where x: "Bytes p = xs @ b @ rest" "Offset p = int (length xs)" by (rule split_bytes [OF p])
  then have "UnpackFixedBytes (int (length b)) p = (b, p\<lparr>Offset := Offset p + int (length b)\<rparr>)"
    using UnpackFixedBytes_read [OF _ x] p(1) by (simp add: uok_def)
  then show "unpacked mk (UnpackFixedBytes (int (length b))) p = (Inr (mk b), p\<lparr>Offset := Offset p + int (length b)\<rparr>)"
    using p(1) by (simp add: unpacked_def uok_def)
qed

lemma yields_len: "n \<le> MaxInt32 \<Longrightarrow> yields unpack_len n (be_put 4 (of_nat n :: uint32))"
proof -
  assume n: "n \<le> MaxInt32"
  then have u: "unat (of_nat n :: uint32) = n" by (simp add: MaxInt32_def unsigned_of_nat take_bit_nat_eq_self)
  have "yields unpack_len n (be_put 4 (of_nat n :: uint32) @ [])"
    unfolding unpack_len_def UnpackInt_def [abs_def]
    by (rule yields_bind [OF yields_word]) (use n u yields_ret in auto)
  then show ?thesis by simp
qed

lemma yields_reads: "\<lbrakk>yields f x b; reads f P\<rbrakk> \<Longrightarrow> P x b"
proof -
  assume y: "yields f x b" and r: "reads f P"
  let ?p = "\<lparr>Err = None, MaxSize = 0, Bytes = b, Spare = [], Offset = 0\<rparr>"
  have p: "uok ?p" by (simp add: uok_def)
  have "f ?p = (Inr x, ?p\<lparr>Offset := int (length b)\<rparr>)" using yieldsD [OF y p, of "[]"] by simp
  from readsD [OF r p this] obtain c where "got c ?p (?p\<lparr>Offset := int (length b)\<rparr>)" "P x c" by blast
  then show ?thesis by (auto simp: got_def)
qed

lemma yields_entries:
  assumes "list_all (\<lambda>x. yields fk (K x) (kb x) \<and> yields fe (E x) (eb x) \<and> kb x @ eb x \<noteq> []) xs"
    "sorted_wrt (<) (map kb xs)" "\<forall>x\<in>set xs. \<forall>c. prev = Some c \<longrightarrow> c < kb x" "distinct (map fst m @ map K xs)"
  shows "yields (u_entries (length xs) fk fe prev m) (m @ map (\<lambda>x. (K x, E x)) xs) (concat (map (\<lambda>x. kb x @ eb x) xs))"
  using assms
proof (induction xs arbitrary: prev m)
  case Nil
  then show ?case by (simp add: yields_def)
next
  case (Cons x xs)
  have upd: "AList.update (K x) (E x) m = m @ [(K x, E x)]" using Cons.prems(4) by (intro update_new) auto
  have rest: "yields (u_entries (length xs) fk fe (Some (kb x)) (m @ [(K x, E x)])) ((m @ [(K x, E x)]) @ map (\<lambda>x. (K x, E x)) xs) (concat (map (\<lambda>x. kb x @ eb x) xs))"
    by (rule Cons.IH) (use Cons.prems in auto)
  show ?case
  proof (rule yieldsI)
    fix p rest assume p: "uok p" "drop (nat (Offset p)) (Bytes p) = concat (map (\<lambda>x. kb x @ eb x) (x # xs)) @ rest"
    let ?o = "\<lambda>n. p\<lparr>Offset := Offset p + int n\<rparr>" and ?w = "concat (map (\<lambda>x. kb x @ eb x) xs)"
    have d: "drop (nat (Offset p)) (Bytes p) = kb x @ eb x @ ?w @ rest" "drop (nat (Offset p)) (Bytes p) = (kb x @ eb x) @ ?w @ rest"
      using p(2) by simp_all
    have 1: "fk p = (Inr (K x), ?o (length (kb x)))" using yieldsD [of fk "K x" "kb x", OF _ p(1) d(1)] Cons.prems(1) by simp
    have 2: "fe (?o (length (kb x))) = (Inr (E x), ?o (length (kb x @ eb x)))"
      using yieldsD [of fe "E x" "eb x", OF _ step_over(1) [OF p(1) d(1)], of "?w @ rest"] step_over(2) [OF p(1) d(1)] Cons.prems(1) by simp
    have 3: "u_entries (length xs) fk fe (Some (kb x)) (m @ [(K x, E x)]) (?o (length (kb x @ eb x)))
        = (Inr (m @ map (\<lambda>x. (K x, E x)) (x # xs)), ?o (length (concat (map (\<lambda>x. kb x @ eb x) (x # xs)))))"
      using yieldsD [OF rest step_over(1) [OF p(1) d(2)], of rest] step_over(2) [OF p(1) d(2)] by simp
    let ?u = "?o (length (kb x))"
    have r: "read_at (Bytes ?u) (Offset p) (nat (Offset ?u - Offset p)) = kb x" using d(1) by (simp add: read_at_def)
    moreover have "\<not> (case prev of None \<Rightarrow> False | Some c \<Rightarrow> read_at (Bytes ?u) (Offset p) (nat (Offset ?u - Offset p)) \<le> c)"
      unfolding r using Cons.prems(3) by (auto split: option.split)
    moreover have "length (kb x @ eb x) \<noteq> 0" using Cons.prems(1) by simp
    ultimately show "u_entries (length (x # xs)) fk fe prev m p = (Inr (m @ map (\<lambda>x. (K x, E x)) (x # xs)), ?o (length (concat (map (\<lambda>x. kb x @ eb x) (x # xs)))))"
      using 1 2 3 upd by (simp del: length_append length_0_conv packer.simps add: Let_def)
  qed
qed

subsection \<open>The value that is read back\<close>

lemma size_zip_pair [termination_simp]: "(v, w) \<in> set (zip vs ws) \<Longrightarrow> size v < Suc (size_list size vs)"
  using size_list_estimation' [of v vs "size v" size] by (auto dest!: set_zip_leftD)

lemma size_zip_field [termination_simp]: "((t, v), x) \<in> set (zip (zip ts vs) xs) \<Longrightarrow> size v < Suc (size_list size vs)"
  by (drule set_zip_leftD) (rule size_zip)

fun canon :: "linearCodec \<Rightarrow> gty set \<Rightarrow> gty \<Rightarrow> gval \<Rightarrow> gval \<Rightarrow> gval" where
  "canon C S t d (VPtr (Some v)) = (case t of TPtr t' \<Rightarrow> VPtr (Some (canon C S t' (zero_val t') v)) | _ \<Rightarrow> VPtr (Some v))"
| "canon C S t d (VInterface (Some (t', v))) = VInterface (Some (t', canon C (insert t' S) t' (zero_val t') v))"
| "canon C S t d (VSlice vs) = (case t of TSlice t' \<Rightarrow> VSlice (map (\<lambda>v. canon C S t' (zero_val t') v) vs) | _ \<Rightarrow> VSlice vs)"
| "canon C S t d (VArray vs) = (case t of TArray n t' \<Rightarrow> VArray (map (\<lambda>(v, w). canon C S t' w v) (zip vs (array_elems d))) | _ \<Rightarrow> VArray vs)"
| "canon C S t d (VStruct vs) =
     (case t of
        TStruct s fs \<Rightarrow>
          (case serialized_fields (tagNames C) 0 fs of
             Inl e \<Rightarrow> VStruct vs
           | Inr is \<Rightarrow> VStruct (map (\<lambda>((t', v), i, w). if i \<in> set is then canon C S t' w v else w)
               (zip (zip (map fType fs) vs) (enumerate 0 (struct_elems d)))))
      | _ \<Rightarrow> VStruct vs)"
| "canon C S t d (VMap kvs) =
     (case t of
        TMap kt et \<Rightarrow> VMap (map (\<lambda>(k, e). (canon C S kt (zero_val kt) k, canon C S et (zero_val et) e)) (sort_key (\<lambda>x. the (enc C S kt (fst x))) kvs))
      | _ \<Rightarrow> VMap kvs)"
| "canon C S t d v = v"

text \<open>No two keys of a map have the same encoding.\<close>

fun keys_ok :: "linearCodec \<Rightarrow> gty set \<Rightarrow> gty \<Rightarrow> gval \<Rightarrow> bool" where
  "keys_ok C S t (VPtr (Some v)) \<longleftrightarrow> (case t of TPtr t' \<Rightarrow> keys_ok C S t' v | _ \<Rightarrow> False)"
| "keys_ok C S t (VInterface (Some (t', v))) \<longleftrightarrow> keys_ok C (insert t' S) t' v"
| "keys_ok C S t (VSlice vs) \<longleftrightarrow> (case t of TSlice t' \<Rightarrow> (\<forall>v\<in>set vs. keys_ok C S t' v) | _ \<Rightarrow> False)"
| "keys_ok C S t (VArray vs) \<longleftrightarrow> (case t of TArray n t' \<Rightarrow> (\<forall>v\<in>set vs. keys_ok C S t' v) | _ \<Rightarrow> False)"
| "keys_ok C S t (VStruct vs) \<longleftrightarrow> (case t of TStruct s fs \<Rightarrow> (\<forall>(t', v)\<in>set (zip (map fType fs) vs). keys_ok C S t' v) | _ \<Rightarrow> False)"
| "keys_ok C S t (VMap kvs) \<longleftrightarrow>
     (case t of TMap kt et \<Rightarrow> distinct (map (\<lambda>x. enc C S kt (fst x)) kvs) \<and> (\<forall>(k, e)\<in>set kvs. keys_ok C S kt k \<and> keys_ok C S et e) | _ \<Rightarrow> False)"
| "keys_ok C S t v \<longleftrightarrow> True"

lemma yields_str: "length s \<le> MaxStringLen \<Longrightarrow> yields (unpacked VString UnpackStr) (VString s) (be_put 2 (of_nat (length s) :: uint16) @ s)"
proof -
  assume "length s \<le> MaxStringLen"
  then have u: "unat (of_nat (length s) :: uint16) = length s" by (simp add: MaxStringLen_def unsigned_of_nat take_bit_nat_eq_self)
  show ?thesis unfolding unpacked_str
    by (rule yields_bind [OF yields_word]) (simp_all add: u yields_fixed)
qed

lemma yields_bool: "yields (unpacked VBool UnpackBool) (VBool x) [if x then 1 else 0]"
proof -
  have "yields (unpacked id (unpack_word 1)) (if x then 1 else 0 :: byte) [if x then 1 else 0]"
    using yields_word [of 1 id "if x then 1 else 0 :: byte"] by (simp add: be_put_1)
  from yields_bind [OF this, of _ "VBool x" "[]"] show ?thesis unfolding unpacked_bool by (simp add: yields_ret)
qed

lemma yields_scalar: "\<lbrakk>conf impl t v; scalar_enc v = Some b\<rbrakk> \<Longrightarrow> yields (scalar_read t) v b"
  using yields_str yields_bool [of True] yields_bool [of False]
  by (cases v) (auto simp: scalar_enc_def scalar_read_def UnpackByte_def [abs_def] UnpackShort_def [abs_def] UnpackInt_def [abs_def]
      UnpackLong_def [abs_def] be_put_1 [symmetric] split: if_splits gty.splits intro!: yields_word)
subsection \<open>Unmarshalling inverts the encoding\<close>

lemma canon_struct:
  assumes "length vs = length fs" "length ds = length fs" "serialized_fields (tagNames C) 0 fs = Inr is"
  shows "canon C S (TStruct s fs) (VStruct ds) (VStruct vs) = VStruct (update_all is (\<lambda>i. canon C S (fType (fs ! i)) (ds ! i) (vs ! i)) ds)"
  by (simp add: assms(3) struct_elems_def, rule nth_equalityI) (simp_all add: assms update_all_def nth_enumerate_eq)

lemma all2_from_those: "those (map f xs) = Some bs \<Longrightarrow> list_all2 (\<lambda>x b. f x = Some b) xs bs"
  by (induction xs arbitrary: bs) (auto split: option.splits)

lemma map_enc_sorted:
  assumes "map_enc (map (\<lambda>x. (fk x, fe x)) kvs) = Some b"
  shows "let xs = sort_key (\<lambda>x. the (fk x)) kvs in length kvs \<le> MaxInt32
    \<and> b = be_put 4 (of_nat (length kvs) :: uint32) @ concat (map (\<lambda>x. the (fk x) @ the (fe x)) xs)
    \<and> (\<forall>x\<in>set xs. fk x \<noteq> None \<and> fe x \<noteq> None \<and> the (fk x) @ the (fe x) \<noteq> [])"
proof -
  let ?h = "\<lambda>x. (the (fk x), fe x)" and ?xs = "sort_key (\<lambda>x. the (fk x)) kvs"
  from assms obtain ks us where u: "map fk kvs = map Some ks" "b = be_put 4 (of_nat (length kvs) :: uint32) @ concat us" "length kvs \<le> MaxInt32"
      "map entry_enc (sort_key fst (zip ks (map fe kvs))) = map Some us"
    by (auto simp: map_enc_def those_Some bind_eq_Some_conv comp_def split: if_splits)
  have ks: "ks = map (\<lambda>x. the (fk x)) kvs"
    using arg_cong [OF u(1), of "map the"] by (simp add: comp_def)
  have "zip ks (map fe kvs) = map ?h kvs" unfolding ks by (simp add: zip_map1 zip_map2 zip_same_conv_map)
  then have z: "sort_key fst (zip ks (map fe kvs)) = map ?h ?xs" using map_sort_key [of ?h fst kvs] by simp
  note us = entries_Some [OF u(4) [unfolded z]]
  have fe: "fe x \<noteq> None \<and> the (fk x) @ the (fe x) \<noteq> []" if "x \<in> set ?xs" for x
    using us [THEN conjunct2] that by force
  have fk: "fk x \<noteq> None" if "x \<in> set ?xs" for x
  proof -
    have "fk x \<in> set (map fk kvs)" using that by simp
    then show ?thesis unfolding u(1) by auto
  qed
  have "us = map (\<lambda>x. the (fk x) @ the (fe x)) ?xs" using us [THEN conjunct1] by (simp add: comp_def)
  then show ?thesis using u(2,3) fe fk by (auto simp: Let_def)
qed

lemma distinct_of_map: "distinct (map f xs) \<Longrightarrow> distinct xs"
  by (simp add: distinct_map)

lemma unmarshal_map_yields:
  assumes "map_enc (map (\<lambda>x. (enc C S kt (fst x), enc C S et (snd x))) kvs) = Some b" "bm_inv (registeredTypes C)"
    and "distinct (map (\<lambda>x. enc C S kt (fst x)) kvs)"
    and "\<And>x a. \<lbrakk>x \<in> set kvs; enc C S kt (fst x) = Some a\<rbrakk> \<Longrightarrow> yields (unmarshal impl C S kt (zero_val kt)) (K x) a"
    and "\<And>x a. \<lbrakk>x \<in> set kvs; enc C S et (snd x) = Some a\<rbrakk> \<Longrightarrow> yields (unmarshal impl C S et (zero_val et)) (E x) a"
  shows "yields (unmarshal impl C S (TMap kt et) d) (VMap (map (\<lambda>x. (K x, E x)) (sort_key (\<lambda>x. the (enc C S kt (fst x))) kvs))) b"
proof -
  let ?kb = "\<lambda>x. the (enc C S kt (fst x))" and ?eb = "\<lambda>x. the (enc C S et (snd x))"
  let ?fk = "\<lambda>q. unmarshal impl C S kt (zero_val kt) q" and ?fe = "\<lambda>q. unmarshal impl C S et (zero_val et) q"
  let ?xs = "sort_key ?kb kvs"
  have m: "length kvs \<le> MaxInt32" "b = be_put 4 (of_nat (length kvs) :: uint32) @ concat (map (\<lambda>x. ?kb x @ ?eb x) ?xs)"
    "\<And>x. x \<in> set ?xs \<Longrightarrow> enc C S kt (fst x) = Some (?kb x) \<and> enc C S et (snd x) = Some (?eb x) \<and> ?kb x @ ?eb x \<noteq> []"
    using map_enc_sorted [OF assms(1)] by (auto simp: Let_def)
  have "distinct (map ?kb kvs)"
  proof -
    have e: "map (\<lambda>x. enc C S kt (fst x)) kvs = map Some (map ?kb kvs)" using m(3) by simp
    show ?thesis by (rule distinct_of_map [OF assms(3) [unfolded e]])
  qed
  then have "distinct (map ?kb ?xs)" by (simp add: distinct_map)
  then have srt: "sorted_wrt (<) (map ?kb ?xs)" by (simp add: strict_sorted_iff)
  have y: "yields ?fk (K x) (?kb x) \<and> yields ?fe (E x) (?eb x) \<and> ?kb x @ ?eb x \<noteq> []" if "x \<in> set ?xs" for x
    using assms(4,5) [of x] m(3) [OF that] that by simp
  have "enc C S kt (K x) = Some (?kb x)" if "x \<in> set ?xs" for x
    using yields_reads [OF y [OF that, THEN conjunct1] unmarshal_reads [OF assms(2)]] by (simp add: decodes_def)
  then have "map (\<lambda>x. enc C S kt (K x)) ?xs = map Some (map ?kb ?xs)" by simp
  moreover have "distinct (map Some (map ?kb ?xs))" using \<open>distinct (map ?kb ?xs)\<close> by (auto simp: distinct_map inj_on_def)
  ultimately have "distinct (map (\<lambda>x. enc C S kt (K x)) ?xs)" by (simp only:)
  then have "distinct (map (\<lambda>v. enc C S kt v) (map K ?xs))" by (simp add: comp_def)
  then have "distinct (map K ?xs)" by (rule distinct_of_map)
  then have "yields (u_entries (length ?xs) ?fk ?fe None []) ([] @ map (\<lambda>x. (K x, E x)) ?xs) (concat (map (\<lambda>x. ?kb x @ ?eb x) ?xs))"
    using y srt by (intro yields_entries) (auto simp: list_all_iff)
  from yields_bind [OF this yields_ret, of VMap]
  have "yields (u_bind (u_entries (length kvs) ?fk ?fe None []) (\<lambda>m. u_ret (VMap m))) (VMap (map (\<lambda>x. (K x, E x)) ?xs)) (concat (map (\<lambda>x. ?kb x @ ?eb x) ?xs))"
    by simp
  from yields_bind [OF yields_len [OF m(1)], of "\<lambda>n. u_bind (u_entries n ?fk ?fe None []) (\<lambda>m. u_ret (VMap m))", OF this] m(2)
  show ?thesis by (simp add: yields_def)
qed

lemma yields_prefix: "\<lbrakk>keyToValue (registeredTypes C) n = Some t; impl t i\<rbrakk> \<Longrightarrow> yields (UnpackPrefix impl C i) t (be_put 4 n)"
  using yields_bind [OF yields_word [of 4 id n], where y = t and b = "[]"] yields_ret [of t] by (simp add: UnpackPrefix_bind)

lemma interface_yields:
  assumes "bm_inv (registeredTypes C)" "impl t i" "t \<notin> S" "bm_GetKey (registeredTypes C) t = Some n"
    "yields (unmarshal impl C (insert t S) t (zero_val t)) w b"
  shows "yields (unmarshal impl C S (TInterface i) d) (VInterface (Some (t, w))) (be_put 4 n @ b)"
proof -
  have "keyToValue (registeredTypes C) n = Some t" using assms(1,4) by (simp add: bm_invD bm_GetKey_def)
  note pre = yields_prefix [OF this, of impl i, OF assms(2)]
  have "yields (u_bind (UnpackPrefix impl C i) (\<lambda>t. if t \<in> S then u_fail ERecursiveInterface
      else u_bind (unmarshal impl C (insert t S) t (zero_val t)) (\<lambda>w. u_ret (VInterface (Some (t, w)))))) (VInterface (Some (t, w))) (be_put 4 n @ b @ [])"
    by (rule yields_bind [OF pre]) (simp only: assms(3) if_False, rule yields_bind [OF assms(5) yields_ret])
  then show ?thesis unfolding unmarshal_interface by simp
qed

lemma conf_byte_list: "\<forall>v\<in>set vs. conf impl TUint8 v \<Longrightarrow> map VUint8 (map val_byte vs) = vs"
proof (induction vs)
  case (Cons v vs)
  then show ?case by (cases v) (auto simp: val_byte_def)
qed simp

lemma slice_yields:
  assumes "slice_enc (map (\<lambda>v. enc C S t v) vs) = Some b" "\<forall>v\<in>set vs. conf impl t v"
    "\<And>v a. \<lbrakk>v \<in> set vs; enc C S t v = Some a\<rbrakk> \<Longrightarrow> yields (unmarshal impl C S t (zero_val t)) (f v) a"
    "\<And>v. \<lbrakk>t = TUint8; v \<in> set vs\<rbrakk> \<Longrightarrow> f v = v"
  shows "yields (unmarshal impl C S (TSlice t) d) (VSlice (map f vs)) b"
proof -
  let ?f = "\<lambda>q. unmarshal impl C S t (zero_val t) q"
  obtain bs where bs: "list_all2 (\<lambda>v b. nonempty (enc C S t v) = Some b) vs bs" "b = be_put 4 (of_nat (length vs) :: uint32) @ concat bs" "length vs \<le> MaxInt32"
    using assms(1) by (auto simp: slice_enc_def comp_def split: if_splits dest!: all2_from_those)
  let ?k = "\<lambda>n. if t = TUint8 then unpacked (\<lambda>bs. VSlice (map VUint8 bs)) (UnpackFixedBytes (int n))
       else u_bind (u_repeat n (u_nonempty ?f)) (\<lambda>vs. u_ret (VSlice vs))"
  have "yields (?k (length vs)) (VSlice (map f vs)) (concat bs)"
  proof (cases "t = TUint8")
    case True
    have v: "map VUint8 (map val_byte vs) = vs" "map f vs = vs" using conf_byte_list [of vs impl] assms(2,4) True by (auto simp: map_idI)
    have "concat bs = map val_byte vs"
      using assms(1,2) bs(2,3) unfolding True conf_bytes [OF assms(2) [unfolded True]] slice_enc_bytes by simp
    then show ?thesis using True v yields_fixed [of "\<lambda>bs. VSlice (map VUint8 bs)" "map val_byte vs"] by simp
  next
    case False
    have "list_all2 (yields (u_nonempty ?f)) (map f vs) bs"
      unfolding list_all2_map1 by (rule list.rel_mono_strong [OF bs(1)]) (auto simp: nonempty_Some intro: yields_nonempty assms(3))
    from yields_bind [OF yields_repeat [OF this] yields_ret, of VSlice] False show ?thesis by simp
  qed
  from yields_bind [OF yields_len [OF bs(3)], of ?k, OF this] bs(2) show ?thesis by (simp add: yields_def)
qed

lemma array_yields:
  assumes "those (map (\<lambda>v. enc C S t v) vs) = Some bs" "\<forall>v\<in>set vs. conf impl t v" "length vs = n" "length (array_elems d) = n"
    "\<And>v w a. \<lbrakk>v \<in> set vs; w \<in> set (array_elems d); enc C S t v = Some a\<rbrakk> \<Longrightarrow> yields (unmarshal impl C S t w) (f v w) a"
    "\<And>v w. \<lbrakk>t = TUint8; v \<in> set vs\<rbrakk> \<Longrightarrow> f v w = v"
  shows "yields (unmarshal impl C S (TArray n t) d) (VArray (map (\<lambda>(v, w). f v w) (zip vs (array_elems d)))) (concat bs)"
proof (cases "t = TUint8")
  case True
  have v: "map VUint8 (map val_byte vs) = vs" using conf_byte_list [of vs impl] assms(2) True by simp
  have "map (\<lambda>(v, w). f v w) (zip vs (array_elems d)) = map fst (zip vs (array_elems d))"
    using assms(6) True by (auto dest: set_zip_leftD)
  then have w: "map (\<lambda>(v, w). f v w) (zip vs (array_elems d)) = vs" using assms(3,4) by simp
  have "map Some bs = map (\<lambda>v. Some [val_byte v]) vs"
    using assms(1) conf_bytes [OF assms(2) [unfolded True], of C S] by (simp add: True those_Some)
  from arg_cong [OF this, of "\<lambda>l. concat (map the l)"] have "concat bs = map val_byte vs" by (simp add: comp_def)
  then show ?thesis using True v w assms(3) yields_fixed [of "\<lambda>bs. VArray (map VUint8 bs)" "map val_byte vs"] by (simp add: yields_def)
next
  case False
  let ?fx = "map (\<lambda>(v, w). ((\<lambda>q. unmarshal impl C S t w q), f v w)) (zip vs (array_elems d))"
  have a: "list_all2 (\<lambda>v b. enc C S t v = Some b) vs bs" by (rule all2_from_those [OF assms(1)])
  have "list_all2 (\<lambda>(f, x) b. yields f x b) ?fx bs"
    using a assms(3,4,5) by (auto simp: list_all2_conv_all_nth)
  from yields_bind [OF yields_seq [OF this] yields_ret, of VArray]
  have "yields (u_bind (u_seq (map fst ?fx)) (\<lambda>vs. u_ret (VArray vs))) (VArray (map snd ?fx)) (concat bs)" by simp
  moreover have "map fst ?fx = map (\<lambda>w q. unmarshal impl C S t w q) (map snd (zip vs (array_elems d)))" by (simp add: split_beta comp_def)
  moreover have "map snd ?fx = map (\<lambda>(v, w). f v w) (zip vs (array_elems d))" by (simp add: split_beta comp_def)
  ultimately show ?thesis using False assms(3,4) by (simp add: yields_def)
qed
lemma struct_yields:
  assumes "serialized_fields (tagNames C) 0 fs = Inr is" "length vs = length fs" "length ds = length fs"
    "those (map (\<lambda>(t, v). enc C S t v) (pick is (zip (map fType fs) vs))) = Some bs"
    "\<And>i a. \<lbrakk>i < length fs; i \<in> set is; enc C S (fType (fs ! i)) (vs ! i) = Some a\<rbrakk> \<Longrightarrow> yields (unmarshal impl C S (fType (fs ! i)) (ds ! i)) (x i) a"
  shows "yields (unmarshal impl C S (TStruct s fs) (VStruct ds)) (VStruct (update_all is x ds)) (concat bs)"
proof -
  let ?us = "map (\<lambda>f w q. unmarshal impl C S (fType f) w q) fs"
  have i: "distinct is" "\<forall>i\<in>set is. i < length fs" using serialized_fields_distinct [OF assms(1)] by auto
  have "pick is (zip (map fType fs) vs) = map (\<lambda>i. (fType (fs ! i), vs ! i)) is"
    using i(2) assms(2) by (subst pick_in_bounds) auto
  then have "list_all2 (\<lambda>i b. enc C S (fType (fs ! i)) (vs ! i) = Some b) is bs"
    using all2_from_those [OF assms(4)] by (simp add: list_all2_map1)
  then have "list_all2 (\<lambda>i b. i < length ?us \<and> i < length ds \<and> yields ((?us ! i) (ds ! i)) (x i) b) is bs"
    by (rule list.rel_mono_strong) (use i(2) assms(3,5) in auto)
  from yields_bind [OF yields_fields [OF this i(1)] yields_ret, of VStruct] show ?thesis
    by (simp add: yields_def assms(1) struct_elems_def)
qed

lemma conf_field:
  assumes "conf impl (TStruct s fs) (VStruct vs)" "i < length fs"
  shows "conf impl (fType (fs ! i)) (vs ! i)" "(fType (fs ! i), vs ! i) \<in> set (zip (map fType fs) vs)"
proof -
  show m: "(fType (fs ! i), vs ! i) \<in> set (zip (map fType fs) vs)" using assms by (auto simp: set_zip intro!: exI [of _ i])
  then show "conf impl (fType (fs ! i)) (vs ! i)" using assms(1) by auto
qed

lemma canon_byte: "conf impl TUint8 v \<Longrightarrow> canon C S TUint8 d v = v"
  by (cases v) auto

lemma scalar_enc_other: "scalar_enc VOther = None"
  by (simp add: scalar_enc_def)

lemma unmarshal_yields:
  "\<lbrakk>bm_inv (registeredTypes C); conf impl t v; conf impl t d; keys_ok C S t v; enc C S t v = Some b\<rbrakk>
   \<Longrightarrow> yields (unmarshal impl C S t d) (canon C S t d v) b"
proof (induction C S t v arbitrary: d b rule: enc.induct)
  case (1 C S t r)
  then obtain t' v where t: "t = TPtr t'" "r = Some v" by (auto split: gty.splits option.splits)
  then have "yields (unmarshal impl C S t' (zero_val t')) (canon C S t' (zero_val t') v) b" using 1 conf_zero by auto
  from yields_bind [OF this yields_ret, of "\<lambda>w. VPtr (Some w)"] show ?case by (simp add: t yields_def)
next
  case (2 C S t r)
  then obtain i t' v where r: "t = TInterface i" "r = Some (t', v)" "t' \<notin> S" "impl t' i" "conf impl t' v" by (auto split: gty.splits option.splits if_splits)
  then obtain n b' where b: "bm_GetKey (registeredTypes C) t' = Some n" "enc C (insert t' S) t' v = Some b'" "b = be_put 4 n @ b'"
    using 2(6) by (auto simp: bind_eq_Some_conv)
  have "yields (unmarshal impl C (insert t' S) t' (zero_val t')) (canon C (insert t' S) t' (zero_val t') v) b'"
    using 2(1) [OF r(1,2) refl r(3) b(1) 2(2) r(5) conf_zero _ b(2)] 2(5) r(2) by simp
  from interface_yields [OF 2(2) r(4,3) b(1) this] show ?case by (simp add: r b(3) del: unmarshal.simps)
next
  case (3 C S t vs)
  then obtain t' where t: "t = TSlice t'" "\<forall>v\<in>set vs. conf impl t' v" by (auto split: gty.splits)
  have "yields (unmarshal impl C S (TSlice t') d) (VSlice (map (\<lambda>v. canon C S t' (zero_val t') v) vs)) b"
    using 3 t conf_zero canon_byte by (intro slice_yields) auto
  then show ?case by (simp add: t del: unmarshal.simps)
next
  case (4 C S t vs)
  then obtain t' where t: "t = TArray (length vs) t'" "\<forall>v\<in>set vs. conf impl t' v" by (auto split: gty.splits)
  then obtain bs where bs: "those (map (\<lambda>v. enc C S t' v) vs) = Some bs" "b = concat bs" using 4(6) by auto
  obtain ds where ds: "d = VArray ds" "length ds = length vs" "\<forall>w\<in>set ds. conf impl t' w" using 4(4) t(1) by (cases d) auto
  have "yields (unmarshal impl C S (TArray (length vs) t') d) (VArray (map (\<lambda>(v, w). canon C S t' w v) (zip vs (array_elems d)))) (concat bs)"
    using 4(1,2,5) t bs(1) ds canon_byte by (intro array_yields) (auto simp: array_elems_def)
  then show ?case using bs(2) by (subst (1 2) t(1)) (simp del: unmarshal.simps)
next
  case (5 C S t vs)
  then obtain s fs where t: "t = TStruct s fs" "length vs = length fs" by (auto split: gty.splits)
  obtain ds where ds: "d = VStruct ds" "length ds = length fs" using 5(4) t(1) by (cases d) auto
  obtain "is" where i: "serialized_fields (tagNames C) 0 fs = Inr is" using 5(6) t(1) by (auto split: sum.splits)
  obtain bs where bs: "those (map (\<lambda>(t, v). enc C S t v) (pick is (zip (map fType fs) vs))) = Some bs" "b = concat bs"
    using 5(6) t(1) i by auto
  have "yields (unmarshal impl C S (TStruct s fs) (VStruct ds)) (VStruct (update_all is (\<lambda>i. canon C S (fType (fs ! i)) (ds ! i) (vs ! i)) ds)) (concat bs)"
  proof (rule struct_yields [OF i t(2) ds(2) bs(1)])
    fix j a assume j: "j < length fs" "j \<in> set is" "enc C S (fType (fs ! j)) (vs ! j) = Some a"
    have p: "(fType (fs ! j), vs ! j) \<in> set (pick is (zip (map fType fs) vs))"
      using j t(2) by (auto simp: pick_def image_iff intro!: bexI [of _ j])
    have c: "conf impl (fType (fs ! j)) (vs ! j)" "(fType (fs ! j), vs ! j) \<in> set (zip (map fType fs) vs)" "conf impl (fType (fs ! j)) (ds ! j)"
      using conf_field [of impl s fs vs j] conf_field [of impl s fs ds j] 5(3,4) j(1) unfolding t(1) ds(1) by blast+
    have "keys_ok C S (fType (fs ! j)) (vs ! j)" using 5(5) c(2) t(1) by auto
    then show "yields (unmarshal impl C S (fType (fs ! j)) (ds ! j)) (canon C S (fType (fs ! j)) (ds ! j) (vs ! j)) a"
      by (rule 5(1) [OF t(1) i p refl 5(2) c(1,3) _ j(3)])
  qed
  then show ?case unfolding t(1) ds(1) bs(2) canon_struct [OF t(2) ds(2) i] .
next
  case (6 C S t kvs)
  then obtain kt et where t: "t = TMap kt et" by (auto split: gty.splits)
  have c: "conf impl kt (fst x) \<and> conf impl et (snd x) \<and> keys_ok C S kt (fst x) \<and> keys_ok C S et (snd x)" if "x \<in> set kvs" for x
    using 6(4,6) that t by auto
  have "yields (unmarshal impl C S (TMap kt et) d) (VMap (map (\<lambda>x. (canon C S kt (zero_val kt) (fst x), canon C S et (zero_val et) (snd x)))
      (sort_key (\<lambda>x. the (enc C S kt (fst x))) kvs))) b"
  proof (rule unmarshal_map_yields)
    show "map_enc (map (\<lambda>x. (enc C S kt (fst x), enc C S et (snd x))) kvs) = Some b" using 6(7) by (simp add: t case_prod_unfold)
    show "distinct (map (\<lambda>x. enc C S kt (fst x)) kvs)" using 6(6) t by simp
    show "yields (unmarshal impl C S kt (zero_val kt)) (canon C S kt (zero_val kt) (fst x)) a" if "x \<in> set kvs" "enc C S kt (fst x) = Some a" for x a
      using 6(1) [OF t that(1) prod.collapse 6(3) _ conf_zero _ that(2)] c [OF that(1)] by blast
    show "yields (unmarshal impl C S et (zero_val et)) (canon C S et (zero_val et) (snd x)) a" if "x \<in> set kvs" "enc C S et (snd x) = Some a" for x a
      using 6(2) [OF t that(1) prod.collapse 6(3) _ conf_zero _ that(2)] c [OF that(1)] by blast
  qed (rule 6(3))
  then show ?case by (simp add: t case_prod_unfold del: unmarshal.simps)
qed (use yields_scalar in \<open>auto simp: yields_def scalar_enc_other\<close>)

end
