(* ===== verification/Codec_Claims.thy ===== *)
theory Codec_Claims
  imports Codec_Size Codec_Roundtrip "HOL-Library.Multiset"
begin

text \<open>
  The codec as its clients see it: the registry over any sequence of registrations, and \<open>Marshal\<close>, \<open>Unmarshal\<close>
  and \<open>Size\<close> of the manager.
\<close>

subsection \<open>The registry\<close>

datatype lc_op = LSkip nat | LReg gty

fun lc_exec :: "linearCodec \<Rightarrow> lc_op \<Rightarrow> linearCodec" where
  "lc_exec C (LSkip n) = SkipRegistrations (int n) C"
| "lc_exec C (LReg t) = snd (RegisterType t C)"

definition registry :: "string list \<Rightarrow> lc_op list \<Rightarrow> linearCodec" where
  "registry tags ops = foldl lc_exec (lc_New tags) ops"

lemma lc_exec_inv: "bm_inv (registeredTypes C) \<Longrightarrow> bm_inv (registeredTypes (lc_exec C op))"
  by (cases op) (simp_all add: SkipRegistrations_def RegisterType_def bm_Put_result(2))

lemma registry_inv: "bm_inv (registeredTypes (registry tags ops))"
proof -
  have "bm_inv (registeredTypes C) \<Longrightarrow> bm_inv (registeredTypes (foldl lc_exec C ops))" for C
    by (induction ops arbitrary: C) (simp_all add: lc_exec_inv)
  then show ?thesis by (simp add: registry_def lc_New_def bm_inv_New)
qed

text \<open>How many type ids a sequence of calls uses: one per new type, and the skipped ones.\<close>

fun ids_used :: "gty set \<Rightarrow> lc_op list \<Rightarrow> nat" where
  "ids_used seen [] = 0"
| "ids_used seen (LSkip n # ops) = n + ids_used seen ops"
| "ids_used seen (LReg t # ops) = (if t \<in> seen then ids_used seen ops else Suc (ids_used (insert t seen) ops))"

definition numbered :: "nat \<Rightarrow> gty set \<Rightarrow> linearCodec \<Rightarrow> bool" where
  "numbered n seen C \<longleftrightarrow> bm_inv (registeredTypes C) \<and> nextTypeID C = of_nat n \<and> dom (valueToKey (registeredTypes C)) = seen
     \<and> (\<forall>i\<in>dom (keyToValue (registeredTypes C)). unat i < n)"

lemma numbered_skip: "numbered n seen C \<Longrightarrow> numbered (n + k) seen (lc_exec C (LSkip k)) \<and> registeredTypes (lc_exec C (LSkip k)) = registeredTypes C"
  by (auto simp: numbered_def SkipRegistrations_def dest!: bspec)

lemma numbered_known: "\<lbrakk>numbered n seen C; t \<in> seen\<rbrakk> \<Longrightarrow> lc_exec C (LReg t) = C"
  by (auto simp: numbered_def RegisterType_def bm_HasValue_def)

lemma numbered_new:
  assumes "numbered n seen C" "t \<notin> seen" "n < 2 ^ 32"
  shows "numbered (Suc n) (insert t seen) (lc_exec C (LReg t))"
    and "valueToKey (registeredTypes (lc_exec C (LReg t))) = (valueToKey (registeredTypes C))(t \<mapsto> of_nat n)"
proof -
  let ?m = "registeredTypes C" and ?i = "of_nat n :: uint32"
  have u: "unat ?i = n" using assms(3) by (simp add: unsigned_of_nat take_bit_nat_eq_self)
  have i: "bm_inv ?m" and d: "dom (valueToKey ?m) = seen" and lt: "\<And>j. j \<in> dom (keyToValue ?m) \<Longrightarrow> unat j < n" and nx: "nextTypeID C = ?i"
    using assms(1) by (auto simp: numbered_def)
  have free: "keyToValue ?m ?i = None" using lt [of ?i] u by (cases "keyToValue ?m ?i") auto
  have tfree: "valueToKey ?m t = None" using assms(2) d by auto
  have put: "snd (bm_Put ?m ?i t) = \<lparr>keyToValue = (keyToValue ?m)(?i \<mapsto> t), valueToKey = (valueToKey ?m)(t \<mapsto> ?i)\<rparr>"
    by (simp add: bm_Put_def bm_DeleteKey_def bm_DeleteValue_def free tfree)
  have ex: "lc_exec C (LReg t) = C\<lparr>registeredTypes := snd (bm_Put ?m ?i t), nextTypeID := nextTypeID C + 1\<rparr>"
    by (simp add: RegisterType_def bm_HasValue_def tfree nx)
  show "valueToKey (registeredTypes (lc_exec C (LReg t))) = (valueToKey ?m)(t \<mapsto> ?i)" unfolding ex put by simp
  have "bm_inv (snd (bm_Put ?m ?i t))" by (rule bm_Put_result(2) [OF i])
  then show "numbered (Suc n) (insert t seen) (lc_exec C (LReg t))"
    using lt u nx d unfolding numbered_def ex put by (auto simp: less_Suc_eq)
qed

lemma ids_keep:
  assumes "numbered n seen C" "n + ids_used seen ops \<le> 2 ^ 32"
  shows "numbered (n + ids_used seen ops) (seen \<union> {t. LReg t \<in> set ops}) (foldl lc_exec C ops)
    \<and> (\<forall>t\<in>seen. valueToKey (registeredTypes (foldl lc_exec C ops)) t = valueToKey (registeredTypes C) t)"
  using assms
proof (induction seen ops arbitrary: n C rule: ids_used.induct)
  case (2 seen k ops)
  note sk = numbered_skip [OF 2(2), of k]
  have "n + k + ids_used seen ops \<le> 2 ^ 32" using 2(3) by simp
  from 2(1) [OF sk [THEN conjunct1] this] sk [THEN conjunct2] show ?case by (simp add: add.assoc)
next
  case (3 seen t ops)
  have regs: "seen \<union> {u. LReg u \<in> set (LReg t # ops)} = insert t seen \<union> {u. LReg u \<in> set ops}" by auto
  show ?case
  proof (cases "t \<in> seen")
    case True
    then have "insert t seen = seen" by auto
    then show ?thesis unfolding regs using 3(1) [OF True 3(3)] 3(4) numbered_known [OF 3(3) True] True by simp
  next
    case False
    then have lt: "n < 2 ^ 32" "Suc n + ids_used (insert t seen) ops \<le> 2 ^ 32" using 3(4) by simp_all
    note nw = numbered_new [OF 3(3) False lt(1)]
    have "valueToKey (registeredTypes (lc_exec C (LReg t))) u = valueToKey (registeredTypes C) u" if "u \<in> seen" for u
      unfolding nw(2) using that False by auto
    then show ?thesis unfolding regs using 3(2) [OF False nw(1) lt(2)] False by simp
  qed
qed auto

lemma ids_used_append: "ids_used seen (xs @ ys) = ids_used seen xs + ids_used (seen \<union> {t. LReg t \<in> set xs}) ys"
proof (induction seen xs rule: ids_used.induct)
  case (3 seen t ops)
  have e: "insert t seen \<union> {u. LReg u \<in> set ops} = seen \<union> {u. u = t \<or> LReg u \<in> set ops}" by auto
  have k: "t \<in> seen \<Longrightarrow> seen \<union> {u. u = t \<or> LReg u \<in> set ops} = seen \<union> {u. LReg u \<in> set ops}" by auto
  show ?case using 3 e k by auto
qed auto

lemma numbered_start: "numbered 0 {} (lc_New tags)"
  by (simp add: numbered_def lc_New_def bm_New_def bm_inv_def)

text \<open>
  C26. Type ids are sequential. In any sequence of \<open>RegisterType\<close> and \<open>SkipRegistrations\<close> calls that uses at most
  \<open>2 ^ 32\<close> ids, a type gets the number of ids used before its first registration and keeps it whatever is
  registered later; the id leads back to the type; and registering the type again is refused. So two programs
  that register the same types in the same order agree on every id.
\<close>

theorem type_ids_sequential:
  assumes "LReg t \<notin> set before" "ids_used {} (before @ LReg t # after) \<le> 2 ^ 32"
  shows "let C = registry tags (before @ LReg t # after); i = of_nat (ids_used {} before) in
      bm_GetKey (registeredTypes C) t = Some i \<and> bm_GetValue (registeredTypes C) i = Some t
      \<and> RegisterType t C = (Some EDuplicateType, C)"
proof -
  let ?seen = "{u. LReg u \<in> set before}" and ?C0 = "foldl lc_exec (lc_New tags) before"
  have used: "ids_used {} (before @ LReg t # after) = Suc (ids_used {} before + ids_used (insert t ?seen) after)"
    using assms(1) by (simp add: ids_used_append)
  have s: "numbered (ids_used {} before) ?seen ?C0" using ids_keep [OF numbered_start [of tags], of before] assms(2) used by simp
  have new: "t \<notin> ?seen" "ids_used {} before < 2 ^ 32" using assms used by auto
  note nw = numbered_new [OF s new]
  have "Suc (ids_used {} before) + ids_used (insert t ?seen) after \<le> 2 ^ 32" using assms(2) used by simp
  moreover have "valueToKey (registeredTypes (lc_exec ?C0 (LReg t))) t = Some (of_nat (ids_used {} before))" unfolding nw(2) by simp
  ultimately have k: "valueToKey (registeredTypes (registry tags (before @ LReg t # after))) t = Some (of_nat (ids_used {} before))"
    using ids_keep [OF nw(1)] by (simp add: registry_def)
  then show ?thesis using bm_invD [OF registry_inv, of tags "before @ LReg t # after"]
    by (simp add: Let_def bm_GetKey_def bm_GetValue_def RegisterType_def bm_HasValue_def)
qed

lemma type_ids_sequential_witness:
  "let C = registry [''serialize''] [LReg TBool, LSkip 2, LReg TUint8, LReg TBool]; i = of_nat (ids_used {} [LReg TBool, LSkip 2]) in
      bm_GetKey (registeredTypes C) TUint8 = Some i \<and> bm_GetValue (registeredTypes C) i = Some TUint8
      \<and> RegisterType TUint8 C = (Some EDuplicateType, C)"
  using type_ids_sequential [of TUint8 "[LReg TBool, LSkip 2]" "[LReg TBool]" "[''serialize'']"] by simp

text \<open>The field cache answers as if every struct type were inspected anew.\<close>

definition sf_inv :: "structFielder \<Rightarrow> bool" where
  "sf_inv s \<longleftrightarrow> (\<forall>n fs is. serializedFieldIndices s (TStruct n fs) = Some is \<longrightarrow> serialized_fields (sfTags s) 0 fs = Inr is)"

lemma fielder_cache_transparent:
  "sf_inv s \<Longrightarrow> fst (GetSerializedFields s n fs) = serialized_fields (sfTags s) 0 fs \<and> sf_inv (snd (GetSerializedFields s n fs))"
  by (auto simp: sf_inv_def GetSerializedFields_def getCachedSerializedFields_def split: option.splits sum.splits)

lemma fielder_new: "sf_inv (NewStructFielder tags)"
  by (simp add: sf_inv_def NewStructFielder_def)

subsection \<open>The manager\<close>

definition version_bytes :: bytes where
  "version_bytes = be_put 2 (0 :: uint16)"

lemma length_version [simp]: "length version_bytes = 2"
  by (simp add: version_bytes_def)

lemma overwrite_start: "overwrite [] 0 e = e"
  by (simp add: overwrite_def)

lemma cm_Marshal_writes:
  assumes "conf impl t v" "0 \<le> cmMaxSize m"
  shows "case enc (cmCodec m) {} t v of
      Some e \<Rightarrow> (if 2 + int (length e) \<le> cmMaxSize m then cm_Marshal g m (Some (t, v)) = Some (version_bytes @ e, None)
                 else \<exists>bs err. cm_Marshal g m (Some (t, v)) = Some (bs, Some err))
    | None \<Rightarrow> \<exists>bs err. cm_Marshal g m (Some (t, v)) = Some (bs, Some err)"
proof -
  let ?p = "\<lparr>Err = None, MaxSize = cmMaxSize m, Bytes = [], Spare = replicate 128 0, Offset = 0\<rparr>"
  let ?run = "andthen (packed (pack_raw g version_bytes)) (marshal g (cmCodec m) {} t v) ?p"
  have w: "writes (andthen (packed (pack_raw g version_bytes)) (marshal g (cmCodec m) {} t v)) (seq_enc (Some version_bytes) (enc (cmCodec m) {} t v))"
    by (intro writes_andthen writes_raw marshal_writes [OF assms(1)])
  have p: "pok ?p" using assms(2) by (simp add: pok_def)
  have mar: "cm_Marshal g m (Some (t, v)) = (case ?run of None \<Rightarrow> None
      | Some (None, q) \<Rightarrow> Some (Bytes q, None) | Some (Some e, q) \<Rightarrow> Some (if \<exists>q. pack_raw g version_bytes ?p = Some q \<and> Errored q then ([], Some ECantPackVersion) else (Bytes q, Some e)))"
    by (auto simp: cm_Marshal_def PackShort_def version_bytes_def MarshalInto_def packed_def andthen_def Errored_def split: option.splits)
  show ?thesis
  proof (cases "\<exists>e. enc (cmCodec m) {} t v = Some e \<and> 2 + int (length e) \<le> cmMaxSize m")
    case True
    then obtain e where e: "enc (cmCodec m) {} t v = Some e" "2 + int (length e) \<le> cmMaxSize m" by blast
    then obtain q where "?run = Some (None, q)" "wrote (version_bytes @ e) ?p q"
      using writes_ok [of _ "version_bytes @ e" ?p] w p by (auto simp: seq_enc_def)
    with e mar show ?thesis by (simp add: wrote_def overwrite_start)
  next
    case False
    then have "\<exists>e q. ?run = Some (Some e, q)" using p by (intro writes_fail [OF w]) (auto simp: seq_enc_def)
    with False mar show ?thesis by (auto split: option.splits)
  qed
qed

text \<open>
  C16. \<open>Marshal\<close> writes the reference encoding. For every typed value the manager returns the two version bytes
  and the encoding of the value exactly when the value has an encoding and both fit into \<open>maxSize\<close>, and otherwise an
  error; it never panics, whatever capacities the allocator chooses. In particular the two passes over map keys,
  which overwrite what the first pass wrote, leave no trace.
\<close>

theorem marshal_exact:
  assumes "conf impl t v" "0 \<le> cmMaxSize m"
  shows "\<exists>bs err. cm_Marshal g m (Some (t, v)) = Some (bs, err)
    \<and> (err = None \<longleftrightarrow> (\<exists>e. enc (cmCodec m) {} t v = Some e \<and> 2 + int (length e) \<le> cmMaxSize m))
    \<and> (err = None \<longrightarrow> bs = version_bytes @ the (enc (cmCodec m) {} t v))"
  using cm_Marshal_writes [OF assms, of g] by (auto split: option.splits if_splits)

subsection \<open>An example\<close>

text \<open>A transaction with a field that is not serialized, a map, a payload behind an interface, and bytes.\<close>

definition tagged :: "gty \<Rightarrow> gfield" where
  "tagged t = Field [(''serialize'', ''true'')] True t"

definition pay_t :: gty where
  "pay_t = TStruct ''Pay'' [tagged TInt64, tagged (TPtr TBool)]"

definition tx_t :: gty where
  "tx_t = TStruct ''Tx'' [tagged TUint32, Field [] True TBool, tagged (TMap TUint16 TString), tagged (TInterface ''Op''), tagged (TSlice TUint8), tagged (TArray 2 TUint16)]"

definition tx_codec :: linearCodec where
  "tx_codec = registry [''serialize''] [LSkip 1, LReg TBool, LReg pay_t]"

definition tx_manager :: codec_manager where
  "tx_manager = codec_NewManager 100 tx_codec"

definition tx_impl :: "gty \<Rightarrow> string \<Rightarrow> bool" where
  "tx_impl t i \<longleftrightarrow> t = pay_t \<and> i = ''Op''"

definition tx_v :: gval where
  "tx_v = VStruct [VUint32 258, VBool True, VMap [(VUint16 9, VString [66]), (VUint16 3, VString [])],
     VInterface (Some (pay_t, VStruct [VInt64 5, VPtr (Some (VBool True))])), VSlice [VUint8 7, VUint8 8], VArray [VUint16 1, VUint16 2]]"

definition tx_bytes :: bytes where
  "tx_bytes = [0, 0, 1, 2, 0, 0, 0, 2, 0, 3, 0, 0, 0, 9, 0, 1, 66, 0, 0, 0, 2, 0, 0, 0, 0, 0, 0, 0, 5, 1, 0, 0, 0, 2, 7, 8, 0, 1, 0, 2]"

definition tx_read :: gval where
  "tx_read = VStruct [VUint32 258, VBool False, VMap [(VUint16 3, VString []), (VUint16 9, VString [66])],
     VInterface (Some (pay_t, VStruct [VInt64 5, VPtr (Some (VBool True))])), VSlice [VUint8 7, VUint8 8], VArray [VUint16 1, VUint16 2]]"

text \<open>Length limits are compared as integers when the encoding is computed.\<close>

lemma slice_enc_code [code]:
  "slice_enc rs = (if int (length rs) > 2147483647 then None
     else map_option (\<lambda>es. be_put 4 (of_nat (length rs) :: uint32) @ concat es) (those (map nonempty rs)))"
  by (simp add: slice_enc_def MaxInt32_def)

lemma map_enc_code [code]:
  "map_enc rs = (if int (length rs) > 2147483647 then None
     else Option.bind (those (map fst rs)) (\<lambda>ks. map_option (\<lambda>es. be_put 4 (of_nat (length rs) :: uint32) @ concat es)
       (those (map (\<lambda>(k, r). nonempty (map_option ((@) k) r)) (sort_key fst (zip ks (map snd rs)))))))"
  by (simp add: map_enc_def MaxInt32_def)

lemma string_limit [code]: "scalar_enc (VString s) = (if int (length s) > 65535 then None else Some (be_put 2 (of_nat (length s) :: uint16) @ s))"
  by (simp add: scalar_enc_def MaxStringLen_def)

lemma scalar_enc_code [code]:
  "scalar_enc (VUint8 b) = Some [b]" "scalar_enc (VInt8 b) = Some [b]" "scalar_enc (VUint16 h) = Some (be_put 2 h)" "scalar_enc (VInt16 h) = Some (be_put 2 h)"
  "scalar_enc (VUint32 w) = Some (be_put 4 w)" "scalar_enc (VInt32 w) = Some (be_put 4 w)" "scalar_enc (VUint64 x) = Some (be_put 8 x)"
  "scalar_enc (VInt64 x) = Some (be_put 8 x)" "scalar_enc (VBool y) = Some [if y then 1 else 0]" "scalar_enc (VPtr r) = None"
  "scalar_enc (VInterface i) = None" "scalar_enc (VSlice vs) = None" "scalar_enc (VArray vs) = None" "scalar_enc (VStruct vs) = None"
  "scalar_enc (VMap kvs) = None" "scalar_enc VOther = None"
  by (simp_all add: scalar_enc_def)

lemma tx_conf: "conf tx_impl tx_t tx_v"
  by code_simp

lemma tx_keys: "keys_ok tx_codec {} tx_t tx_v"
  by code_simp

lemma tx_enc: "enc tx_codec {} tx_t tx_v = Some tx_bytes"
  by code_simp

lemma tx_canon: "canon tx_codec {} tx_t (zero_val tx_t) tx_v = tx_read"
  by code_simp

lemma tx_manager_simps: "cmCodec tx_manager = tx_codec" "cmMaxSize tx_manager = 100"
  by (simp_all add: tx_manager_def codec_NewManager_def)

lemma tx_marshal: "cm_Marshal g tx_manager (Some (tx_t, tx_v)) = Some (version_bytes @ tx_bytes, None)"
  using cm_Marshal_writes [OF tx_conf, of tx_manager g] by (simp add: tx_manager_simps tx_enc tx_bytes_def)

theorem marshal_exact_witness:
  "\<exists>bs err. cm_Marshal (\<lambda>_ _. 0) tx_manager (Some (tx_t, tx_v)) = Some (bs, err) \<and> err = None \<and> bs = version_bytes @ tx_bytes"
  using marshal_exact [OF tx_conf, of tx_manager "\<lambda>_ _. 0"] by (auto simp: tx_manager_simps tx_enc tx_bytes_def)

lemma marshal_success:
  assumes "conf impl t v" "cm_Marshal g m (Some (t, v)) = Some (bs, None)"
  shows "\<exists>e. enc (cmCodec m) {} t v = Some e \<and> bs = version_bytes @ e \<and> int (length bs) \<le> cmMaxSize m"
proof -
  have "0 \<le> cmMaxSize m"
  proof (rule ccontr)
    assume "\<not> 0 \<le> cmMaxSize m"
    then have "cm_Marshal g m (Some (t, v)) = Some ([], Some ECantPackVersion)"
      by (simp add: cm_Marshal_def PackShort_def pack_raw_def expand_def Let_def Errored_def)
    with assms(2) show False by simp
  qed
  from cm_Marshal_writes [OF assms(1) this, of g] assms(2) show ?thesis by (auto split: option.splits if_splits)
qed

text \<open>
  C20. \<open>Size\<close> predicts \<open>Marshal\<close>: whenever marshalling a typed value succeeds, \<open>Size\<close> returns exactly the number of bytes
  it produces, although it measures only the first element of slices, arrays and maps of constant-size types.
\<close>

theorem size_exact:
  assumes "conf impl t v" "cm_Marshal g m (Some (t, v)) = Some (bs, None)"
  shows "cm_Size m (Some (t, v)) = Inr (length bs)"
proof -
  obtain e where e: "enc (cmCodec m) {} t v = Some e" "bs = version_bytes @ e" using marshal_success [OF assms] by blast
  from sizedD [OF size_is_length [OF assms(1) e(1)]] e(2) show ?thesis by (auto simp: cm_Size_def codec_Size_def res_bind_def)
qed

theorem size_exact_witness: "cm_Size tx_manager (Some (tx_t, tx_v)) = Inr 42"
  using size_exact [OF tx_conf tx_marshal [of "\<lambda>_ _. 0"]] by (simp add: tx_bytes_def)

lemma version_read:
  assumes "2 \<le> length bs"
  shows "UnpackShort \<lparr>Err = None, MaxSize = 0, Bytes = bs, Spare = [], Offset = 0\<rparr>
    = (be_get (take 2 bs), \<lparr>Err = None, MaxSize = 0, Bytes = bs, Spare = [], Offset = 2\<rparr>)"
  using assms by (simp add: UnpackShort_def unpack_word_def unpack_raw_def checkSpace_def Errored_def read_at_def Let_def)

abbreviation input :: "bytes \<Rightarrow> packer" where
  "input bs \<equiv> \<lparr>Err = None, MaxSize = 0, Bytes = bs, Spare = [], Offset = 2\<rparr>"

lemma cm_Unmarshal_reads:
  "cm_Unmarshal impl m bs (Some (TPtr t, VPtr (Some d))) = Inr v \<longleftrightarrow>
     int (length bs) \<le> cmMaxSize m \<and> 2 \<le> length bs
     \<and> (\<exists>q. unmarshal impl (cmCodec m) {} t d (input bs) = (Inr v, q) \<and> Offset q = int (length bs))"
proof (cases "2 \<le> length bs")
  case True
  then show ?thesis
    by (auto simp: cm_Unmarshal_def version_read UnmarshalFrom_def Errored_def simp del: unmarshal.simps split: prod.splits sum.splits if_splits)
next
  case False
  then have "Err (snd (UnpackShort \<lparr>Err = None, MaxSize = 0, Bytes = bs, Spare = [], Offset = 0\<rparr>)) \<noteq> None"
    by (simp add: UnpackShort_def unpack_word_def unpack_raw_def checkSpace_def AddErr_def Errored_def Let_def)
  with False show ?thesis by (auto simp: cm_Unmarshal_def Errored_def split: prod.splits)
qed

lemma unmarshal_encoding:
  assumes "cmCodec m = registry tags ops" "conf impl t v" "conf impl t d" "keys_ok (cmCodec m) {} t v"
    and e: "enc (cmCodec m) {} t v = Some e" "2 + int (length e) \<le> cmMaxSize m"
  shows "cm_Unmarshal impl m (version_bytes @ e) (Some (TPtr t, VPtr (Some d))) = Inr (canon (cmCodec m) {} t d v)"
proof -
  have "bm_inv (registeredTypes (cmCodec m))" using registry_inv assms(1) by simp
  note y = unmarshal_yields [OF this assms(2,3,4) e(1)]
  show ?thesis unfolding cm_Unmarshal_reads
    using yieldsD [OF y, of "input (version_bytes @ e)" "[]"] e(2) by (simp add: uok_def)
qed

text \<open>
  C13. Unmarshalling inverts marshalling. For a codec with any sequence of registrations and a typed value whose maps have
  no two keys with the same encoding: the bytes \<open>Marshal\<close> returned are accepted by \<open>Unmarshal\<close> of the same
  manager, and the destination then holds the value, with the fields that are not serialized as they were.
\<close>

theorem codec_roundtrip:
  assumes "cmCodec m = registry tags ops" "conf impl t v" "conf impl t d" "keys_ok (cmCodec m) {} t v"
    and "cm_Marshal g m (Some (t, v)) = Some (bs, None)"
  shows "cm_Unmarshal impl m bs (Some (TPtr t, VPtr (Some d))) = Inr (canon (cmCodec m) {} t d v)"
proof -
  obtain e where e: "enc (cmCodec m) {} t v = Some e" "bs = version_bytes @ e" "int (length bs) \<le> cmMaxSize m"
    using marshal_success [OF assms(2,5)] by blast
  then show ?thesis using unmarshal_encoding [OF assms(1-4) e(1)] by simp
qed

theorem codec_roundtrip_witness:
  "cm_Unmarshal tx_impl tx_manager (version_bytes @ tx_bytes) (Some (TPtr tx_t, VPtr (Some (zero_val tx_t)))) = Inr tx_read"
  using codec_roundtrip [OF _ tx_conf conf_zero _ tx_marshal [of "\<lambda>_ _. 0"]] tx_keys tx_canon
  by (simp add: tx_manager_simps tx_codec_def)

lemma decoded:
  assumes "cmCodec m = registry tags ops" "cm_Unmarshal impl m bs (Some (TPtr t, VPtr (Some d))) = Inr v"
  shows "enc (cmCodec m) {} t v = Some (drop 2 bs) \<and> (conf impl t d \<longrightarrow> conf impl t v) \<and> 2 \<le> length bs \<and> int (length bs) \<le> cmMaxSize m"
proof -
  from assms(2) obtain q where q: "unmarshal impl (cmCodec m) {} t d (input bs) = (Inr v, q)" "Offset q = int (length bs)" "2 \<le> length bs" "int (length bs) \<le> cmMaxSize m"
    unfolding cm_Unmarshal_reads by blast
  have "uok (input bs)" "bm_inv (registeredTypes (cmCodec m))" using q(3) registry_inv assms(1) by (simp_all add: uok_def)
  from readsD [OF unmarshal_reads [OF this(2)] this(1) q(1)] obtain b where b: "got b (input bs) q" "decodes impl (cmCodec m) {} t d v b" by blast
  then obtain rest where r: "drop 2 bs = b @ rest" "length b + 2 = length bs" using q(2) by (auto simp: got_def)
  from arg_cong [OF r(1), of length] r(2) have "length rest = 0" unfolding length_drop length_append by arith
  with r(1) have "drop 2 bs = b" by simp
  with b(2) q(3,4) show ?thesis by (simp add: decodes_def)
qed

text \<open>
  C14. The codec has one encoding per value. Whatever bytes \<open>Unmarshal\<close> accepts into a typed destination, marshalling the result
  succeeds and returns the same bytes after the two version bytes: no other byte of an accepted input is free, not the
  order of map keys, not the byte of a bool, not a type id, and no trailing byte is left.
\<close>

theorem unmarshal_canonical:
  assumes "cmCodec m = registry tags ops" "conf impl t d"
    and "cm_Unmarshal impl m bs (Some (TPtr t, VPtr (Some d))) = Inr v"
  shows "cm_Marshal g m (Some (t, v)) = Some (version_bytes @ drop 2 bs, None)"
proof -
  have d: "enc (cmCodec m) {} t v = Some (drop 2 bs)" "conf impl t v" "2 \<le> length bs" "int (length bs) \<le> cmMaxSize m"
    using decoded [OF assms(1,3)] assms(2) by auto
  then have "0 \<le> cmMaxSize m" "2 + int (length (drop 2 bs)) \<le> cmMaxSize m" by auto
  then show ?thesis using cm_Marshal_writes [OF d(2), of m g] d(1) by simp
qed

lemma tx_run:
  "unmarshal tx_impl tx_codec {} tx_t (zero_val tx_t) (input (version_bytes @ tx_bytes))
     = (Inr tx_read, (input (version_bytes @ tx_bytes))\<lparr>Offset := 2 + int (length tx_bytes)\<rparr>)"
proof -
  have i: "bm_inv (registeredTypes tx_codec)" using registry_inv by (simp add: tx_codec_def)
  show ?thesis
    using yieldsD [OF unmarshal_yields [OF i tx_conf conf_zero tx_keys tx_enc], of "input (version_bytes @ tx_bytes)" "[]"] tx_canon
    by (simp add: uok_def)
qed

lemma tx_unmarshal:
  "cm_Unmarshal tx_impl tx_manager (version_bytes @ tx_bytes) (Some (TPtr tx_t, VPtr (Some (zero_val tx_t)))) = Inr tx_read"
  unfolding cm_Unmarshal_reads tx_manager_simps tx_run by (simp add: tx_bytes_def)

theorem unmarshal_canonical_witness:
  "cm_Marshal (\<lambda>_ _. 0) tx_manager (Some (tx_t, tx_read)) = Some (version_bytes @ tx_bytes, None)"
  using unmarshal_canonical [OF _ conf_zero tx_unmarshal, of "[''serialize'']" "[LSkip 1, LReg TBool, LReg pay_t]" "\<lambda>_ _. 0"]
  by (simp add: tx_manager_simps tx_codec_def)

text \<open>The version is read but not compared with the one \<open>Marshal\<close> writes.\<close>

lemma version_unchecked:
  "3 \<le> cmMaxSize m \<Longrightarrow> cm_Unmarshal impl m [x, y, 1] (Some (TPtr TBool, VPtr (Some d))) = Inr (VBool True)"
  using yieldsD [OF yields_bool [of True], of "input [x, y, 1]" "[]"]
  unfolding cm_Unmarshal_reads by (simp add: uok_def scalar_read_def)

text \<open>
  C15. Unmarshalling is type safe. From any input, at any offset inside it, and into a destination of the type, \<open>unmarshal\<close> either
  returns a value of that type, in which every interface holds a registered type that implements it, and
  advances the offset by the length of its encoding; or it returns an error, with the input unchanged and the
  offset still inside it.
\<close>

theorem unmarshal_type_safe:
  assumes "C = registry tags ops" "conf impl t d" "uok p"
  shows "case unmarshal impl C S t d p of
      (Inr v, q) \<Rightarrow> conf impl t v \<and> (\<exists>b. enc C S t v = Some b \<and> Offset q = Offset p + int (length b)) \<and> Bytes q = Bytes p \<and> uok q
    | (Inl e, q) \<Rightarrow> Bytes q = Bytes p \<and> Offset p \<le> Offset q \<and> Offset q \<le> int (length (Bytes p))"
proof -
  have i: "bm_inv (registeredTypes C)" using registry_inv assms(1) by simp
  note r = unmarshal_reads [OF i, of impl S t d]
  obtain x q where x: "unmarshal impl C S t d p = (x, q)" by fastforce
  show ?thesis
  proof (cases x)
    case (Inl e)
    then show ?thesis using readsE [OF r assms(3), of e q] x by (simp add: kept_def del: unmarshal.simps)
  next
    case (Inr v)
    then obtain b where b: "got b p q" "decodes impl C S t d v b" using readsD [OF r assms(3)] x by blast
    then show ?thesis using Inr x assms(2) got_uok [OF assms(3) b(1)] by (auto simp: decodes_def got_def simp del: unmarshal.simps)
  qed
qed
theorem unmarshal_type_safe_witness:
  "conf tx_impl tx_t tx_read \<and> enc tx_codec {} tx_t tx_read = Some tx_bytes"
proof -
  have "uok (input (version_bytes @ tx_bytes))" by (simp add: uok_def)
  from unmarshal_type_safe [OF tx_codec_def conf_zero this, where impl = tx_impl and S = "{}" and t = tx_t]
  have "conf tx_impl tx_t tx_read" unfolding tx_run by simp
  moreover have "enc tx_codec {} tx_t tx_read = Some tx_bytes" by code_simp
  ultimately show ?thesis by simp
qed

subsection \<open>Declared lengths\<close>

definition remaining :: "packer \<Rightarrow> nat" where
  "remaining p = nat (int (length (Bytes p)) - Offset p)"

lemma got_remaining: "\<lbrakk>uok p; got b p q\<rbrakk> \<Longrightarrow> remaining q + length b = remaining p"
  using got_uok [of p b q] by (auto simp: got_def remaining_def uok_def)

lemma repeat_cutoff:
  assumes "reads f P" "uok p" "remaining p < n" "remaining p < k"
  shows "u_repeat n (u_nonempty f) p = u_repeat k (u_nonempty f) p \<and> isl (fst (u_repeat n (u_nonempty f) p))"
  using assms(2-4)
proof (induction "remaining p" arbitrary: p n k rule: less_induct)
  case less
  obtain n' k' where nk: "n = Suc n'" "k = Suc k'" using less.prems(2,3) by (cases n; cases k) simp_all
  show ?case
  proof (cases "u_nonempty f p")
    case (Pair x q)
    show ?thesis
    proof (cases x)
      case (Inl e)
      with Pair nk show ?thesis by (simp add: u_bind_def)
    next
      case (Inr v)
      then obtain b where b: "got b p q" "b \<noteq> []" using readsD [OF reads_nonempty [OF assms(1)] less.prems(1)] Pair by blast
      have r: "remaining q < remaining p" using got_remaining [OF less.prems(1) b(1)] b(2) by (cases b) auto
      have IH: "u_repeat n' (u_nonempty f) q = u_repeat k' (u_nonempty f) q \<and> isl (fst (u_repeat n' (u_nonempty f) q))"
        by (rule less.hyps [OF r got_uok [OF less.prems(1) b(1)]]) (use r less.prems(2,3) nk in simp_all)
      obtain y s where y: "u_repeat k' (u_nonempty f) q = (y, s)" by (cases "u_repeat k' (u_nonempty f) q")
      with IH obtain e where "y = Inl e" by (cases y) auto
      with y IH show ?thesis by (simp add: nk u_bind_def Pair Inr)
    qed
  qed
qed

lemma entries_cutoff:
  assumes "reads fk P" "reads fe Q" "uok p" "remaining p < n" "remaining p < k"
  shows "u_entries n fk fe prev m p = u_entries k fk fe prev m p \<and> isl (fst (u_entries n fk fe prev m p))"
  using assms(3-5)
proof (induction "remaining p" arbitrary: p n k prev m rule: less_induct)
  case less
  obtain n' k' where nk: "n = Suc n'" "k = Suc k'" using less.prems(2,3) by (cases n; cases k) simp_all
  obtain x u where x: "fk p = (x, u)" by fastforce
  show ?case
  proof (cases x)
    case (Inl e)
    with x nk show ?thesis by simp
  next
    case (Inr key)
    then obtain a where a: "got a p u" using readsD [OF assms(1) less.prems(1)] x by blast
    note u = got_uok [OF less.prems(1) a]
    obtain y r where y: "fe u = (y, r)" by fastforce
    show ?thesis
    proof (cases y)
      case (Inl e)
      with x y nk \<open>x = Inr key\<close> show ?thesis by (simp add: Let_def)
    next
      case v: (Inr v)
      then obtain b where b: "got b u r" using readsD [OF assms(2) u] y by blast
      have rem: "remaining r + length a + length b = remaining p" using got_remaining [OF less.prems(1) a] got_remaining [OF u b] by simp
      have "Offset p = Offset r \<longleftrightarrow> a @ b = []" by (rule got_moved [OF got_append [OF less.prems(1) a b]])
      then have off: "Offset p \<noteq> Offset r \<Longrightarrow> length a + length b \<noteq> 0" by auto
      have IH: "u_entries n' fk fe prev' m' r = u_entries k' fk fe prev' m' r \<and> isl (fst (u_entries n' fk fe prev' m' r))"
        if "Offset p \<noteq> Offset r" for prev' m'
      proof (rule less.hyps [OF _ got_uok [OF u b]])
        show "remaining r < remaining p" "remaining r < n'" "remaining r < k'" using off [OF that] rem less.prems(2,3) nk by arith+
      qed
      then have "isl (fst (u_entries k' fk fe prev' m' r))" if "Offset p \<noteq> Offset r" for prev' m' using that by metis
      with IH show ?thesis using x y nk Inr v by (simp add: Let_def)
    qed
  qed
qed

text \<open>
  C21. A declared length costs nothing. Reading slice elements or map entries with a declared count beyond the
  number of remaining bytes fails, and does so in the same way for every such count: the loop stops after at
  most as many elements as there are bytes, so a forged length of two billion behaves as one of the input's size.
\<close>

theorem declared_length_bounded:
  assumes "C = registry tags ops" "uok p" "remaining p < n"
  shows "(let f = u_nonempty (unmarshal impl C S t d) in
      u_repeat n f p = u_repeat (Suc (remaining p)) f p \<and> isl (fst (u_repeat n f p)))
    \<and> (let fk = unmarshal impl C S kt (zero_val kt); fe = unmarshal impl C S et (zero_val et) in
      u_entries n fk fe prev es p = u_entries (Suc (remaining p)) fk fe prev es p \<and> isl (fst (u_entries n fk fe prev es p)))"
proof -
  have i: "bm_inv (registeredTypes C)" using registry_inv assms(1) by simp
  show ?thesis unfolding Let_def
    using repeat_cutoff [OF unmarshal_reads [OF i] assms(2,3) lessI]
      entries_cutoff [OF unmarshal_reads [OF i] unmarshal_reads [OF i] assms(2,3) lessI] by blast
qed

theorem declared_length_bounded_witness:
  "isl (fst (u_repeat 2147483647 (u_nonempty (unmarshal tx_impl tx_codec {} TUint16 (VUint16 0))) (input [0, 0, 1, 2, 3])))"
proof -
  have "uok (input [0, 0, 1, 2, 3])" "remaining (input [0, 0, 1, 2, 3]) < 2147483647" by (simp_all add: uok_def remaining_def)
  from declared_length_bounded [OF tx_codec_def this, where impl = tx_impl and S = "{}" and t = TUint16 and d = "VUint16 0"]
  show ?thesis unfolding Let_def by blast
qed
subsection \<open>Iteration order of maps\<close>

lemma sort_key_same:
  assumes "mset xs = mset ys" "distinct (map f xs)"
  shows "sort_key f xs = sort_key f ys"
proof (rule sort_key_inj_key_eq)
  show "mset xs = mset (sort_key f ys)" using assms(1) by simp
  show "inj_on f (set xs)" using assms(2) by (simp add: distinct_map)
qed simp

lemma map_enc_sort:
  assumes "\<And>x. x \<in> set kvs \<Longrightarrow> fk x = Some (kb x)"
  shows "map_enc (map (\<lambda>x. (fk x, fe x)) kvs) = (if length kvs > MaxInt32 then None
    else map_option (\<lambda>es. be_put 4 (of_nat (length kvs) :: uint32) @ concat es)
      (those (map (\<lambda>x. entry_enc (kb x, fe x)) (sort_key kb kvs))))"
proof -
  have k: "those (map fst (map (\<lambda>x. (fk x, fe x)) kvs)) = Some (map kb kvs)" using assms by (simp add: comp_def those_Some)
  have "zip (map kb kvs) (map snd (map (\<lambda>x. (fk x, fe x)) kvs)) = map (\<lambda>x. (kb x, fe x)) kvs"
    by (simp add: zip_map1 zip_map2 zip_same_conv_map)
  then have "sort_key fst (zip (map kb kvs) (map snd (map (\<lambda>x. (fk x, fe x)) kvs))) = map (\<lambda>x. (kb x, fe x)) (sort_key kb kvs)"
    using map_sort_key [of "\<lambda>x. (kb x, fe x)" fst kvs] by simp
  then show ?thesis unfolding map_enc_def k by (simp add: comp_def)
qed

lemma enc_map_order:
  assumes "mset kvs = mset kvs'" "distinct (map (\<lambda>x. enc C S kt (fst x)) kvs)" "enc C S (TMap kt et) (VMap kvs) = Some e"
  shows "enc C S (TMap kt et) (VMap kvs') = Some e"
proof -
  let ?fk = "\<lambda>x. enc C S kt (fst x)" and ?fe = "\<lambda>x. enc C S et (snd x)"
  let ?kb = "\<lambda>x. the (?fk x)"
  have e: "map_enc (map (\<lambda>x. (?fk x, ?fe x)) kvs) = Some e" using assms(3) by (simp add: case_prod_unfold)
  have all: "?fk x = Some (?kb x)" if "x \<in> set kvs" for x using map_enc_sorted [OF e] that by (simp add: Let_def)
  have sets: "set kvs' = set kvs" "length kvs' = length kvs" using mset_eq_setD [OF assms(1)] mset_eq_length [OF assms(1)] by simp_all
  then have all': "?fk x = Some (?kb x)" if "x \<in> set kvs'" for x using all that by simp
  have some: "map ?fk kvs = map Some (map ?kb kvs)" using all by simp
  have "distinct (map ?kb kvs)" by (rule distinct_of_map [OF assms(2) [unfolded some]])
  then have srt: "sort_key ?kb kvs = sort_key ?kb kvs'" by (rule sort_key_same [OF assms(1)])
  have "map_enc (map (\<lambda>x. (?fk x, ?fe x)) kvs') = map_enc (map (\<lambda>x. (?fk x, ?fe x)) kvs)"
    by (simp only: map_enc_sort [of kvs ?fk ?kb ?fe, OF all] map_enc_sort [of kvs' ?fk ?kb ?fe, OF all'] srt sets(2))
  then show ?thesis using e by (simp add: case_prod_unfold)
qed

text \<open>
  C22. Go's random map order does not reach the wire. If marshalling a map whose keys have different encodings succeeds with
  the entries visited in one order, it succeeds with them visited in any other order, at any place in any
  buffer, and leaves the same bytes.
\<close>

theorem map_order_irrelevant:
  assumes "conf impl (TMap kt et) (VMap kvs)" "keys_ok C S (TMap kt et) (VMap kvs)" "mset kvs = mset kvs'" "pok p"
    and "marshal g C S (TMap kt et) (VMap kvs) p = Some (None, q)"
  shows "\<exists>q'. marshal g' C S (TMap kt et) (VMap kvs') p = Some (None, q') \<and> Bytes q' = Bytes q \<and> Offset q' = Offset q"
proof -
  have sets: "set kvs' = set kvs" using mset_eq_setD [OF assms(3)] by simp
  have "mset (map fst kvs') = mset (map fst kvs)" using assms(3) by simp
  then have "distinct (map fst kvs')" using assms(1) mset_eq_imp_distinct_iff by fastforce
  then have c': "conf impl (TMap kt et) (VMap kvs')" using assms(1) sets by simp
  note w = marshal_writes [OF assms(1), of g C S] and w' = marshal_writes [OF c', of g' C S]
  obtain e where e: "enc C S (TMap kt et) (VMap kvs) = Some e" "Offset p + int (length e) \<le> MaxSize p"
  proof (rule ccontr)
    assume "\<not> thesis"
    then have "\<And>e. enc C S (TMap kt et) (VMap kvs) = Some e \<Longrightarrow> MaxSize p < Offset p + int (length e)" using that by (meson not_le)
    from writes_fail [OF w assms(4) this] assms(5) show False by simp
  qed
  have e': "enc C S (TMap kt et) (VMap kvs') = Some e" by (rule enc_map_order [OF assms(3) _ e(1)]) (use assms(2) in simp)
  have "wrote e p q" using writes_ok [OF w [unfolded e(1)] assms(4) e(2)] assms(5) by simp
  with writes_ok [OF w' [unfolded e'] assms(4) e(2)] show ?thesis by (auto simp: wrote_def)
qed

definition two_v :: "gval \<times> gval" where
  "two_v = (VUint16 9, VBool True)"

definition one_v :: "gval \<times> gval" where
  "one_v = (VUint16 3, VBool False)"

theorem map_order_irrelevant_witness:
  "let p = \<lparr>Err = None, MaxSize = 100, Bytes = [], Spare = [], Offset = 0\<rparr>; t = TMap TUint16 TBool in
   \<exists>q q'. marshal (\<lambda>_ _. 0) tx_codec {} t (VMap [two_v, one_v]) p = Some (None, q)
     \<and> marshal (\<lambda>_ _. 5) tx_codec {} t (VMap [one_v, two_v]) p = Some (None, q') \<and> Bytes q' = Bytes q"
proof -
  let ?p = "\<lparr>Err = None, MaxSize = 100, Bytes = [], Spare = [], Offset = 0\<rparr>" and ?t = "TMap TUint16 TBool"
  have c: "conf tx_impl ?t (VMap [two_v, one_v])" by code_simp
  have k: "keys_ok tx_codec {} ?t (VMap [two_v, one_v])" by code_simp
  have e: "enc tx_codec {} ?t (VMap [two_v, one_v]) = Some [0, 0, 0, 2, 0, 3, 0, 0, 9, 1]" by code_simp
  have p: "pok ?p" by (simp add: pok_def)
  obtain q where q: "marshal (\<lambda>_ _. 0) tx_codec {} ?t (VMap [two_v, one_v]) ?p = Some (None, q)"
    using writes_ok [OF marshal_writes [OF c, of "\<lambda>_ _. 0" tx_codec "{}", unfolded e] p] by auto
  have "mset [two_v, one_v] = mset [one_v, two_v]" by (simp add: add_mset_commute)
  from map_order_irrelevant [OF c k this p q, of "\<lambda>_ _. 5"] q show ?thesis unfolding Let_def by blast
qed

end
