(* ===== verification/Validator_Codec.thy ===== *)
theory Validator_Codec
  imports Validator_Runs Codec_Claims
begin

text \<open>
  The codec of the persistent validator state (\<open>utils/evm/validators/state/codec.go\<close>): the linear codec with one registered
  type, applied to \<open>validatorData\<close>. The round trip the state relies on (\<open>codec_ok\<close>) is proved for it, so what \<open>Validator_Runs\<close>
  shows for every codec with that round trip holds for the one the program uses; the examples of those theorems follow.
\<close>

subsection \<open>The struct and its codec\<close>

text \<open>\<open>time.Duration\<close> is an \<open>int64\<close>; \<open>ids.NodeID\<close> and \<open>ids.ID\<close> are byte arrays.\<close>

definition validatorData_t :: gty where
  "validatorData_t = TStruct ''validatorData'' [tagged TInt64, tagged TUint64, tagged (TArray 20 TUint8), tagged TUint64, tagged TUint64,
     tagged TBool, tagged TBool, Field [] False (TArray 32 TUint8)]"

definition vd_val :: "validatorData \<Rightarrow> gval" where
  "vd_val d = VStruct [VInt64 (of_int (UpDuration d)), VUint64 (LastUpdated d), VArray (map VUint8 (vdNodeID d)), VUint64 (vdWeight d),
     VUint64 (vdStartTime d), VBool (vdIsActive d), VBool (vdIsL1Validator d), VArray (map VUint8 (validationID d))]"

definition val_vd :: "gval \<Rightarrow> validatorData option" where
  "val_vd v = (case v of
     VStruct [VInt64 up, VUint64 lst, VArray node, VUint64 weight, VUint64 start, VBool active, VBool l1, VArray vid] \<Rightarrow>
       Some \<lparr>UpDuration = sint up, LastUpdated = lst, vdNodeID = map val_byte node, vdWeight = weight, vdStartTime = start,
         vdIsActive = active, vdIsL1Validator = l1, validationID = map val_byte vid\<rparr>
   | _ \<Rightarrow> None)"

definition vdrCodec :: codec_manager where
  "vdrCodec = codec_NewManager (int MaxInt32) (snd (RegisterType validatorData_t NewDefault))"

text \<open>The errors of the codec are not told apart by the state; a panic is an answer of its own.\<close>

definition vdr_marshal :: "grower \<Rightarrow> marshaller" where
  "vdr_marshal g d =
     (case cm_Marshal g vdrCodec (Some (TPtr validatorData_t, VPtr (Some (vd_val d)))) of
        None \<Rightarrow> Inl 1
      | Some (bs, Some e) \<Rightarrow> Inl 0
      | Some (bs, None) \<Rightarrow> Inr bs)"

definition vdr_unmarshal :: unmarshaller where
  "vdr_unmarshal bs d =
     (case cm_Unmarshal (\<lambda>_ _. False) vdrCodec bs (Some (TPtr validatorData_t, VPtr (Some (vd_val d)))) of
        Inl e \<Rightarrow> Inl 0
      | Inr v \<Rightarrow> (case val_vd v of None \<Rightarrow> Inl 1 | Some d' \<Rightarrow> Inr d'))"

subsection \<open>The promised round trip\<close>

lemma vdrCodec_registry: "cmCodec vdrCodec = registry [''serialize''] [LReg validatorData_t]"
  by (simp add: vdrCodec_def codec_NewManager_def registry_def NewDefault_def)

lemma vdrCodec_max: "cmMaxSize vdrCodec = 2147483647"
  by (simp add: vdrCodec_def codec_NewManager_def MaxInt32_def)

lemma vdrCodec_tags: "tagNames (cmCodec vdrCodec) = [''serialize'']"
  by (simp add: vdrCodec_def codec_NewManager_def NewDefault_def lc_New_def RegisterType_def)

lemma vd_conf: "\<lbrakk>length (vdNodeID d) = 20; length (validationID d) = 32\<rbrakk> \<Longrightarrow> conf impl validatorData_t (vd_val d)"
  by (simp add: validatorData_t_def vd_val_def tagged_def)

lemma vd_keys: "keys_ok C S validatorData_t (vd_val d)"
  by (simp add: validatorData_t_def vd_val_def tagged_def)

lemma vd_fields: "serialized_fields [''serialize''] 0 [tagged TInt64, tagged TUint64, tagged (TArray 20 TUint8), tagged TUint64, tagged TUint64,
     tagged TBool, tagged TBool, Field [] False (TArray 32 TUint8)] = Inr [0, 1, 2, 3, 4, 5, 6]"
  by (simp add: tagged_def captured_def TagValue_def res_bind_def)

lemma those_bytes: "those (map (\<lambda>v. enc C S TUint8 v) (map VUint8 bs)) = Some (map (\<lambda>b. [b]) bs)"
  by (induction bs) (auto simp: scalar_enc_def)

definition vd_bytes :: "validatorData \<Rightarrow> bytes" where
  "vd_bytes d = be_put 8 (of_int (UpDuration d) :: uint64) @ be_put 8 (LastUpdated d) @ vdNodeID d @ be_put 8 (vdWeight d)
     @ be_put 8 (vdStartTime d) @ [if vdIsActive d then 1 else 0, if vdIsL1Validator d then 1 else 0]"

lemma vd_enc: "enc (cmCodec vdrCodec) S validatorData_t (vd_val d) = Some (vd_bytes d)"
  unfolding validatorData_t_def vd_val_def enc.simps gty.case vdrCodec_tags vd_fields sum.case
  by (simp add: pick_def those_bytes [simplified] vd_bytes_def tagged_def scalar_enc_def)

lemma canon_bytes: "length bs = length cs \<Longrightarrow> map (\<lambda>(v, w). canon C S TUint8 w v) (zip (map VUint8 bs) (map VUint8 cs)) = map VUint8 bs"
  by (induction bs cs rule: list_induct2) auto

lemma vd_canon:
  assumes "length (vdNodeID d) = 20" "length (vdNodeID z) = 20"
  shows "canon (cmCodec vdrCodec) S validatorData_t (vd_val z) (vd_val d) = vd_val (d\<lparr>validationID := validationID z\<rparr>)"
  unfolding validatorData_t_def vd_val_def canon.simps gty.case vdrCodec_tags vd_fields sum.case
  using assms by (simp add: tagged_def canon_bytes struct_elems_def array_elems_def numeral_eq_Suc)

lemma val_vd_val: "\<lbrakk>- (2 ^ 63) \<le> UpDuration d; UpDuration d < 2 ^ 63\<rbrakk> \<Longrightarrow> val_vd (vd_val d) = Some d"
  by (simp add: val_vd_def vd_val_def val_byte_def comp_def signed_of_int signed_take_bit_int_eq_self)

lemma vd_small: "length (vdNodeID d) = 20 \<Longrightarrow> length (vd_bytes d) = 54"
  by (simp add: vd_bytes_def)

lemma vdr_codec_init: "fst (RegisterType validatorData_t NewDefault) = None"
  by (simp add: RegisterType_def NewDefault_def lc_New_def bm_HasValue_def bm_New_def)

lemma vd_marshal: "\<lbrakk>length (vdNodeID d) = 20; length (validationID d) = 32\<rbrakk>
   \<Longrightarrow> cm_Marshal g vdrCodec (Some (TPtr validatorData_t, VPtr (Some (vd_val d)))) = Some (version_bytes @ vd_bytes d, None)"
  using cm_Marshal_writes [of "\<lambda>_ _. False" "TPtr validatorData_t" "VPtr (Some (vd_val d))" vdrCodec g]
  by (simp add: vd_conf vd_enc vd_small vdrCodec_max)

lemma vdr_codec_ok: "codec_ok (vdr_marshal g) vdr_unmarshal"
  unfolding codec_ok_def
proof (intro allI impI)
  fix d and vID :: ids_id
  assume w: "wf_data d" and k: "length vID = 32"
  note d = w [unfolded wf_data_def]
  have z: "length (vdNodeID (zero_data vID)) = 20" "validationID (zero_data vID) = vID" by (simp_all add: zero_data_def)
  have "cm_Unmarshal (\<lambda>_ _. False) vdrCodec (version_bytes @ vd_bytes d) (Some (TPtr validatorData_t, VPtr (Some (vd_val (zero_data vID)))))
      = Inr (vd_val (d\<lparr>validationID := vID\<rparr>))"
    using unmarshal_encoding [OF vdrCodec_registry vd_conf vd_conf vd_keys vd_enc] d z k vd_canon
    by (simp add: vd_small vdrCodec_max)
  then have "vdr_unmarshal (version_bytes @ vd_bytes d) (zero_data vID) = Inr (d\<lparr>validationID := vID\<rparr>)"
    using d by (simp add: vdr_unmarshal_def val_vd_val)
  moreover have "vdr_marshal g d = Inr (version_bytes @ vd_bytes d)" using d by (simp add: vdr_marshal_def vd_marshal)
  ultimately show "\<exists>bs. vdr_marshal g d = Inr bs \<and> bs \<noteq> [] \<and> vdr_unmarshal bs (zero_data vID) = Inr (d\<lparr>validationID := vID\<rparr>)"
    by (simp add: vd_bytes_def)
qed

subsection \<open>The properties at the program's own codec\<close>

abbreviation demo_marshal :: marshaller where
  "demo_marshal \<equiv> vdr_marshal (\<lambda>_ _. 0)"

theorem paused_iff_inactive_witness:
  "w_reach demo_marshal vdr_unmarshal demo_world \<and> pm_IsPaused demo_world (viNodeID demo_vdr)
    \<and> w_exec demo_now (SetStatus (viValidationID demo_vdr) True) demo_world \<noteq> None"
proof -
  have "pm_IsPaused demo_world (viNodeID demo_vdr)" by (simp add: pm_IsPaused_def demo_world_def)
  with paused_iff_inactive [OF demo_world_reach vdr_codec_ok demo_clock, of "SetStatus (viValidationID demo_vdr) True"]
    demo_world_reach show ?thesis by simp
qed

theorem disconnect_outcome_witness:
  "\<exists>w. w_reach demo_marshal vdr_unmarshal w \<and> snd (pm_Disconnect st_GetUptime st_SetUptime demo_now [7] w) = Some DbErrNotFound"
proof -
  let ?w = "pm_Connect demo_now [7] (demo_start\<lparr>inner := (inner demo_start)\<lparr>startedTracking := True\<rparr>\<rparr>)"
  have r: "w_reach demo_marshal vdr_unmarshal (demo_start\<lparr>inner := (inner demo_start)\<lparr>startedTracking := True\<rparr>\<rparr>)"
    by (rule w_reach.exec [OF demo_start_reach demo_clock _ demo_track]) simp
  have "w_reach demo_marshal vdr_unmarshal ?w"
    by (rule w_reach.exec [OF r demo_clock, of "Connect [7]"]) simp_all
  moreover from disconnect_outcome [OF this vdr_codec_ok demo_clock, of "[7]"]
  have "snd (pm_Disconnect st_GetUptime st_SetUptime demo_now [7] ?w) = Some DbErrNotFound"
    by (simp add: split_def pm_Connect_def pm_IsPaused_def um_IsConnected_def um_Connect_def demo_start_def pm_New_def
        um_New_def Let_def w_state_def st_GetValidationID_def)
  ultimately show ?thesis by blast
qed

theorem reported_uptime_bounded_witness:
  "\<exists>up last. GetValidatorAndUptime demo_now \<lparr>mlog = True, ValidatorState = True, mworld = demo_world\<rparr> (viValidationID demo_vdr)
     = Inr (demo_vdr, up, last) \<and> 0 \<le> up \<and> up \<le> last - 100 * second"
proof -
  let ?m = "\<lparr>mlog = True, ValidatorState = True, mworld = demo_world\<rparr>"
  have r: "w_reach demo_marshal vdr_unmarshal (mworld ?m)" by (simp add: demo_world_reach)
  have d: "vdata (w_state (mworld ?m)) (viValidationID demo_vdr) = Some (new_data demo_vdr)"
    by (simp add: demo_world_def w_state_def um_New_def)
  have "getStartTime (new_data demo_vdr) = 100 * second" by (simp add: getStartTime_def new_data_def demo_vdr_def)
  then show ?thesis using reported_uptime_bounded [OF r vdr_codec_ok demo_clock d] by auto
qed


theorem failed_write_forgets_witness:
  "\<exists>s. st_WriteState demo_marshal (\<lambda>_. Some ErrClosed) [viValidationID demo_vdr] (w_state demo_world) = (s, Some (ErrDB ErrClosed))
    \<and> vdata s (viValidationID demo_vdr) \<noteq> None \<and> vdb s = Map.empty \<and> st_WriteState demo_marshal (\<lambda>_. None) [] s = (s, None)"
proof -
  have "set [viValidationID demo_vdr] = dom (updatedData (w_state demo_world))"
    by (simp add: demo_world_def w_state_def um_New_def)
  with failed_write_forgets [OF demo_world_reach vdr_codec_ok, of "[viValidationID demo_vdr]" "\<lambda>_. Some ErrClosed" ErrClosed]
  show ?thesis by (force simp: demo_world_def w_state_def um_New_def)
qed


end
