(* ===== verification/Comet_Types.thy ===== *)
theory Comet_Types
  imports Slide_Prelude
begin

text \<open>
  The data the virtual machine exchanges with CometBFT, with the fields the sources use, and the CometBFT
  functions they call. CometBFT is not part of the repository: its functions are the fields of a
  record that the definitions take as an argument.
\<close>

subsection \<open>Blocks\<close>

record part_set_header =
  pshTotal :: uint32
  pshHash :: bytes

text \<open>The hash of a block id is a slice: \<open>None\<close> is nil.\<close>

record block_id =
  bidHash :: "bytes option"
  bidParts :: part_set_header

datatype block_id_flag = FlagAbsent | FlagCommit | FlagNil

record commit_sig =
  csFlag :: block_id_flag
  csAddress :: bytes
  csTime :: gotime
  csSignature :: bytes

record comet_commit =
  cmHeight :: int
  cmRound :: int
  cmBlockID :: block_id
  cmSignatures :: "commit_sig list"

record ext_commit_sig =
  ecsSig :: commit_sig
  ecsExtension :: bytes
  ecsExtensionSignature :: bytes

record ext_commit =
  ecHeight :: int
  ecRound :: int
  ecBlockID :: block_id
  ecSignatures :: "ext_commit_sig list"

record header =
  hVersionBlock :: uint64
  hVersionApp :: uint64
  hChainID :: string
  hHeight :: int
  hTime :: gotime
  hLastBlockID :: block_id
  hValidatorsHash :: bytes
  hNextValidatorsHash :: bytes
  hConsensusHash :: bytes
  hAppHash :: bytes
  hLastResultsHash :: bytes
  hProposerAddress :: bytes

text \<open>
  The last commit of a block is never nil where it is read: \<open>ValidateBasic\<close> rejects a nil one first.
  Evidence is opaque.
\<close>

record comet_block =
  bHeader :: header
  bTxs :: "bytes list"
  bEvidence :: "bytes list"
  bLastCommit :: comet_commit

abbreviation bHeight :: "comet_block \<Rightarrow> int" where "bHeight b \<equiv> hHeight (bHeader b)"
abbreviation bTime :: "comet_block \<Rightarrow> gotime" where "bTime b \<equiv> hTime (bHeader b)"
abbreviation bLastBlockID :: "comet_block \<Rightarrow> block_id" where "bLastBlockID b \<equiv> hLastBlockID (bHeader b)"

subsection \<open>State\<close>

record validator =
  valAddress :: bytes
  valPubKey :: bytes
  valPower :: int
  valPriority :: int

type_synonym valset = "validator list"

record consensus_params =
  cpBlockMaxBytes :: int
  cpBlockMaxGas :: int
  cpEvidenceMaxBytes :: int
  cpPubKeyTypes :: "string list"
  cpVersionApp :: uint64
  cpVoteExtensionsHeight :: int

record comet_state =
  sVersionBlock :: uint64
  sVersionApp :: uint64
  sSoftware :: string
  sChainID :: string
  sInitialHeight :: int
  sLastBlockHeight :: int
  sLastBlockID :: block_id
  sLastBlockTime :: gotime
  sNextValidators :: valset
  sValidators :: valset
  sLastValidators :: valset
  sLastHeightValidatorsChanged :: int
  sConsensusParams :: consensus_params
  sLastHeightParamsChanged :: int
  sLastResultsHash :: bytes
  sAppHash :: bytes

subsection \<open>Application messages\<close>

record val_update =
  vuPubKey :: bytes
  vuPower :: int

text \<open>Transaction results, events and parameter updates are opaque.\<close>

record finalize_response =
  frTxResults :: "bytes list"
  frValidatorUpdates :: "val_update list"
  frParamUpdates :: "bytes option"
  frAppHash :: bytes
  frEvents :: "bytes list"

type_synonym abci_validator = "bytes \<times> int"

record commit_info =
  ciRound :: int
  ciVotes :: "(abci_validator \<times> block_id_flag) list"

record ext_vote_info =
  evValidator :: abci_validator
  evFlag :: block_id_flag
  evExtension :: bytes
  evExtensionSignature :: bytes

record ext_commit_info =
  eciRound :: int
  eciVotes :: "ext_vote_info list"

record finalize_request =
  rqHash :: bytes
  rqNextValidatorsHash :: bytes
  rqProposerAddress :: bytes
  rqHeight :: int
  rqTime :: gotime
  rqDecidedLastCommit :: commit_info
  rqMisbehavior :: "bytes list"
  rqTxs :: "bytes list"

record prepare_request =
  pqMaxTxBytes :: int
  pqTxs :: "bytes list"
  pqLocalLastCommit :: ext_commit_info
  pqMisbehavior :: "bytes list"
  pqHeight :: int
  pqTime :: gotime
  pqNextValidatorsHash :: bytes
  pqProposerAddress :: bytes

record comet_vote =
  vtHeight :: int
  vtBlockHash :: bytes
  vtAddress :: bytes
  vtExtension :: bytes

datatype proposal_status = StatusUnknown | StatusAccept | StatusReject

text \<open>The enumerations of \<open>proto/vm\<close>; a decoded message may hold a number that is none of them.\<close>

datatype vm_status = STATUS_UNSPECIFIED | STATUS_PROCESSING | STATUS_REJECTED | STATUS_ACCEPTED | STATUS_OTHER int

datatype vm_state = STATE_UNSPECIFIED | STATE_STATE_SYNCING | STATE_BOOTSTRAPPING | STATE_NORMAL_OP | STATE_OTHER int

subsection \<open>Functions of the library\<close>

text \<open>Errors of the library are numbered. A serialised validator key, a key and a hash are bytes.
  \<open>blk_JSONLen\<close> is the length of the JSON text of a block, if it has one.\<close>

record comet =
  AddressSize :: nat
  MaxBlockSizeBytes :: int
  blk_Hash :: "comet_block \<Rightarrow> bytes"
  blk_HashesTo :: "comet_block \<Rightarrow> bytes \<Rightarrow> bool"
  blk_ValidateBasic :: "comet_block \<Rightarrow> nat option"
  blk_PartSetHeader :: "comet_block \<Rightarrow> (nat, part_set_header) go_result"
  blk_ToBytes :: "comet_block \<Rightarrow> (nat, bytes) go_result"
  blk_FromBytes :: "bytes \<Rightarrow> (nat, comet_block) go_result"
  blk_JSONLen :: "comet_block \<Rightarrow> nat option"
  json_Marshal :: "bytes \<times> vm_status \<Rightarrow> (nat, bytes) go_result"
  json_Unmarshal :: "bytes \<Rightarrow> (nat, bytes \<times> vm_status) go_result"
  bid_Equals :: "block_id \<Rightarrow> block_id \<Rightarrow> bool"
  ev_ByteSize :: "bytes list \<Rightarrow> int"
  ev_ToABCI :: "bytes list \<Rightarrow> bytes list"
  cp_Hash :: "consensus_params \<Rightarrow> bytes"
  cp_Update :: "consensus_params \<Rightarrow> bytes \<Rightarrow> consensus_params"
  cp_ValidateBasic :: "consensus_params \<Rightarrow> nat option"
  cp_ValidateUpdate :: "consensus_params \<Rightarrow> bytes \<Rightarrow> int \<Rightarrow> nat option"
  cp_VoteExtensionsEnabled :: "consensus_params \<Rightarrow> int \<Rightarrow> bool"
  vals_Hash :: "valset \<Rightarrow> bytes"
  vals_GetByAddress :: "valset \<Rightarrow> bytes \<Rightarrow> validator option"
  vals_UpdateWithChangeSet :: "valset \<Rightarrow> valset \<Rightarrow> (nat, valset) go_result"
  vals_IncrementPriority :: "valset \<Rightarrow> int \<Rightarrow> valset"
  WeightedMedian :: "(gotime \<times> int) option list \<Rightarrow> int \<Rightarrow> gotime"
  TxResultsHash :: "bytes list \<Rightarrow> bytes"
  MaxDataBytes :: "int \<Rightarrow> int \<Rightarrow> nat \<Rightarrow> int"
  MaxDataBytesNoEvidence :: "int \<Rightarrow> nat \<Rightarrow> int"
  Txs_Validate :: "bytes list \<Rightarrow> int \<Rightarrow> nat option"
  ec_ToCommit :: "ext_commit \<Rightarrow> comet_commit"
  ecs_EnsureExtension :: "ext_commit_sig \<Rightarrow> bool \<Rightarrow> nat option"
  st_MakeBlock :: "comet_state \<Rightarrow> int \<Rightarrow> bytes list \<Rightarrow> comet_commit \<Rightarrow> bytes \<Rightarrow> comet_block"
  st_Bytes :: "comet_state \<Rightarrow> bytes"
  PubKeyFromProto :: "bytes \<Rightarrow> (nat, bytes) go_result"
  pk_Type :: "bytes \<Rightarrow> string"
  IsValidPubkeyType :: "string list \<Rightarrow> string \<Rightarrow> bool"
  PB2TM_ValidatorUpdates :: "val_update list \<Rightarrow> (nat, valset) go_result"
  TM2PB_Validator :: "validator \<Rightarrow> abci_validator"

end
