(* ===== verification/VM_Types.thy ===== *)
theory VM_Types
  imports Comet_Types
begin

text \<open>
  The small packages under \<open>vm/types\<close>: the configuration (\<open>config.go\<close>), \<open>Atomic\<close>
  (\<open>atomic.go\<close>), \<open>Closer\<close> (\<open>closer/closer.go\<close>, with \<open>grpcutils/server_closer.go\<close>), \<open>ParentHash\<close> (\<open>block/block.go\<close>), \<open>MakeCommit\<close>
  (\<open>commit/commit.go\<close>), and the functions of \<open>state/utils.go\<close> and \<open>state/tx_filter.go\<close>: encoding of
  blocks, validation of a block against a state, the median time.
\<close>

subsection \<open>Configuration\<close>

record ConsensusParams =
  Block_MaxBytes :: int
  Block_MaxGas :: int
  Evidence_MaxBytes :: int

record VMConfig =
  NetworkName :: string
  TimeoutBroadcastTxCommit :: uint16
  cfgConsensusParams :: ConsensusParams
  MaxSubscriptionClients :: int
  MaxSubscriptionsPerClient :: int

datatype config_err = NetworkNameEmpty | BlockMaxBytesZero | BlockMaxBytesNegative | BlockMaxBytesTooBig
  | BlockMaxGasNegative | EvidenceMaxBytesTooBig | EvidenceMaxBytesNegative
  | MaxSubscriptionsPerClientNegative | MaxSubscriptionClientsNegative

definition SetDefaults :: "VMConfig \<Rightarrow> VMConfig" where
  "SetDefaults c = c\<lparr>NetworkName := ''landslide-test'', TimeoutBroadcastTxCommit := 30,
     cfgConsensusParams := \<lparr>Block_MaxBytes = 100 * 1024 * 1024, Block_MaxGas = 10000000, Evidence_MaxBytes = 1000\<rparr>,
     MaxSubscriptionsPerClient := 5, MaxSubscriptionClients := 100\<rparr>"

definition ConsensusParams_Validate :: "comet \<Rightarrow> ConsensusParams \<Rightarrow> config_err option" where
  "ConsensusParams_Validate L c =
     (if Block_MaxBytes c = 0 then Some BlockMaxBytesZero
      else if Block_MaxBytes c < -1 then Some BlockMaxBytesNegative
      else if Block_MaxBytes c > MaxBlockSizeBytes L then Some BlockMaxBytesTooBig
      else if Block_MaxGas c < -1 then Some BlockMaxGasNegative
      else
        let maxBytes = (if Block_MaxBytes c = -1 then MaxBlockSizeBytes L else Block_MaxBytes c) in
        if Evidence_MaxBytes c > maxBytes then Some EvidenceMaxBytesTooBig
        else if Evidence_MaxBytes c < 0 then Some EvidenceMaxBytesNegative
        else None)"

definition VMConfig_Validate :: "comet \<Rightarrow> VMConfig \<Rightarrow> config_err option" where
  "VMConfig_Validate L c =
     (if length (NetworkName c) = 0 then Some NetworkNameEmpty
      else case ConsensusParams_Validate L (cfgConsensusParams c) of
        Some e \<Rightarrow> Some e
      | None \<Rightarrow>
          if MaxSubscriptionsPerClient c < 0 then Some MaxSubscriptionsPerClientNegative
          else if MaxSubscriptionClients c < 0 then Some MaxSubscriptionClientsNegative
          else None)"

subsection \<open>Atomic and Closer\<close>

text \<open>Every method holds the lock for its whole body, so an \<open>Atomic\<close> is the value it holds.\<close>

record 'a Atomic =
  atValue :: 'a

definition NewAtomic :: "'a \<Rightarrow> 'a Atomic" where
  "NewAtomic x = \<lparr>atValue = x\<rparr>"

definition at_Get :: "'a Atomic \<Rightarrow> 'a" where
  "at_Get a = atValue a"

definition at_Set :: "'a \<Rightarrow> 'a Atomic \<Rightarrow> 'a Atomic" where
  "at_Set x a = a\<lparr>atValue := x\<rparr>"

text \<open>\<open>close\<close> is what closing a connection reports; \<open>Close\<close> joins the errors in order.\<close>

record 'c Closer =
  closers :: "'c list"

definition closer_Add :: "'c \<Rightarrow> 'c Closer \<Rightarrow> 'c Closer" where
  "closer_Add x c = c\<lparr>closers := closers c @ [x]\<rparr>"

definition closer_Close :: "('c \<Rightarrow> 'e option) \<Rightarrow> 'c Closer \<Rightarrow> 'e list \<times> 'c Closer" where
  "closer_Close close c = (List.map_filter close (closers c), c\<lparr>closers := []\<rparr>)"

text \<open>The gRPC servers of \<open>grpcutils/server_closer.go\<close>; a server is stopped by the call that returns it.\<close>

record ServerCloser =
  scClosed :: bool
  scServers :: "nat list"

definition sc_Add :: "nat \<Rightarrow> ServerCloser \<Rightarrow> nat list \<times> ServerCloser" where
  "sc_Add server s = (if scClosed s then ([server], s) else ([], s\<lparr>scServers := scServers s @ [server]\<rparr>))"

definition sc_Stop :: "ServerCloser \<Rightarrow> nat list \<times> ServerCloser" where
  "sc_Stop s = (scServers s, s\<lparr>scClosed := True, scServers := []\<rparr>)"

definition sc_GracefulStop :: "ServerCloser \<Rightarrow> nat list \<times> ServerCloser" where
  "sc_GracefulStop s = (scServers s, s\<lparr>scClosed := True, scServers := []\<rparr>)"

subsection \<open>Parent hash and commits\<close>

text \<open>Converting a slice to \<open>[32]byte\<close> panics when the slice is shorter and drops what is beyond.\<close>

definition to_array32 :: "bytes \<Rightarrow> bytes option" where
  "to_array32 bs = (if length bs < 32 then None else Some (take 32 bs))"

definition ParentHash :: "comet_block \<Rightarrow> bytes option" where
  "ParentHash b =
     (case bidHash (bLastBlockID b) of None \<Rightarrow> Some (replicate 32 0) | Some h \<Rightarrow> to_array32 h)"

definition MakeCommit :: "int \<Rightarrow> gotime \<Rightarrow> valset \<Rightarrow> block_id \<Rightarrow> comet_commit" where
  "MakeCommit height timestamp validators blockID =
     \<lparr>cmHeight = height, cmRound = 0, cmBlockID = blockID,
      cmSignatures =
        (if height > 1
         then map (\<lambda>v. \<lparr>csFlag = FlagCommit, csAddress = valAddress v, csTime = timestamp, csSignature = [0]\<rparr>) validators
         else [])\<rparr>"

subsection \<open>Encoding of blocks\<close>

definition EncodeBlock :: "comet \<Rightarrow> comet_block \<Rightarrow> (nat, bytes) go_result" where
  "EncodeBlock L b = blk_ToBytes L b"

definition DecodeBlock :: "comet \<Rightarrow> bytes \<Rightarrow> (nat, comet_block) go_result" where
  "DecodeBlock L bs = blk_FromBytes L bs"

definition EncodeBlockWithStatus :: "comet \<Rightarrow> comet_block \<Rightarrow> vm_status \<Rightarrow> (nat, bytes) go_result" where
  "EncodeBlockWithStatus L b status = res_bind (EncodeBlock L b) (\<lambda>bs. json_Marshal L (bs, status))"

definition DecodeBlockWithStatus :: "comet \<Rightarrow> bytes \<Rightarrow> (nat, comet_block \<times> vm_status) go_result" where
  "DecodeBlockWithStatus L data =
     res_bind (json_Unmarshal L data) (\<lambda>(bs, status). res_bind (DecodeBlock L bs) (\<lambda>b. Inr (b, status)))"

subsection \<open>Median time\<close>

text \<open>One entry per signature: nil for an absent vote and for an unknown validator.\<close>

definition weighted_time :: "comet \<Rightarrow> valset \<Rightarrow> commit_sig \<Rightarrow> (gotime \<times> int) option" where
  "weighted_time L vals s =
     (if csFlag s = FlagAbsent then None
      else map_option (\<lambda>v. (csTime s, valPower v)) (vals_GetByAddress L vals (csAddress s)))"

fun median_loop :: "comet \<Rightarrow> valset \<Rightarrow> commit_sig list \<Rightarrow> int \<Rightarrow> (gotime \<times> int) option list \<times> int" where
  "median_loop L vals [] acc = ([], acc)"
| "median_loop L vals (s # sigs) acc =
     (let w = weighted_time L vals s;
          acc' = (case w of None \<Rightarrow> acc | Some (t, p) \<Rightarrow> wrap64 (acc + p));
          (ws, acc'') = median_loop L vals sigs acc'
      in (w # ws, acc''))"

definition MedianTime :: "comet \<Rightarrow> comet_commit \<Rightarrow> valset \<Rightarrow> gotime" where
  "MedianTime L commit vals =
     (let (ws, totalVotingPower) = median_loop L vals (cmSignatures commit) 0 in WeightedMedian L ws totalVotingPower)"

subsection \<open>Validation of a block\<close>

datatype block_err = BasicErr nat | WrongVersion | WrongChainID | WrongInitialHeight | WrongHeight | WrongLastBlockID
  | WrongAppHash | WrongConsensusHash | WrongLastResultsHash | WrongValidatorsHash | WrongNextValidatorsHash
  | InitialCommitSigned | WrongProposerSize | TimeBeforeLast | NotMedianTime | NotGenesisTime | BelowInitialHeight
  | EvidenceOverflow

definition ValidateBlockTime :: "comet \<Rightarrow> comet_state \<Rightarrow> comet_block \<Rightarrow> block_err option" where
  "ValidateBlockTime L s b =
     (if bHeight b > sInitialHeight s then
        if \<not> (bTime b > sLastBlockTime s \<or> bTime b = sLastBlockTime s) then Some TimeBeforeLast
        else if bTime b \<noteq> MedianTime L (bLastCommit b) (sLastValidators s) then Some NotMedianTime
        else None
      else if bHeight b = sInitialHeight s then
        if bTime b \<noteq> sLastBlockTime s then Some NotGenesisTime else None
      else Some BelowInitialHeight)"

definition ValidateBlock :: "comet \<Rightarrow> comet_state \<Rightarrow> comet_block \<Rightarrow> block_err option" where
  "ValidateBlock L s b =
     (case blk_ValidateBasic L b of
        Some e \<Rightarrow> Some (BasicErr e)
      | None \<Rightarrow>
        if hVersionApp (bHeader b) \<noteq> sVersionApp s \<or> hVersionBlock (bHeader b) \<noteq> sVersionBlock s then Some WrongVersion
        else if hChainID (bHeader b) \<noteq> sChainID s then Some WrongChainID
        else if sLastBlockHeight s = 0 \<and> bHeight b \<noteq> sInitialHeight s then Some WrongInitialHeight
        else if sLastBlockHeight s > 0 \<and> bHeight b \<noteq> wrap64 (sLastBlockHeight s + 1) then Some WrongHeight
        else if \<not> bid_Equals L (bLastBlockID b) (sLastBlockID s) then Some WrongLastBlockID
        else if hAppHash (bHeader b) \<noteq> sAppHash s then Some WrongAppHash
        else if hConsensusHash (bHeader b) \<noteq> cp_Hash L (sConsensusParams s) then Some WrongConsensusHash
        else if hLastResultsHash (bHeader b) \<noteq> sLastResultsHash s then Some WrongLastResultsHash
        else if hValidatorsHash (bHeader b) \<noteq> vals_Hash L (sValidators s) then Some WrongValidatorsHash
        else if hNextValidatorsHash (bHeader b) \<noteq> vals_Hash L (sNextValidators s) then Some WrongNextValidatorsHash
        else if bHeight b = sInitialHeight s \<and> length (cmSignatures (bLastCommit b)) \<noteq> 0 then Some InitialCommitSigned
        else if length (hProposerAddress (bHeader b)) \<noteq> AddressSize L then Some WrongProposerSize
        else case ValidateBlockTime L s b of
          Some e \<Rightarrow> Some e
        | None \<Rightarrow> if ev_ByteSize L (bEvidence b) > cpEvidenceMaxBytes (sConsensusParams s) then Some EvidenceOverflow else None)"

subsection \<open>Transaction filters\<close>

text \<open>The filters are described by the limits they are built with.\<close>

definition TxPreCheck :: "comet \<Rightarrow> comet_state \<Rightarrow> int" where
  "TxPreCheck L s =
     (let maxBytes = (if cpBlockMaxBytes (sConsensusParams s) = -1 then MaxBlockSizeBytes L else cpBlockMaxBytes (sConsensusParams s))
      in MaxDataBytesNoEvidence L maxBytes (length (sValidators s)))"

definition TxPostCheck :: "comet_state \<Rightarrow> int" where
  "TxPostCheck s = cpBlockMaxGas (sConsensusParams s)"

end
