(* ===== verification/Block_Executor.thy ===== *)
theory Block_Executor
  imports VM_Types
begin

text \<open>
  The block executor of \<open>vm/types/state/executor.go\<close>. The application, the mempool, the two stores and the event
  bus are outside the repository. The state of a run is the list of the calls made to them so far, and what a
  call answers is an arbitrary function of that list and of the arguments, given by a record of functions.
\<close>

subsection \<open>Calls\<close>

datatype bus_event = EvNewBlock comet_block block_id finalize_response | EvNewBlockHeader header
  | EvNewBlockEvents int "bytes list" int | EvNewEvidence bytes int | EvTx int nat bytes bytes
  | EvValidatorSetUpdates valset

datatype ext_call = CFinalizeBlock finalize_request | CCommit | CPrepareProposal prepare_request
  | CProcessProposal finalize_request | CExtendVote finalize_request | CVerifyVoteExtension comet_vote
  | CReap int int | CLock | CUnlock | CFlushAppConn | CMempoolUpdate int "bytes list" "bytes list" int int
  | CSaveResponse int finalize_response | CSaveState comet_state | CPruneStates int int int | CPruneBlocks int comet_state
  | CSaveBlock comet_block part_set_header comet_commit | CPublish bus_event

type_synonym calls = "ext_call list"

record outside =
  app_FinalizeBlock :: "calls \<Rightarrow> finalize_request \<Rightarrow> (nat, finalize_response) go_result"
  app_Commit :: "calls \<Rightarrow> (nat, int) go_result"
  app_PrepareProposal :: "calls \<Rightarrow> prepare_request \<Rightarrow> (nat, bytes list) go_result"
  app_ProcessProposal :: "calls \<Rightarrow> finalize_request \<Rightarrow> (nat, proposal_status) go_result"
  app_ExtendVote :: "calls \<Rightarrow> finalize_request \<Rightarrow> (nat, bytes) go_result"
  app_VerifyVoteExtension :: "calls \<Rightarrow> comet_vote \<Rightarrow> (nat, proposal_status) go_result"
  mp_Reap :: "calls \<Rightarrow> int \<Rightarrow> int \<Rightarrow> bytes list"
  mp_FlushAppConn :: "calls \<Rightarrow> nat option"
  mp_Update :: "calls \<Rightarrow> nat option"
  ss_SaveResponse :: "calls \<Rightarrow> nat option"
  ss_Save :: "calls \<Rightarrow> nat option"
  ss_LoadValidators :: "calls \<Rightarrow> int \<Rightarrow> (nat, valset) go_result"
  ss_PruneStates :: "calls \<Rightarrow> nat option"
  bs_Base :: "calls \<Rightarrow> int"
  bs_PruneBlocks :: "calls \<Rightarrow> int \<Rightarrow> (nat, uint64 \<times> int) go_result"
  bs_SaveBlock :: "calls \<Rightarrow> comet_block \<Rightarrow> bool"
  bs_LoadBlock :: "calls \<Rightarrow> int \<Rightarrow> comet_block option"
  bs_LoadBlockByHash :: "calls \<Rightarrow> bytes \<Rightarrow> comet_block option"
  bus_Publish :: "calls \<Rightarrow> nat option"

text \<open>The errors the executor returns, with the wrapping it adds.\<close>

datatype exec_err = InvalidBlock block_err | AppErr nat | TxResultsMismatch nat nat | StoreErr nat
  | ValUpdateErr exec_err | NegativePower | PubKeyErr nat | UnsupportedKey string | ConversionErr nat
  | ChangeSetErr nat | ParamsErr nat | ParamsUpdateErr nat | CommitFailed exec_err | MempoolErr nat
  | TxsErr nat | PruneErr nat | InvalidVoteExtension

type_synonym 'a exec = "(calls, exec_err, 'a) proc"

text \<open>A call is recorded before it is answered.\<close>

definition call :: "ext_call \<Rightarrow> (calls \<Rightarrow> 'a) \<Rightarrow> 'a exec" where
  "call c answer tr = (Done (answer tr), tr @ [c])"

record BlockExecutor =
  blockMaxBytes :: int
  blockMaxGas :: int
  evidenceMaxBytes :: int

definition NewBlockExecutor :: "int \<Rightarrow> int \<Rightarrow> int \<Rightarrow> BlockExecutor" where
  "NewBlockExecutor mb mg ev = \<lparr>blockMaxBytes = mb, blockMaxGas = mg, evidenceMaxBytes = ev\<rparr>"

subsection \<open>Commit information for the application\<close>

definition BuildLastCommitInfo :: "comet \<Rightarrow> comet_block \<Rightarrow> valset \<Rightarrow> int \<Rightarrow> commit_info exec" where
  "BuildLastCommitInfo L b lastValSet initialHeight =
     (if bHeight b = initialHeight then p_ret \<lparr>ciRound = 0, ciVotes = []\<rparr>
      else if length (cmSignatures (bLastCommit b)) \<noteq> length lastValSet then p_panic
      else p_ret \<lparr>ciRound = cmRound (bLastCommit b),
        ciVotes = map2 (\<lambda>v s. (TM2PB_Validator L v, csFlag s)) lastValSet (cmSignatures (bLastCommit b))\<rparr>)"

definition buildLastCommitInfoFromStore :: "comet \<Rightarrow> outside \<Rightarrow> comet_block \<Rightarrow> int \<Rightarrow> commit_info exec" where
  "buildLastCommitInfoFromStore L X b initialHeight =
     (if bHeight b = initialHeight then p_ret \<lparr>ciRound = 0, ciVotes = []\<rparr>
      else p_bind (p_get (\<lambda>tr. ss_LoadValidators X tr (wrap64 (bHeight b - 1)))) (\<lambda>r.
        case r of Inl e \<Rightarrow> p_panic | Inr lastValSet \<Rightarrow> BuildLastCommitInfo L b lastValSet initialHeight))"

definition ext_vote :: "comet \<Rightarrow> consensus_params \<Rightarrow> int \<Rightarrow> validator \<Rightarrow> ext_commit_sig \<Rightarrow> ext_vote_info exec" where
  "ext_vote L ap height v ecs =
     (if csFlag (ecsSig ecs) \<noteq> FlagAbsent \<and> csAddress (ecsSig ecs) \<noteq> valAddress v then p_panic
      else if ecs_EnsureExtension L ecs (cp_VoteExtensionsEnabled L ap height) \<noteq> None then p_panic
      else p_ret \<lparr>evValidator = TM2PB_Validator L v, evFlag = csFlag (ecsSig ecs),
        evExtension = ecsExtension ecs, evExtensionSignature = ecsExtensionSignature ecs\<rparr>)"

fun ext_votes :: "comet \<Rightarrow> consensus_params \<Rightarrow> int \<Rightarrow> valset \<Rightarrow> ext_commit_sig list \<Rightarrow> ext_vote_info list exec" where
  "ext_votes L ap height (v # vs) (s # sigs) =
     p_bind (ext_vote L ap height v s) (\<lambda>x. p_bind (ext_votes L ap height vs sigs) (\<lambda>xs. p_ret (x # xs)))"
| "ext_votes L ap height vs sigs = p_ret []"

definition BuildExtendedCommitInfo ::
  "comet \<Rightarrow> ext_commit \<Rightarrow> valset \<Rightarrow> int \<Rightarrow> consensus_params \<Rightarrow> ext_commit_info exec" where
  "BuildExtendedCommitInfo L ec valSet initialHeight ap =
     (if ecHeight ec < initialHeight then p_ret \<lparr>eciRound = 0, eciVotes = []\<rparr>
      else if length (ecSignatures ec) \<noteq> length valSet then p_panic
      else p_bind (ext_votes L ap (ecHeight ec) valSet (ecSignatures ec)) (\<lambda>votes.
        p_ret \<lparr>eciRound = ecRound ec, eciVotes = votes\<rparr>))"

definition buildExtendedCommitInfoFromStore ::
  "comet \<Rightarrow> outside \<Rightarrow> ext_commit \<Rightarrow> int \<Rightarrow> consensus_params \<Rightarrow> ext_commit_info exec" where
  "buildExtendedCommitInfoFromStore L X ec initialHeight ap =
     (if ecHeight ec < initialHeight then p_ret \<lparr>eciRound = 0, eciVotes = []\<rparr>
      else p_bind (p_get (\<lambda>tr. ss_LoadValidators X tr (ecHeight ec))) (\<lambda>r.
        case r of Inl e \<Rightarrow> p_panic | Inr valSet \<Rightarrow> BuildExtendedCommitInfo L ec valSet initialHeight ap))"

subsection \<open>Proposals and votes\<close>

definition CreateProposalBlock ::
  "comet \<Rightarrow> outside \<Rightarrow> BlockExecutor \<Rightarrow> int \<Rightarrow> comet_state \<Rightarrow> ext_commit \<Rightarrow> bytes \<Rightarrow> comet_block exec" where
  "CreateProposalBlock L X ex height s lastExtCommit proposerAddr =
     (let emptyMaxBytes = (blockMaxBytes ex = -1);
          maxBytes = (if emptyMaxBytes then MaxBlockSizeBytes L else blockMaxBytes ex);
          maxDataBytes = MaxDataBytes L maxBytes (evidenceMaxBytes ex) (length (sValidators s));
          maxReapBytes = (if emptyMaxBytes then -1 else maxDataBytes);
          commit = ec_ToCommit L lastExtCommit
      in p_bind (call (CReap maxReapBytes (blockMaxGas ex)) (\<lambda>tr. mp_Reap X tr maxReapBytes (blockMaxGas ex))) (\<lambda>txs.
         let b = st_MakeBlock L s height txs commit proposerAddr in
         p_bind (buildExtendedCommitInfoFromStore L X lastExtCommit (sInitialHeight s) (sConsensusParams s)) (\<lambda>info.
         let rq = \<lparr>pqMaxTxBytes = maxDataBytes, pqTxs = bTxs b, pqLocalLastCommit = info,
                   pqMisbehavior = ev_ToABCI L (bEvidence b), pqHeight = bHeight b, pqTime = bTime b,
                   pqNextValidatorsHash = hNextValidatorsHash (bHeader b),
                   pqProposerAddress = hProposerAddress (bHeader b)\<rparr> in
         p_bind (call (CPrepareProposal rq) (\<lambda>tr. app_PrepareProposal X tr rq)) (\<lambda>r.
         p_bind (p_of AppErr r) (\<lambda>txl.
         p_bind (p_check (map_option TxsErr (Txs_Validate L txl maxDataBytes))) (\<lambda>_.
         p_ret (st_MakeBlock L s height txl commit proposerAddr)))))))"

definition request_of :: "comet \<Rightarrow> comet_block \<Rightarrow> bytes \<Rightarrow> commit_info \<Rightarrow> finalize_request" where
  "request_of L b hash info =
     \<lparr>rqHash = hash, rqNextValidatorsHash = hNextValidatorsHash (bHeader b),
      rqProposerAddress = hProposerAddress (bHeader b), rqHeight = bHeight b, rqTime = bTime b,
      rqDecidedLastCommit = info, rqMisbehavior = ev_ToABCI L (bEvidence b), rqTxs = bTxs b\<rparr>"

definition ProcessProposal :: "comet \<Rightarrow> outside \<Rightarrow> comet_block \<Rightarrow> comet_state \<Rightarrow> bool exec" where
  "ProcessProposal L X b s =
     p_bind (buildLastCommitInfoFromStore L X b (sInitialHeight s)) (\<lambda>info.
     let rq = request_of L b (blk_Hash L b) info in
     p_bind (call (CProcessProposal rq) (\<lambda>tr. app_ProcessProposal X tr rq)) (\<lambda>r.
     p_bind (p_of AppErr r) (\<lambda>st. if st = StatusUnknown then p_panic else p_ret (st = StatusAccept))))"

definition ExtendVote :: "comet \<Rightarrow> outside \<Rightarrow> comet_vote \<Rightarrow> comet_block \<Rightarrow> comet_state \<Rightarrow> bytes exec" where
  "ExtendVote L X vote b s =
     (if \<not> blk_HashesTo L b (vtBlockHash vote) then p_panic
      else if vtHeight vote \<noteq> bHeight b then p_panic
      else p_bind (buildLastCommitInfoFromStore L X b (sInitialHeight s)) (\<lambda>info.
        let rq = request_of L b (vtBlockHash vote) info in
        p_bind (call (CExtendVote rq) (\<lambda>tr. app_ExtendVote X tr rq)) (\<lambda>r.
        case r of Inl e \<Rightarrow> p_panic | Inr ext \<Rightarrow> p_ret ext)))"

definition VerifyVoteExtension :: "outside \<Rightarrow> comet_vote \<Rightarrow> unit exec" where
  "VerifyVoteExtension X vote =
     p_bind (call (CVerifyVoteExtension vote) (\<lambda>tr. app_VerifyVoteExtension X tr vote)) (\<lambda>r.
     case r of Inl e \<Rightarrow> p_panic
     | Inr st \<Rightarrow> if st = StatusUnknown then p_panic else if st \<noteq> StatusAccept then p_fail InvalidVoteExtension else p_ret ())"


subsection \<open>Applying a block\<close>

fun validateValidatorUpdates :: "comet \<Rightarrow> consensus_params \<Rightarrow> val_update list \<Rightarrow> exec_err option" where
  "validateValidatorUpdates L params [] = None"
| "validateValidatorUpdates L params (u # us) =
     (if vuPower u < 0 then Some NegativePower
      else if vuPower u = 0 then validateValidatorUpdates L params us
      else case PubKeyFromProto L (vuPubKey u) of
        Inl e \<Rightarrow> Some (PubKeyErr e)
      | Inr pk \<Rightarrow>
          if \<not> IsValidPubkeyType L (cpPubKeyTypes params) (pk_Type L pk) then Some (UnsupportedKey (pk_Type L pk))
          else validateValidatorUpdates L params us)"

definition next_params ::
  "comet \<Rightarrow> comet_state \<Rightarrow> header \<Rightarrow> bytes option \<Rightarrow> (exec_err, consensus_params \<times> uint64 \<times> int) go_result" where
  "next_params L s h upd =
     (case upd of
        None \<Rightarrow> Inr (sConsensusParams s, sVersionApp s, sLastHeightParamsChanged s)
      | Some u \<Rightarrow>
          let nextParams = cp_Update L (sConsensusParams s) u in
          case cp_ValidateBasic L nextParams of
            Some e \<Rightarrow> Inl (ParamsErr e)
          | None \<Rightarrow>
              (case cp_ValidateUpdate L (sConsensusParams s) u (hHeight h) of
                 Some e \<Rightarrow> Inl (ParamsUpdateErr e)
               | None \<Rightarrow> Inr (nextParams, cpVersionApp nextParams, wrap64 (hHeight h + 1))))"

definition updateState ::
  "comet \<Rightarrow> comet_state \<Rightarrow> block_id \<Rightarrow> header \<Rightarrow> finalize_response \<Rightarrow> valset \<Rightarrow> (exec_err, comet_state) go_result" where
  "updateState L s blockID h resp validatorUpdates =
     res_bind
       (if validatorUpdates \<noteq> [] then
          (case vals_UpdateWithChangeSet L (sNextValidators s) validatorUpdates of
             Inl e \<Rightarrow> Inl (ChangeSetErr e)
           | Inr vs \<Rightarrow> Inr (vs, wrap64 (hHeight h + 1 + 1)))
        else Inr (sNextValidators s, sLastHeightValidatorsChanged s))
       (\<lambda>(vs, lastHeightValsChanged).
     res_bind (next_params L s h (frParamUpdates resp)) (\<lambda>(nextParams, appVersion, lastHeightParamsChanged).
       Inr \<lparr>sVersionBlock = sVersionBlock s, sVersionApp = appVersion, sSoftware = sSoftware s, sChainID = sChainID s,
         sInitialHeight = sInitialHeight s, sLastBlockHeight = hHeight h, sLastBlockID = blockID,
         sLastBlockTime = hTime h, sNextValidators = vals_IncrementPriority L vs 1,
         sValidators = sNextValidators s, sLastValidators = sValidators s,
         sLastHeightValidatorsChanged = lastHeightValsChanged, sConsensusParams = nextParams,
         sLastHeightParamsChanged = lastHeightParamsChanged,
         sLastResultsHash = TxResultsHash L (frTxResults resp), sAppHash = []\<rparr>))"

definition exec_Commit :: "comet \<Rightarrow> outside \<Rightarrow> comet_state \<Rightarrow> comet_block \<Rightarrow> finalize_response \<Rightarrow> int exec" where
  "exec_Commit L X s b resp =
     p_bind (call CLock (\<lambda>_. ())) (\<lambda>_. p_defer (\<lambda>tr. tr @ [CUnlock])
       (p_bind (call CFlushAppConn (mp_FlushAppConn X)) (\<lambda>r.
        p_bind (p_check (map_option MempoolErr r)) (\<lambda>_.
        p_bind (call CCommit (app_Commit X)) (\<lambda>r.
        p_bind (p_of AppErr r) (\<lambda>retainHeight.
        p_bind (call (CMempoolUpdate (bHeight b) (bTxs b) (frTxResults resp) (TxPreCheck L s) (TxPostCheck s)) (mp_Update X)) (\<lambda>r.
        p_bind (p_check (map_option MempoolErr r)) (\<lambda>_.
        p_ret retainHeight))))))))"

definition pruneBlocks :: "outside \<Rightarrow> int \<Rightarrow> comet_state \<Rightarrow> uint64 exec" where
  "pruneBlocks X retainHeight s =
     p_bind (p_get (bs_Base X)) (\<lambda>base.
     if retainHeight \<le> base then p_ret 0
     else p_bind (call (CPruneBlocks retainHeight s) (\<lambda>tr. bs_PruneBlocks X tr retainHeight)) (\<lambda>r.
       p_bind (p_of PruneErr r) (\<lambda>(amountPruned, prunedHeaderHeight).
       p_bind (call (CPruneStates base retainHeight prunedHeaderHeight) (ss_PruneStates X)) (\<lambda>r.
       p_bind (p_check (map_option PruneErr r)) (\<lambda>_. p_ret amountPruned)))))"

text \<open>Errors of the event bus are logged and dropped.\<close>

definition publish :: "outside \<Rightarrow> bus_event \<Rightarrow> unit exec" where
  "publish X ev = p_bind (call (CPublish ev) (bus_Publish X)) (\<lambda>_. p_ret ())"

fun publish_all :: "outside \<Rightarrow> bus_event list \<Rightarrow> unit exec" where
  "publish_all X [] = p_ret ()"
| "publish_all X (ev # evs) = p_bind (publish X ev) (\<lambda>_. publish_all X evs)"

text \<open>Indexing \<open>TxResults\<close> beyond its length panics.\<close>

fun publish_txs :: "outside \<Rightarrow> int \<Rightarrow> nat \<Rightarrow> bytes list \<Rightarrow> bytes list \<Rightarrow> unit exec" where
  "publish_txs X height i [] rs = p_ret ()"
| "publish_txs X height i (tx # txs) [] = p_panic"
| "publish_txs X height i (tx # txs) (r # rs) =
     p_bind (publish X (EvTx height i tx r)) (\<lambda>_. publish_txs X height (Suc i) txs rs)"

definition fireEvents :: "outside \<Rightarrow> comet_block \<Rightarrow> block_id \<Rightarrow> finalize_response \<Rightarrow> valset \<Rightarrow> unit exec" where
  "fireEvents X b blockID resp validatorUpdates =
     p_bind (publish X (EvNewBlock b blockID resp)) (\<lambda>_.
     p_bind (publish X (EvNewBlockHeader (bHeader b))) (\<lambda>_.
     p_bind (publish X (EvNewBlockEvents (bHeight b) (frEvents resp) (int (length (bTxs b))))) (\<lambda>_.
     p_bind (publish_all X (map (\<lambda>ev. EvNewEvidence ev (bHeight b)) (bEvidence b))) (\<lambda>_.
     p_bind (publish_txs X (bHeight b) 0 (bTxs b) (frTxResults resp)) (\<lambda>_.
     if validatorUpdates \<noteq> [] then publish X (EvValidatorSetUpdates validatorUpdates) else p_ret ())))))"

definition ApplyBlock :: "comet \<Rightarrow> outside \<Rightarrow> comet_state \<Rightarrow> block_id \<Rightarrow> comet_block \<Rightarrow> comet_state exec" where
  "ApplyBlock L X s blockID b =
     p_bind (p_check (map_option InvalidBlock (ValidateBlock L s b))) (\<lambda>_.
     p_bind (buildLastCommitInfoFromStore L X b (sInitialHeight s)) (\<lambda>info.
     let rq = request_of L b (blk_Hash L b) info in
     p_bind (call (CFinalizeBlock rq) (\<lambda>tr. app_FinalizeBlock X tr rq)) (\<lambda>r.
     p_bind (p_of AppErr r) (\<lambda>resp.
     p_bind (p_check (if length (bTxs b) \<noteq> length (frTxResults resp)
       then Some (TxResultsMismatch (length (bTxs b)) (length (frTxResults resp))) else None)) (\<lambda>_.
     p_bind (call (CSaveResponse (bHeight b) resp) (ss_SaveResponse X)) (\<lambda>r.
     p_bind (p_check (map_option StoreErr r)) (\<lambda>_.
     p_bind (p_check (map_option ValUpdateErr (validateValidatorUpdates L (sConsensusParams s) (frValidatorUpdates resp)))) (\<lambda>_.
     p_bind (p_of ConversionErr (PB2TM_ValidatorUpdates L (frValidatorUpdates resp))) (\<lambda>validatorUpdates.
     p_bind (p_of CommitFailed (updateState L s blockID (bHeader b) resp validatorUpdates)) (\<lambda>s'.
     p_bind (p_try (exec_Commit L X s' b resp)) (\<lambda>r.
     p_bind (p_of CommitFailed r) (\<lambda>retainHeight.
     let s'' = s'\<lparr>sAppHash := frAppHash resp\<rparr> in
     p_bind (call (CSaveState s'') (ss_Save X)) (\<lambda>r.
     p_bind (p_check (map_option StoreErr r)) (\<lambda>_.
     p_bind (if retainHeight > 0 then p_bind (p_try (pruneBlocks X retainHeight s'')) (\<lambda>_. p_ret ()) else p_ret ()) (\<lambda>_.
     p_bind (fireEvents X b blockID resp validatorUpdates) (\<lambda>_.
     p_ret s''))))))))))))))))"

definition ExecCommitBlock :: "comet \<Rightarrow> outside \<Rightarrow> comet_block \<Rightarrow> int \<Rightarrow> bytes exec" where
  "ExecCommitBlock L X b initialHeight =
     p_bind (buildLastCommitInfoFromStore L X b initialHeight) (\<lambda>info.
     let rq = request_of L b (blk_Hash L b) info in
     p_bind (call (CFinalizeBlock rq) (\<lambda>tr. app_FinalizeBlock X tr rq)) (\<lambda>r.
     p_bind (p_of AppErr r) (\<lambda>resp.
     p_bind (p_check (if length (bTxs b) \<noteq> length (frTxResults resp)
       then Some (TxResultsMismatch (length (bTxs b)) (length (frTxResults resp))) else None)) (\<lambda>_.
     p_bind (call CCommit (app_Commit X)) (\<lambda>r.
     p_bind (p_of AppErr r) (\<lambda>_. p_ret (frAppHash resp)))))))"


subsection \<open>What the parts do\<close>

lemma call_eq [simp]: "call c f tr = (Done (f tr), tr @ [c])"
  by (simp add: call_def)

lemma buildLastCommitInfo_pure:
  "snd (buildLastCommitInfoFromStore L X b h tr) = tr" "fst (buildLastCommitInfoFromStore L X b h tr) \<noteq> Fail e"
  by (auto simp: buildLastCommitInfoFromStore_def BuildLastCommitInfo_def p_bind_def split: sum.split)

lemma exec_Commit_eq:
  "exec_Commit L X s b resp tr =
     (let up = CMempoolUpdate (bHeight b) (bTxs b) (frTxResults resp) (TxPreCheck L s) (TxPostCheck s) in
      case mp_FlushAppConn X (tr @ [CLock]) of
        Some e \<Rightarrow> (Fail (MempoolErr e), tr @ [CLock, CFlushAppConn, CUnlock])
      | None \<Rightarrow>
          (case app_Commit X (tr @ [CLock, CFlushAppConn]) of
             Inl e \<Rightarrow> (Fail (AppErr e), tr @ [CLock, CFlushAppConn, CCommit, CUnlock])
           | Inr retainHeight \<Rightarrow>
               (case mp_Update X (tr @ [CLock, CFlushAppConn, CCommit]) of
                  Some e \<Rightarrow> (Fail (MempoolErr e), tr @ [CLock, CFlushAppConn, CCommit, up, CUnlock])
                | None \<Rightarrow> (Done retainHeight, tr @ [CLock, CFlushAppConn, CCommit, up, CUnlock]))))"
  by (simp add: exec_Commit_def p_bind_def p_defer_def Let_def split: option.split sum.split)

lemma publish_eq [simp]: "publish X ev tr = (Done (), tr @ [CPublish ev])"
  by (simp add: publish_def p_bind_def)

lemma publish_all_eq: "publish_all X evs tr = (Done (), tr @ map CPublish evs)"
  by (induction evs arbitrary: tr) (simp_all add: p_bind_def)

fun tx_events :: "int \<Rightarrow> nat \<Rightarrow> bytes list \<Rightarrow> bytes list \<Rightarrow> bus_event list" where
  "tx_events height i (tx # txs) (r # rs) = EvTx height i tx r # tx_events height (Suc i) txs rs"
| "tx_events height i txs rs = []"

lemma publish_txs_eq:
  "length txs \<le> length rs \<Longrightarrow> publish_txs X height i txs rs tr = (Done (), tr @ map CPublish (tx_events height i txs rs))"
proof (induction txs arbitrary: i rs tr)
  case (Cons tx txs)
  then show ?case by (cases rs) (simp_all add: p_bind_def)
qed simp

definition block_events :: "comet_block \<Rightarrow> block_id \<Rightarrow> finalize_response \<Rightarrow> valset \<Rightarrow> bus_event list" where
  "block_events b blockID resp vus =
     [EvNewBlock b blockID resp, EvNewBlockHeader (bHeader b),
      EvNewBlockEvents (bHeight b) (frEvents resp) (int (length (bTxs b)))]
     @ map (\<lambda>ev. EvNewEvidence ev (bHeight b)) (bEvidence b)
     @ tx_events (bHeight b) 0 (bTxs b) (frTxResults resp)
     @ (if vus \<noteq> [] then [EvValidatorSetUpdates vus] else [])"

lemma fireEvents_eq:
  "length (bTxs b) \<le> length (frTxResults resp) \<Longrightarrow>
     fireEvents X b blockID resp vus tr = (Done (), tr @ map CPublish (block_events b blockID resp vus))"
  by (simp add: fireEvents_def block_events_def p_bind_def publish_all_eq publish_txs_eq)

lemma pruneBlocks_cases:
  obtains r cs where "p_try (pruneBlocks X h s) tr = (Done r, tr @ cs)"
    "cs = [] \<or> cs = [CPruneBlocks h s] \<or> (\<exists>base ph. cs = [CPruneBlocks h s, CPruneStates base h ph])"
    "cs = [] \<longleftrightarrow> h \<le> bs_Base X tr"
proof (cases "h \<le> bs_Base X tr")
  case True
  then have "p_try (pruneBlocks X h s) tr = (Done (Inr 0), tr @ [])" by (simp add: p_try_def pruneBlocks_def p_bind_def)
  then show ?thesis using that True by blast
next
  case False
  show ?thesis
  proof (cases "bs_PruneBlocks X tr h")
    case (Inl e)
    with False have "p_try (pruneBlocks X h s) tr = (Done (Inl (PruneErr e)), tr @ [CPruneBlocks h s])"
      by (simp add: p_try_def pruneBlocks_def p_bind_def)
    then show ?thesis using that False by blast
  next
    case (Inr ap)
    obtain a ph where ap: "ap = (a, ph)" by (cases ap)
    let ?tr = "tr @ [CPruneBlocks h s]" and ?c = "CPruneStates (bs_Base X tr) h ph"
    have "p_try (pruneBlocks X h s) tr = (Done (case ss_PruneStates X ?tr of Some e \<Rightarrow> Inl (PruneErr e) | None \<Rightarrow> Inr a), tr @ [CPruneBlocks h s, ?c])"
      using False Inr ap by (simp add: p_try_def pruneBlocks_def p_bind_def split: option.split)
    then show ?thesis using that False by blast
  qed
qed

lemma updateState_fields:
  assumes "updateState L s blockID h resp vus = Inr s'"
  shows "sLastBlockHeight s' = hHeight h" "sLastBlockID s' = blockID" "sLastBlockTime s' = hTime h"
    "sInitialHeight s' = sInitialHeight s" "sChainID s' = sChainID s" "sVersionBlock s' = sVersionBlock s"
    "sValidators s' = sNextValidators s" "sLastValidators s' = sValidators s"
    "sLastResultsHash s' = TxResultsHash L (frTxResults resp)"
  using assms by (auto simp: updateState_def res_bind_Inr_iff)

subsection \<open>Every run of ApplyBlock\<close>

text \<open>
  The calls of a run, in the order of the phases of \<open>ApplyBlock\<close>. A run makes each call of the
  first eight kinds at most once, in increasing phase.
\<close>

fun phase :: "ext_call \<Rightarrow> nat" where
  "phase (CFinalizeBlock _) = 1"
| "phase (CSaveResponse _ _) = 2"
| "phase CLock = 3"
| "phase CFlushAppConn = 4"
| "phase CCommit = 5"
| "phase (CMempoolUpdate _ _ _ _ _) = 6"
| "phase CUnlock = 7"
| "phase (CSaveState _) = 8"
| "phase (CPruneBlocks _ _) = 9"
| "phase (CPruneStates _ _ _) = 10"
| "phase (CPublish _) = 11"
| "phase _ = 0"

text \<open>How a run ends after the response of the application, and after the new state is computed.\<close>

definition finish ::
  "comet \<Rightarrow> outside \<Rightarrow> comet_state \<Rightarrow> block_id \<Rightarrow> comet_block \<Rightarrow> finalize_response \<Rightarrow> valset \<Rightarrow> comet_state exec" where
  "finish L X s' blockID b resp vus =
     p_bind (p_try (exec_Commit L X s' b resp)) (\<lambda>r.
     p_bind (p_of CommitFailed r) (\<lambda>retainHeight.
     let s'' = s'\<lparr>sAppHash := frAppHash resp\<rparr> in
     p_bind (call (CSaveState s'') (ss_Save X)) (\<lambda>r.
     p_bind (p_check (map_option StoreErr r)) (\<lambda>_.
     p_bind (if retainHeight > 0 then p_bind (p_try (pruneBlocks X retainHeight s'')) (\<lambda>_. p_ret ()) else p_ret ()) (\<lambda>_.
     p_bind (fireEvents X b blockID resp vus) (\<lambda>_.
     p_ret s''))))))"

lemma finish_cases:
  assumes "length (bTxs b) = length (frTxResults resp)"
  obtains (flush) e where "finish L X s' bid b resp vus tr = (Fail (CommitFailed (MempoolErr e)), tr @ [CLock, CFlushAppConn, CUnlock])"
  | (commit) e where "finish L X s' bid b resp vus tr = (Fail (CommitFailed (AppErr e)), tr @ [CLock, CFlushAppConn, CCommit, CUnlock])"
      "app_Commit X (tr @ [CLock, CFlushAppConn]) = Inl e"
  | (update) e u where "finish L X s' bid b resp vus tr = (Fail (CommitFailed (MempoolErr e)), tr @ [CLock, CFlushAppConn, CCommit, u, CUnlock])"
      "phase u = 6"
  | (save) e u where "finish L X s' bid b resp vus tr =
        (Fail (StoreErr e), tr @ [CLock, CFlushAppConn, CCommit, u, CUnlock, CSaveState (s'\<lparr>sAppHash := frAppHash resp\<rparr>)])" "phase u = 6"
      "\<exists>h. app_Commit X (tr @ [CLock, CFlushAppConn]) = Inr h"
  | (success) u prune where "finish L X s' bid b resp vus tr =
        (Done (s'\<lparr>sAppHash := frAppHash resp\<rparr>), tr @ [CLock, CFlushAppConn, CCommit, u, CUnlock, CSaveState (s'\<lparr>sAppHash := frAppHash resp\<rparr>)]
          @ prune @ map CPublish (block_events b bid resp vus))" "phase u = 6"
      "\<exists>h. app_Commit X (tr @ [CLock, CFlushAppConn]) = Inr h \<and> (h \<le> 0 \<longrightarrow> prune = [])"
      "prune = [] \<or> map phase prune = [9] \<or> map phase prune = [9, 10]"
proof (cases "mp_FlushAppConn X (tr @ [CLock])")
  case (Some e)
  then show ?thesis using flush by (simp add: finish_def p_bind_def p_try_def exec_Commit_eq)
next
  case None
  note F = None
  show ?thesis
  proof (cases "app_Commit X (tr @ [CLock, CFlushAppConn])")
    case (Inl e)
    then show ?thesis using F commit by (simp add: finish_def p_bind_def p_try_def exec_Commit_eq)
  next
    case (Inr h)
    let ?u = "CMempoolUpdate (bHeight b) (bTxs b) (frTxResults resp) (TxPreCheck L s') (TxPostCheck s')"
    let ?s = "s'\<lparr>sAppHash := frAppHash resp\<rparr>"
    let ?tr = "tr @ [CLock, CFlushAppConn, CCommit, ?u, CUnlock]"
    show ?thesis
    proof (cases "mp_Update X (tr @ [CLock, CFlushAppConn, CCommit])")
      case (Some e)
      then show ?thesis using F Inr update [of e ?u] by (simp add: finish_def p_bind_def p_try_def exec_Commit_eq)
    next
      case None
      then have C: "(p_try (exec_Commit L X s' b resp) :: (exec_err + int) exec) tr = (Done (Inr h), ?tr)"
        using F Inr by (simp add: p_try_def exec_Commit_eq)
      show ?thesis
      proof (cases "ss_Save X ?tr")
        case (Some e)
        then show ?thesis using C Inr save [of e ?u] by (simp add: finish_def p_bind_def Let_def)
      next
        case None
        note S = None
        obtain r cs where P: "(p_try (pruneBlocks X h ?s) :: (exec_err + uint64) exec) (?tr @ [CSaveState ?s]) = (Done r, (?tr @ [CSaveState ?s]) @ cs)"
            "cs = [] \<or> cs = [CPruneBlocks h ?s] \<or> (\<exists>base ph. cs = [CPruneBlocks h ?s, CPruneStates base h ph])"
          by (rule pruneBlocks_cases)
        let ?cs = "if h > 0 then cs else []"
        have "finish L X s' bid b resp vus tr =
            (Done ?s, tr @ [CLock, CFlushAppConn, CCommit, ?u, CUnlock, CSaveState ?s] @ ?cs @ map CPublish (block_events b bid resp vus))"
          using C S P(1) assms by (simp add: finish_def p_bind_def Let_def fireEvents_eq)
        then show ?thesis using Inr P(2) success [of ?u ?cs] by auto
      qed
    qed
  qed
qed

lemma ApplyBlock_cases:
  obtains (invalid) e where "ValidateBlock L s b = Some e" "ApplyBlock L X s bid b tr = (Fail (InvalidBlock e), tr)"
  | (panic) "ApplyBlock L X s bid b tr = (Panic, tr)"
  | (app) e rq where "ApplyBlock L X s bid b tr = (Fail e, tr @ [CFinalizeBlock rq])" "\<nexists>d. e = InvalidBlock d"
  | (rejected) e rq resp where "ApplyBlock L X s bid b tr = (Fail e, tr @ [CFinalizeBlock rq, CSaveResponse (bHeight b) resp])"
      "\<nexists>d. e = InvalidBlock d"
  | (finish) info rq resp vus s' where "ValidateBlock L s b = None"
      "fst (buildLastCommitInfoFromStore L X b (sInitialHeight s) tr) = Done info" "rq = request_of L b (blk_Hash L b) info"
      "app_FinalizeBlock X tr rq = Inr resp" "length (bTxs b) = length (frTxResults resp)"
      "ss_SaveResponse X (tr @ [CFinalizeBlock rq]) = None" "PB2TM_ValidatorUpdates L (frValidatorUpdates resp) = Inr vus"
      "updateState L s bid (bHeader b) resp vus = Inr s'"
      "ApplyBlock L X s bid b tr = finish L X s' bid b resp vus (tr @ [CFinalizeBlock rq, CSaveResponse (bHeight b) resp])"
proof (cases "ValidateBlock L s b")
  case (Some e)
  then show ?thesis using invalid by (simp add: ApplyBlock_def p_bind_def)
next
  case None
  note V = None
  obtain r where B: "buildLastCommitInfoFromStore L X b (sInitialHeight s) tr = (r, tr)"
    using buildLastCommitInfo_pure(1) [of L X b "sInitialHeight s" tr] by (metis prod.collapse)
  show ?thesis
  proof (cases r)
    case Panic
    then show ?thesis using V B panic by (simp add: ApplyBlock_def p_bind_def)
  next
    case (Fail e)
    then show ?thesis using buildLastCommitInfo_pure(2) [of L X b "sInitialHeight s" tr e] B by simp
  next
    case (Done info)
    define rq where "rq = request_of L b (blk_Hash L b) info"
    note D = V B Done rq_def [symmetric]
    show ?thesis
    proof (cases "app_FinalizeBlock X tr rq")
      case (Inl e)
      then show ?thesis using D app [of "AppErr e" rq] by (simp add: ApplyBlock_def p_bind_def)
    next
      case (Inr resp)
      let ?tr = "tr @ [CFinalizeBlock rq]" and ?tr2 = "tr @ [CFinalizeBlock rq, CSaveResponse (bHeight b) resp]"
      show ?thesis
      proof (cases "length (bTxs b) = length (frTxResults resp)")
        case False
        then show ?thesis using D Inr app [of _ rq] by (simp add: ApplyBlock_def p_bind_def)
      next
        case True
        note R = True
        show ?thesis
        proof (cases "ss_SaveResponse X ?tr")
          case (Some e)
          then show ?thesis using D Inr R rejected [of _ rq resp] by (simp add: ApplyBlock_def p_bind_def)
        next
          case None
          note S = None
          consider (a) e where "validateValidatorUpdates L (sConsensusParams s) (frValidatorUpdates resp) = Some e"
            | (b) e where "validateValidatorUpdates L (sConsensusParams s) (frValidatorUpdates resp) = None"
                "PB2TM_ValidatorUpdates L (frValidatorUpdates resp) = Inl e"
            | (c) vus e where "validateValidatorUpdates L (sConsensusParams s) (frValidatorUpdates resp) = None"
                "PB2TM_ValidatorUpdates L (frValidatorUpdates resp) = Inr vus" "updateState L s bid (bHeader b) resp vus = Inl e"
            | (d) vus s' where "validateValidatorUpdates L (sConsensusParams s) (frValidatorUpdates resp) = None"
                "PB2TM_ValidatorUpdates L (frValidatorUpdates resp) = Inr vus" "updateState L s bid (bHeader b) resp vus = Inr s'"
            by (metis not_None_eq old.sum.exhaust)
          then show ?thesis
          proof cases
            case d
            then have "ApplyBlock L X s bid b tr = finish L X s' bid b resp vus ?tr2"
              using D Inr R S by (simp add: ApplyBlock_def finish_def p_bind_def)
            then show ?thesis using finish [OF V _ rq_def Inr R S d(2,3)] B Done by simp
          qed (use D Inr R S rejected [of _ rq resp] in \<open>simp_all add: ApplyBlock_def p_bind_def\<close>)
        qed
      qed
    qed
  qed
qed

lemma ApplyBlock_success:
  assumes "ApplyBlock L X s bid b tr = (Done s', tr')"
  shows "\<exists>rq resp vus u prune.
    tr' = tr @ [CFinalizeBlock rq, CSaveResponse (bHeight b) resp, CLock, CFlushAppConn, CCommit, u, CUnlock, CSaveState s']
            @ prune @ map CPublish (block_events b bid resp vus)
    \<and> app_FinalizeBlock X tr rq = Inr resp \<and> rqHeight rq = bHeight b \<and> rqTxs rq = bTxs b \<and> phase u = 6
    \<and> length (frTxResults resp) = length (bTxs b)
    \<and> (prune = [] \<or> map phase prune = [9] \<or> map phase prune = [9, 10])
    \<and> ValidateBlock L s b = None
    \<and> sLastBlockHeight s' = bHeight b \<and> sLastBlockID s' = bid \<and> sLastBlockTime s' = bTime b
    \<and> sAppHash s' = frAppHash resp \<and> sLastResultsHash s' = TxResultsHash L (frTxResults resp)
    \<and> sValidators s' = sNextValidators s \<and> sLastValidators s' = sValidators s
    \<and> sChainID s' = sChainID s \<and> sInitialHeight s' = sInitialHeight s"
proof (cases rule: ApplyBlock_cases [of L s b X bid tr])
  case (finish info rq resp vus s1)
  from finish(5) show ?thesis
  proof (cases rule: finish_cases [of b resp L X s1 bid vus "tr @ [CFinalizeBlock rq, CSaveResponse (bHeight b) resp]"])
    case (success u prune)
    then have s': "s' = s1\<lparr>sAppHash := frAppHash resp\<rparr>" using assms finish(9) by simp
    moreover have "tr' = tr @ [CFinalizeBlock rq, CSaveResponse (bHeight b) resp, CLock, CFlushAppConn, CCommit, u, CUnlock, CSaveState s']
            @ prune @ map CPublish (block_events b bid resp vus)"
      using assms success(1) unfolding finish(9) s' by simp
    moreover have "rqHeight rq = bHeight b \<and> rqTxs rq = bTxs b" by (simp add: finish(3) request_of_def)
    ultimately show ?thesis
      using success(2,4) finish(1,4,5) updateState_fields [OF finish(8)]
      by (intro exI [of _ rq] exI [of _ resp] exI [of _ vus] exI [of _ u] exI [of _ prune]) simp
  qed (use assms finish(9) in simp_all)
qed (use assms in simp_all)

text \<open>
  C3. Applying a block that succeeds makes exactly these calls, in this order: the block is finalised by the
  application, the response is saved, the mempool is locked, flushed, the application commits, the mempool is
  updated and unlocked, the new state is saved, old heights are pruned if the application asks for it, and the
  events of the block are published last. The new state is at the block's height, names the block, shifts the
  validator sets, and carries the application hash of the response.
\<close>

theorem apply_block_success:
  assumes "ApplyBlock L X s bid b tr = (Done s', tr')"
  shows "\<exists>rq resp vus u prune.
    tr' = tr @ [CFinalizeBlock rq, CSaveResponse (bHeight b) resp, CLock, CFlushAppConn, CCommit, u, CUnlock, CSaveState s']
            @ prune @ map CPublish (block_events b bid resp vus)
    \<and> app_FinalizeBlock X tr rq = Inr resp \<and> rqHeight rq = bHeight b \<and> rqTxs rq = bTxs b \<and> phase u = 6
    \<and> length (frTxResults resp) = length (bTxs b)
    \<and> (prune = [] \<or> map phase prune = [9] \<or> map phase prune = [9, 10])
    \<and> ValidateBlock L s b = None
    \<and> sLastBlockHeight s' = bHeight b \<and> sLastBlockID s' = bid \<and> sLastBlockTime s' = bTime b
    \<and> sAppHash s' = frAppHash resp \<and> sLastResultsHash s' = TxResultsHash L (frTxResults resp)
    \<and> sValidators s' = sNextValidators s \<and> sLastValidators s' = sValidators s
    \<and> sChainID s' = sChainID s \<and> sInitialHeight s' = sInitialHeight s"
  using assms by (rule ApplyBlock_success)

lemma phase_eq:
  "CLock = c \<longleftrightarrow> phase c = 3" "CUnlock = c \<longleftrightarrow> phase c = 7"
  "(\<exists>s. CSaveState s = c) \<longleftrightarrow> phase c = 8" "(\<exists>ev. CPublish ev = c) \<longleftrightarrow> phase c = 11"
  by (cases c; simp)+

lemma in_phase:
  "CLock \<in> set cs \<longleftrightarrow> 3 \<in> set (map phase cs)" "CUnlock \<in> set cs \<longleftrightarrow> 7 \<in> set (map phase cs)"
  "(\<exists>s. CSaveState s \<in> set cs) \<longleftrightarrow> 8 \<in> set (map phase cs)" "(\<exists>ev. CPublish ev \<in> set cs) \<longleftrightarrow> 11 \<in> set (map phase cs)"
  by (induction cs) (simp_all add: phase_eq ex_disj_distrib)

text \<open>The order of the calls of a run, by their phases.\<close>

definition ordered_run :: "outside \<Rightarrow> comet_block \<Rightarrow> calls \<Rightarrow> calls \<Rightarrow> bool" where
  "ordered_run X b tr cs \<longleftrightarrow> 0 \<notin> set (map phase cs) \<and> sorted (map phase cs) \<and> distinct (filter (\<lambda>n. n < 11) (map phase cs))
     \<and> (CLock \<in> set cs \<longleftrightarrow> CUnlock \<in> set cs)
     \<and> (\<forall>pre post. cs = pre @ CCommit # post \<longrightarrow> (\<exists>resp. CSaveResponse (bHeight b) resp \<in> set pre))
     \<and> (\<forall>s'. CSaveState s' \<in> set cs \<longrightarrow> (\<exists>pre post h. cs = pre @ CCommit # post \<and> app_Commit X (tr @ pre) = Inr h))"

lemma phase_events [simp]: "map phase (map CPublish evs) = replicate (length evs) 11"
  by (induction evs) simp_all

lemma phase_events' [simp]: "map (phase \<circ> CPublish) evs = replicate (length evs) 11"
  by (induction evs) simp_all

lemma ordered_runI:
  assumes "sorted (map phase rest)" "\<forall>n\<in>set (map phase rest). 3 \<le> n" "distinct (filter (\<lambda>n. n < 11) (map phase rest))"
    and "3 \<in> set (map phase rest) \<longleftrightarrow> 7 \<in> set (map phase rest)"
    and "8 \<in> set (map phase rest) \<Longrightarrow> \<exists>post h. rest = [CLock, CFlushAppConn, CCommit] @ post
      \<and> app_Commit X (tr @ [CFinalizeBlock rq, CSaveResponse (bHeight b) resp, CLock, CFlushAppConn]) = Inr h"
  shows "ordered_run X b tr ([CFinalizeBlock rq, CSaveResponse (bHeight b) resp] @ rest)"
proof -
  let ?cs = "[CFinalizeBlock rq, CSaveResponse (bHeight b) resp] @ rest"
  have "\<exists>resp. CSaveResponse (bHeight b) resp \<in> set pre" if "?cs = pre @ CCommit # post" for pre post
    using that by (cases pre; cases "tl pre"; auto)
  moreover have "\<exists>pre post h. ?cs = pre @ CCommit # post \<and> app_Commit X (tr @ pre) = Inr h" if "CSaveState s' \<in> set ?cs" for s'
  proof -
    have "8 \<in> set (map phase rest)" using that in_phase(3) [of rest] by auto
    with assms(5) obtain post h where "rest = [CLock, CFlushAppConn, CCommit] @ post"
      "app_Commit X (tr @ [CFinalizeBlock rq, CSaveResponse (bHeight b) resp, CLock, CFlushAppConn]) = Inr h" by blast
    then show ?thesis
      by (intro exI [of _ "[CFinalizeBlock rq, CSaveResponse (bHeight b) resp, CLock, CFlushAppConn]"] exI [of _ post]) auto
  qed
  moreover have "0 \<notin> set (map phase ?cs)" using assms(2) by auto
  moreover have "sorted (map phase ?cs)" using assms(1,2) by auto
  moreover have "distinct (filter (\<lambda>n. n < 11) (map phase ?cs))" using assms(2,3) by force
  moreover have "CLock \<in> set ?cs \<longleftrightarrow> CUnlock \<in> set ?cs" using assms(4) by (simp only: in_phase(1,2)) simp
  ultimately show ?thesis unfolding ordered_run_def by blast
qed

lemma success_phases:
  fixes n :: nat and P :: "nat list"
  assumes "P = [] \<or> P = [9] \<or> P = [9, 10]"
  defines "ps \<equiv> [3, 4, 5, 6, 7, 8] @ P @ replicate n 11"
  shows "sorted ps" "distinct (filter (\<lambda>n. n < 11) ps)" "3 \<in> set ps" "7 \<in> set ps" "\<forall>k\<in>set ps. 3 \<le> k"
  unfolding ps_def using assms(1) by (elim disjE; simp add: sorted_append)+

lemma ordered_short:
  "ordered_run X b tr []" "ordered_run X b tr [CFinalizeBlock rq]"
  "ordered_run X b tr [CFinalizeBlock rq, CSaveResponse (bHeight b) resp]"
proof -
  have "[c] \<noteq> pre @ CCommit # post" if "c \<noteq> CCommit" for c pre post using that by (cases pre) auto
  then show "ordered_run X b tr []" "ordered_run X b tr [CFinalizeBlock rq]" by (simp_all add: ordered_run_def)
  show "ordered_run X b tr [CFinalizeBlock rq, CSaveResponse (bHeight b) resp]" using ordered_runI [of "[]" X tr rq b resp] by simp
qed

lemma ApplyBlock_ordered:
  assumes "ApplyBlock L X s bid b tr = (r, tr')"
  shows "\<exists>cs. tr' = tr @ cs \<and> ordered_run X b tr cs
    \<and> ((\<exists>ev. CPublish ev \<in> set cs) \<longleftrightarrow> (\<exists>s'. r = Done s'))
    \<and> ((\<exists>e. r = Fail (InvalidBlock e)) \<longrightarrow> cs = [])"
proof (cases rule: ApplyBlock_cases [of L s b X bid tr])
  case (finish info rq resp vus s1)
  let ?p = "[CFinalizeBlock rq, CSaveResponse (bHeight b) resp]"
  from finish(5) show ?thesis
  proof (cases rule: finish_cases [of b resp L X s1 bid vus "tr @ ?p"])
    case (flush e)
    have "ordered_run X b tr (?p @ [CLock, CFlushAppConn, CUnlock])" by (rule ordered_runI) simp_all
    moreover have "\<not> (\<exists>ev. CPublish ev \<in> set (?p @ [CLock, CFlushAppConn, CUnlock]))" unfolding in_phase(4) by (simp)
    ultimately show ?thesis using flush(1) assms unfolding finish(9) by (intro exI [of _ "?p @ [CLock, CFlushAppConn, CUnlock]"]) simp
  next
    case (commit e)
    have "ordered_run X b tr (?p @ [CLock, CFlushAppConn, CCommit, CUnlock])" by (rule ordered_runI) simp_all
    moreover have "\<not> (\<exists>ev. CPublish ev \<in> set (?p @ [CLock, CFlushAppConn, CCommit, CUnlock]))" unfolding in_phase(4) by (simp)
    ultimately show ?thesis using commit(1) assms unfolding finish(9) by (intro exI [of _ "?p @ [CLock, CFlushAppConn, CCommit, CUnlock]"]) simp
  next
    case (update e u)
    have "ordered_run X b tr (?p @ [CLock, CFlushAppConn, CCommit, u, CUnlock])" by (rule ordered_runI) (simp_all add: update(2))
    moreover have "\<not> (\<exists>ev. CPublish ev \<in> set (?p @ [CLock, CFlushAppConn, CCommit, u, CUnlock]))" unfolding in_phase(4) by (simp add: update(2))
    ultimately show ?thesis using update(1) assms unfolding finish(9) by (intro exI [of _ "?p @ [CLock, CFlushAppConn, CCommit, u, CUnlock]"]) simp
  next
    case (save e u)
    let ?cs = "?p @ [CLock, CFlushAppConn, CCommit, u, CUnlock, CSaveState (s1\<lparr>sAppHash := frAppHash resp\<rparr>)]"
    have "ordered_run X b tr ?cs" by (rule ordered_runI) (use save(2,3) in simp_all)
    moreover have "\<not> (\<exists>ev. CPublish ev \<in> set ?cs)" unfolding in_phase(4) by (simp add: save(2))
    ultimately show ?thesis using save(1) assms unfolding finish(9) by (intro exI [of _ ?cs]) simp
  next
    case (success u prune)
    let ?evs = "block_events b bid resp vus"
    let ?cs = "?p @ [CLock, CFlushAppConn, CCommit, u, CUnlock, CSaveState (s1\<lparr>sAppHash := frAppHash resp\<rparr>)]
      @ prune @ map CPublish ?evs"
    have "ordered_run X b tr ?cs"
    proof (rule ordered_runI)
      have P: "map phase prune = [] \<or> map phase prune = [9] \<or> map phase prune = [9, 10]" using success(4) by auto
      let ?rest = "[CLock, CFlushAppConn, CCommit, u, CUnlock, CSaveState (s1\<lparr>sAppHash := frAppHash resp\<rparr>)] @ prune @ map CPublish ?evs"
      have ph: "map phase ?rest = [3, 4, 5, 6, 7, 8] @ map phase prune @ replicate (length ?evs) 11" using success(2) by simp
      note ps = success_phases [OF P, of "length ?evs", folded ph]
      show "sorted (map phase ?rest)" "distinct (filter (\<lambda>n. n < 11) (map phase ?rest))"
        "3 \<in> set (map phase ?rest) \<longleftrightarrow> 7 \<in> set (map phase ?rest)"
        using ps(1-4) by simp_all
      show "\<forall>n\<in>set (map phase ?rest). 3 \<le> n" by (rule ps(5))
      show "\<exists>post h. ?rest = [CLock, CFlushAppConn, CCommit] @ post
        \<and> app_Commit X (tr @ [CFinalizeBlock rq, CSaveResponse (bHeight b) resp, CLock, CFlushAppConn]) = Inr h"
        using success(3)
        by (intro exI [of _ "[u, CUnlock, CSaveState (s1\<lparr>sAppHash := frAppHash resp\<rparr>)] @ prune @ map CPublish ?evs"]) auto
    qed
    moreover have "?evs \<noteq> []" by (simp add: block_events_def)
    then have "\<exists>ev. CPublish ev \<in> set ?cs" by (simp only: in_phase(4)) simp
    ultimately show ?thesis using success(1) assms unfolding finish(9) by (intro exI [of _ ?cs]) simp
  qed
next
  case (app e rq)
  then show ?thesis using assms ordered_short(2) [of X b tr rq] by auto
next
  case (rejected e rq resp)
  then show ?thesis using assms ordered_short(3) [of X b tr rq resp] by auto
next
  case (invalid e)
  then show ?thesis using assms ordered_short(1) [of X b tr] by auto
next
  case panic
  then show ?thesis using assms ordered_short(1) [of X b tr] by auto
qed

text \<open>
  C4. Whatever the outcome of \<open>ApplyBlock\<close>, its calls come in increasing phase and none of the first ten
  kinds is repeated; the mempool is unlocked whenever it was locked; the application commits only after the
  response was saved, the state is saved only after the application committed, and events are published exactly
  for a block that was applied. A block that fails validation has no effect at all.
\<close>

theorem apply_block_order:
  assumes "ApplyBlock L X s bid b tr = (r, tr')"
  shows "\<exists>cs. tr' = tr @ cs \<and> ordered_run X b tr cs
    \<and> ((\<exists>ev. CPublish ev \<in> set cs) \<longleftrightarrow> (\<exists>s'. r = Done s'))
    \<and> ((\<exists>e. r = Fail (InvalidBlock e)) \<longrightarrow> cs = [])"
  using assms by (rule ApplyBlock_ordered)

end
