(* ===== verification/Wrapped_Blocks.thy ===== *)
theory Wrapped_Blocks
  imports VM_Types Caches
begin

text \<open>
  The block caches of \<open>vm/types/state/wrapped_block.go\<close>. A wrapped block is an object that several caches may
  point to and that one handler mutates, so the storage has a heap of wrapped blocks and the caches hold pointers. The
  sized caches measure an entry through its pointer at the time of the operation.
\<close>

subsection \<open>Wrapped blocks and their sizes\<close>

record WrappedBlock =
  wBlock :: comet_block
  wStatus :: vm_status

type_synonym wptr = nat
type_synonym wheap = "wptr \<Rightarrow> WrappedBlock"

text \<open>The number of characters of a decimal number.\<close>

fun decimal_len :: "nat \<Rightarrow> nat" where
  "decimal_len n = (if n < 10 then 1 else Suc (decimal_len (n div 10)))"

definition status_len :: "vm_status \<Rightarrow> nat" where
  "status_len s = (case s of STATUS_OTHER n \<Rightarrow> (if n < 0 then Suc (decimal_len (nat (- n))) else decimal_len (nat n)) | _ \<Rightarrow> 1)"

text \<open>
  \<open>json.Marshal\<close> of a wrapped block is \<open>{"Block":...,"Status":...}\<close>; when the block has no JSON text the
  error is dropped and the data is nil.
\<close>

definition wrapped_json_len :: "comet \<Rightarrow> WrappedBlock \<Rightarrow> nat" where
  "wrapped_json_len L bw =
     (case blk_JSONLen L (wBlock bw) of None \<Rightarrow> 0 | Some n \<Rightarrow> 9 + n + 10 + status_len (wStatus bw) + 1)"

definition cachedBlockSize :: "comet \<Rightarrow> wheap \<Rightarrow> ids_id \<Rightarrow> wptr \<Rightarrow> int" where
  "cachedBlockSize L h k p = 32 + int (wrapped_json_len L (h p)) + 2 * 8"

definition cachedBlockBytesSize :: "bytes \<Rightarrow> ids_id \<Rightarrow> int" where
  "cachedBlockBytesSize bs k = int (length bs) + 32"

subsection \<open>Storage\<close>

record WrappedBlocksStorage =
  VerifiedBlocks :: "ids_id \<rightharpoonup> wptr"
  DecidedBlocks :: "(ids_id, wptr) slru"
  UnverifiedBlocks :: "(ids_id, wptr) slru"
  MissingBlocks :: "(ids_id, unit) lru"
  BytesToIDCache :: "(bytes, ids_id) slru"
  wHeap :: wheap
  wNext :: wptr

definition NewWrappedBlocksStorage :: "comet \<Rightarrow> wheap \<Rightarrow> WrappedBlocksStorage" where
  "NewWrappedBlocksStorage L h =
     \<lparr>VerifiedBlocks = Map.empty,
      DecidedBlocks = NewSizedLRU (replicate 32 0, 0) 10000 (cachedBlockSize L h),
      UnverifiedBlocks = NewSizedLRU (replicate 32 0, 0) 10000 (cachedBlockSize L h),
      MissingBlocks = \<lparr>elements = None, Size = 10000\<rparr>,
      BytesToIDCache = NewSizedLRU ([], replicate 32 0) 10000 cachedBlockBytesSize,
      wHeap = h, wNext = 0\<rparr>"

definition wb_Flush :: "WrappedBlocksStorage \<Rightarrow> WrappedBlocksStorage" where
  "wb_Flush st = st\<lparr>DecidedBlocks := slru_flush (DecidedBlocks st), MissingBlocks := lru_flush (MissingBlocks st),
     UnverifiedBlocks := slru_flush (UnverifiedBlocks st), BytesToIDCache := slru_flush (BytesToIDCache st)\<rparr>"

definition GetCachedBlock :: "ids_id \<Rightarrow> WrappedBlocksStorage \<Rightarrow> wptr option \<times> WrappedBlocksStorage" where
  "GetCachedBlock blkID st =
     (case VerifiedBlocks st blkID of
        Some p \<Rightarrow> (Some p, st)
      | None \<Rightarrow>
          (case slru_get (DecidedBlocks st) blkID of
             (Some p, c) \<Rightarrow> (Some p, st\<lparr>DecidedBlocks := c\<rparr>)
           | (None, c) \<Rightarrow>
               (case slru_get (UnverifiedBlocks st) blkID of
                  (r, c') \<Rightarrow> (r, st\<lparr>DecidedBlocks := c, UnverifiedBlocks := c'\<rparr>))))"

text \<open>Operations on one of the caches, with sizes read through the heap as it is.\<close>

definition sized :: "comet \<Rightarrow> WrappedBlocksStorage \<Rightarrow> (ids_id, wptr) slru \<Rightarrow> (ids_id, wptr) slru" where
  "sized L st c = c\<lparr>size_fn := cachedBlockSize L (wHeap st)\<rparr>"

definition put_decided :: "comet \<Rightarrow> ids_id \<Rightarrow> wptr \<Rightarrow> WrappedBlocksStorage \<Rightarrow> WrappedBlocksStorage" where
  "put_decided L k p st = st\<lparr>DecidedBlocks := slru_put (sized L st (DecidedBlocks st)) k p\<rparr>"

definition put_unverified :: "comet \<Rightarrow> ids_id \<Rightarrow> wptr \<Rightarrow> WrappedBlocksStorage \<Rightarrow> WrappedBlocksStorage" where
  "put_unverified L k p st = st\<lparr>UnverifiedBlocks := slru_put (sized L st (UnverifiedBlocks st)) k p\<rparr>"

definition evict_unverified :: "comet \<Rightarrow> ids_id \<Rightarrow> WrappedBlocksStorage \<Rightarrow> WrappedBlocksStorage" where
  "evict_unverified L k st = st\<lparr>UnverifiedBlocks := slru_evict (sized L st (UnverifiedBlocks st)) k\<rparr>"

definition evict_missing :: "ids_id \<Rightarrow> WrappedBlocksStorage \<Rightarrow> WrappedBlocksStorage" where
  "evict_missing k st = st\<lparr>MissingBlocks := lru_evict (MissingBlocks st) k\<rparr>"

definition put_missing :: "ids_id \<Rightarrow> WrappedBlocksStorage \<Rightarrow> WrappedBlocksStorage" where
  "put_missing k st = st\<lparr>MissingBlocks := lru_put (MissingBlocks st) k ()\<rparr>"

definition get_missing :: "ids_id \<Rightarrow> WrappedBlocksStorage \<Rightarrow> bool \<times> WrappedBlocksStorage" where
  "get_missing k st = (case lru_get (MissingBlocks st) k of (r, c) \<Rightarrow> (r \<noteq> None, st\<lparr>MissingBlocks := c\<rparr>))"

definition get_bytes_id :: "bytes \<Rightarrow> WrappedBlocksStorage \<Rightarrow> ids_id option \<times> WrappedBlocksStorage" where
  "get_bytes_id bs st = (case slru_get (BytesToIDCache st) bs of (r, c) \<Rightarrow> (r, st\<lparr>BytesToIDCache := c\<rparr>))"

definition put_bytes_id :: "bytes \<Rightarrow> ids_id \<Rightarrow> WrappedBlocksStorage \<Rightarrow> WrappedBlocksStorage" where
  "put_bytes_id bs k st = st\<lparr>BytesToIDCache := slru_put (BytesToIDCache st) bs k\<rparr>"

definition new_wrapped :: "comet_block \<Rightarrow> vm_status \<Rightarrow> WrappedBlocksStorage \<Rightarrow> wptr \<times> WrappedBlocksStorage" where
  "new_wrapped b s st = (wNext st, st\<lparr>wHeap := (wHeap st)(wNext st := \<lparr>wBlock = b, wStatus = s\<rparr>), wNext := Suc (wNext st)\<rparr>)"

definition set_status :: "wptr \<Rightarrow> vm_status \<Rightarrow> WrappedBlocksStorage \<Rightarrow> WrappedBlocksStorage" where
  "set_status p s st = st\<lparr>wHeap := (wHeap st)(p := (wHeap st p)\<lparr>wStatus := s\<rparr>)\<rparr>"

definition verify_block :: "ids_id \<Rightarrow> wptr \<Rightarrow> WrappedBlocksStorage \<Rightarrow> WrappedBlocksStorage" where
  "verify_block k p st = st\<lparr>VerifiedBlocks := (VerifiedBlocks st)(k \<mapsto> p)\<rparr>"

definition unverify_block :: "ids_id \<Rightarrow> WrappedBlocksStorage \<Rightarrow> WrappedBlocksStorage" where
  "unverify_block k st = st\<lparr>VerifiedBlocks := (VerifiedBlocks st)(k := None)\<rparr>"


declare decimal_len.simps [simp del]

subsection \<open>What the storage holds\<close>

definition decided :: "WrappedBlocksStorage \<Rightarrow> ids_id \<rightharpoonup> wptr" where
  "decided st = slru_contents (DecidedBlocks st)"

definition unverified :: "WrappedBlocksStorage \<Rightarrow> ids_id \<rightharpoonup> wptr" where
  "unverified st = slru_contents (UnverifiedBlocks st)"

definition missing :: "WrappedBlocksStorage \<Rightarrow> ids_id set" where
  "missing st = dom (lru_contents (MissingBlocks st))"

definition bytes_ids :: "WrappedBlocksStorage \<Rightarrow> bytes \<rightharpoonup> ids_id" where
  "bytes_ids st = slru_contents (BytesToIDCache st)"

definition lookup :: "WrappedBlocksStorage \<Rightarrow> ids_id \<rightharpoonup> wptr" where
  "lookup st k = (case VerifiedBlocks st k of Some p \<Rightarrow> Some p | None \<Rightarrow> (case decided st k of Some p \<Rightarrow> Some p | None \<Rightarrow> unverified st k))"

definition plain :: "vm_status \<Rightarrow> bool" where
  "plain s \<longleftrightarrow> s = STATUS_PROCESSING \<or> s = STATUS_REJECTED \<or> s = STATUS_ACCEPTED"

text \<open>
  Every pointer in a cache is allocated and points to a block with the hash it is filed under; the blocks in the sized
  caches have one of the three plain statuses, so that their sizes do not change when a status does; an id
  cached for some bytes is the hash of the block they decode to.
\<close>

definition good :: "comet \<Rightarrow> WrappedBlocksStorage \<Rightarrow> ids_id \<Rightarrow> wptr \<Rightarrow> bool" where
  "good L st k p \<longleftrightarrow> p < wNext st \<and> blk_Hash L (wBlock (wHeap st p)) = k \<and> length k = 32"

definition wb_inv :: "comet \<Rightarrow> WrappedBlocksStorage \<Rightarrow> bool" where
  "wb_inv L st \<longleftrightarrow> slru_inv (sized L st (DecidedBlocks st)) \<and> slru_inv (sized L st (UnverifiedBlocks st))
     \<and> slru_inv (BytesToIDCache st) \<and> lru_inv (MissingBlocks st)
     \<and> (\<forall>k p. VerifiedBlocks st k = Some p \<longrightarrow> good L st k p)
     \<and> (\<forall>k p. decided st k = Some p \<longrightarrow> good L st k p \<and> plain (wStatus (wHeap st p)))
     \<and> (\<forall>k p. unverified st k = Some p \<longrightarrow> good L st k p \<and> plain (wStatus (wHeap st p)))
     \<and> (\<forall>bs k. bytes_ids st bs = Some k \<longrightarrow> length k = 32 \<and> (\<exists>b s. DecodeBlockWithStatus L bs = Inr (b, s) \<and> blk_Hash L b = k))"

lemma wb_inv_lookup: "\<lbrakk>wb_inv L st; lookup st k = Some p\<rbrakk> \<Longrightarrow> good L st k p"
  by (auto simp: wb_inv_def lookup_def split: option.splits)

subsection \<open>Sizes through the heap\<close>

lemma sized_simps [simp]:
  "s_elements (sized L st c) = s_elements c" "slru_al (sized L st c) = slru_al c" "slru_contents (sized L st c) = slru_contents c"
  "size_fn (sized L st c) = cachedBlockSize L (wHeap st)" "maxSize (sized L st c) = maxSize c"
  "currentSize (sized L st c) = currentSize c"
  by (simp_all add: sized_def slru_al_def slru_contents_def)

lemma sized_id: "size_fn c = cachedBlockSize L (wHeap st) \<Longrightarrow> sized L st c = c"
  by (simp add: sized_def)

lemma plain_len: "\<lbrakk>plain s; plain s'\<rbrakk> \<Longrightarrow> status_len s = status_len s'"
  by (auto simp: plain_def status_len_def)

lemma al_size_cong: "(\<And>k v. (k, v) \<in> set al \<Longrightarrow> f k v = g k v) \<Longrightarrow> al_size f al = al_size g al"
  by (auto simp: al_size_def intro!: arg_cong [where f = sum_list])

lemma slru_inv_resized:
  assumes "slru_inv (sized L st c)"
    and "\<And>k p. slru_contents c k = Some p \<Longrightarrow> wrapped_json_len L (wHeap st' p) = wrapped_json_len L (wHeap st p)"
  shows "slru_inv (sized L st' c)"
proof -
  have lh: "lh_inv (s_elements c)" using assms(1) by (simp add: slru_inv_def)
  have "slru_contents c k = Some p" if "(k, p) \<in> set (slru_al c)" for k p
    using that lhm.keys_distinct [OF lh] by (simp add: slru_contents_def slru_al_def)
  then have "wrapped_json_len L (wHeap st' p) = wrapped_json_len L (wHeap st p)" if "(k, p) \<in> set (slru_al c)" for k p
    using that assms(2) by blast
  then have "al_size (cachedBlockSize L (wHeap st')) (slru_al c) = al_size (cachedBlockSize L (wHeap st)) (slru_al c)"
    by (intro al_size_cong) (simp add: cachedBlockSize_def)
  then show ?thesis using assms(1) by (simp add: slru_inv_def cachedBlockSize_def)
qed

lemma slru_evict_size [simp]: "size_fn (slru_evict c k) = size_fn c"
  by (simp add: slru_evict_def split: option.split)

lemma slru_get_sized: "slru_get (sized L st c) k = apsnd (sized L st) (slru_get c k)"
  by (simp add: slru_get_def sized_def split: option.split)

lemma sized_frame:
  "wHeap st = wHeap st' \<Longrightarrow> sized L st c = sized L st' c"
  by (simp add: sized_def)

lemma get_sized_contents:
  assumes "slru_inv (sized L st c)"
  shows "fst (slru_get c k) = slru_contents c k" "slru_contents (snd (slru_get c k)) = slru_contents c"
    "slru_inv (sized L st (snd (slru_get c k)))"
  using slruc.fst_Get [OF assms, of k] slruc.contents_Get [OF assms, of k] slruc.invar_Get [OF assms, of k]
  by (simp_all add: slru_get_sized)

subsection \<open>The operations keep the invariant\<close>

text \<open>Two storages with the same contents: only the recency order of the caches differs.\<close>

definition same :: "WrappedBlocksStorage \<Rightarrow> WrappedBlocksStorage \<Rightarrow> bool" where
  "same st st' \<longleftrightarrow> VerifiedBlocks st' = VerifiedBlocks st \<and> decided st' = decided st \<and> unverified st' = unverified st
     \<and> missing st' = missing st \<and> bytes_ids st' = bytes_ids st \<and> wHeap st' = wHeap st \<and> wNext st' = wNext st"

lemma same_refl [simp]: "same st st"
  by (simp add: same_def)

lemma same_trans: "\<lbrakk>same a b; same b c\<rbrakk> \<Longrightarrow> same a c"
  by (simp add: same_def)

lemma same_lookup: "same st st' \<Longrightarrow> lookup st' = lookup st"
  unfolding same_def by (intro ext) (simp add: lookup_def cong: option.case_cong)

lemma GetCachedBlock_spec:
  assumes "wb_inv L st"
  shows "fst (GetCachedBlock k st) = lookup st k" "same st (snd (GetCachedBlock k st))" "wb_inv L (snd (GetCachedBlock k st))"
proof -
  have d: "slru_inv (sized L st (DecidedBlocks st))" and u: "slru_inv (sized L st (UnverifiedBlocks st))"
    using assms by (simp_all add: wb_inv_def)
  note D = get_sized_contents [OF d, of k] and U = get_sized_contents [OF u, of k]
  show "fst (GetCachedBlock k st) = lookup st k"
    using D(1) U(1) by (simp add: GetCachedBlock_def lookup_def decided_def unverified_def split_def split: option.split)
  show s: "same st (snd (GetCachedBlock k st))"
    using D(2) U(2)
    by (simp add: GetCachedBlock_def same_def decided_def unverified_def missing_def bytes_ids_def split_def split: option.split)
  have "slru_inv (sized L st (DecidedBlocks (snd (GetCachedBlock k st))))"
    "slru_inv (sized L st (UnverifiedBlocks (snd (GetCachedBlock k st))))"
    using D(3) U(3) d u by (simp_all add: GetCachedBlock_def split_def split: option.split)
  moreover have "BytesToIDCache (snd (GetCachedBlock k st)) = BytesToIDCache st"
    "MissingBlocks (snd (GetCachedBlock k st)) = MissingBlocks st"
    by (simp_all add: GetCachedBlock_def split_def split: option.split)
  moreover have "sized L (snd (GetCachedBlock k st)) = sized L st"
    using s by (auto simp: same_def intro: sized_frame)
  ultimately show "wb_inv L (snd (GetCachedBlock k st))"
    using assms s by (simp add: wb_inv_def same_def good_def)
qed

lemma get_missing_spec:
  assumes "wb_inv L st"
  shows "fst (get_missing k st) \<longleftrightarrow> k \<in> missing st" "same st (snd (get_missing k st))" "wb_inv L (snd (get_missing k st))"
proof -
  have m: "lru_inv (MissingBlocks st)" using assms by (simp add: wb_inv_def)
  note M = lruc.fst_Get [OF m, of k] lruc.contents_Get [OF m, of k] lruc.invar_Get [OF m, of k]
  show "fst (get_missing k st) \<longleftrightarrow> k \<in> missing st" using M(1) by (simp add: get_missing_def missing_def split_def domIff)
  show "same st (snd (get_missing k st))"
    using M(2) by (simp add: get_missing_def same_def missing_def decided_def unverified_def bytes_ids_def split_def)
  then show "wb_inv L (snd (get_missing k st))"
    using assms M(3) by (simp add: wb_inv_def same_def good_def get_missing_def split_def sized_def)
qed

lemma get_bytes_id_spec:
  assumes "wb_inv L st"
  shows "fst (get_bytes_id bs st) = bytes_ids st bs" "same st (snd (get_bytes_id bs st))" "wb_inv L (snd (get_bytes_id bs st))"
proof -
  have m: "slru_inv (BytesToIDCache st)" using assms by (simp add: wb_inv_def)
  note M = slruc.fst_Get [OF m, of bs] slruc.contents_Get [OF m, of bs] slruc.invar_Get [OF m, of bs]
  show "fst (get_bytes_id bs st) = bytes_ids st bs" using M(1) by (simp add: get_bytes_id_def bytes_ids_def split_def)
  show "same st (snd (get_bytes_id bs st))"
    using M(2) by (simp add: get_bytes_id_def same_def missing_def decided_def unverified_def bytes_ids_def split_def)
  then show "wb_inv L (snd (get_bytes_id bs st))"
    using assms M(3) by (simp add: wb_inv_def same_def good_def get_bytes_id_def split_def sized_def)
qed

lemma map_le_Some: "\<lbrakk>m \<subseteq>\<^sub>m m'; m k = Some v\<rbrakk> \<Longrightarrow> m' k = Some v"
  unfolding map_le_def by (metis domI)

lemma wb_frame [simp]:
  "decided (st\<lparr>UnverifiedBlocks := c\<rparr>) = decided st" "decided (st\<lparr>MissingBlocks := m\<rparr>) = decided st"
  "decided (st\<lparr>BytesToIDCache := b\<rparr>) = decided st" "decided (st\<lparr>VerifiedBlocks := v\<rparr>) = decided st"
  "decided (st\<lparr>wHeap := h\<rparr>) = decided st" "decided (st\<lparr>wNext := n\<rparr>) = decided st"
  "unverified (st\<lparr>DecidedBlocks := c\<rparr>) = unverified st" "unverified (st\<lparr>MissingBlocks := m\<rparr>) = unverified st"
  "unverified (st\<lparr>BytesToIDCache := b\<rparr>) = unverified st" "unverified (st\<lparr>VerifiedBlocks := v\<rparr>) = unverified st"
  "unverified (st\<lparr>wHeap := h\<rparr>) = unverified st" "unverified (st\<lparr>wNext := n\<rparr>) = unverified st"
  "missing (st\<lparr>DecidedBlocks := c\<rparr>) = missing st" "missing (st\<lparr>UnverifiedBlocks := c\<rparr>) = missing st"
  "missing (st\<lparr>BytesToIDCache := b\<rparr>) = missing st" "missing (st\<lparr>VerifiedBlocks := v\<rparr>) = missing st"
  "missing (st\<lparr>wHeap := h\<rparr>) = missing st" "missing (st\<lparr>wNext := n\<rparr>) = missing st"
  "bytes_ids (st\<lparr>DecidedBlocks := c\<rparr>) = bytes_ids st" "bytes_ids (st\<lparr>UnverifiedBlocks := c\<rparr>) = bytes_ids st"
  "bytes_ids (st\<lparr>MissingBlocks := m\<rparr>) = bytes_ids st" "bytes_ids (st\<lparr>VerifiedBlocks := v\<rparr>) = bytes_ids st"
  "bytes_ids (st\<lparr>wHeap := h\<rparr>) = bytes_ids st" "bytes_ids (st\<lparr>wNext := n\<rparr>) = bytes_ids st"
  "sized L (st\<lparr>DecidedBlocks := c\<rparr>) = sized L st" "sized L (st\<lparr>UnverifiedBlocks := c\<rparr>) = sized L st"
  "sized L (st\<lparr>MissingBlocks := m\<rparr>) = sized L st" "sized L (st\<lparr>VerifiedBlocks := v\<rparr>) = sized L st"
  "sized L (st\<lparr>BytesToIDCache := b\<rparr>) = sized L st" "sized L (st\<lparr>wNext := n\<rparr>) = sized L st"
  "good L (st\<lparr>DecidedBlocks := c\<rparr>) = good L st" "good L (st\<lparr>UnverifiedBlocks := c\<rparr>) = good L st"
  "good L (st\<lparr>MissingBlocks := m\<rparr>) = good L st" "good L (st\<lparr>VerifiedBlocks := v\<rparr>) = good L st"
  "good L (st\<lparr>BytesToIDCache := b\<rparr>) = good L st"
  by (auto simp: decided_def unverified_def missing_def bytes_ids_def sized_def good_def fun_eq_iff)

lemma put_decided_spec:
  assumes "wb_inv L st" "good L st k p" "plain (wStatus (wHeap st p))"
  shows "wb_inv L (put_decided L k p st)" "decided (put_decided L k p st) \<subseteq>\<^sub>m (decided st)(k \<mapsto> p)"
proof -
  have d: "slru_inv (sized L st (DecidedBlocks st))" using assms(1) by (simp add: wb_inv_def)
  have c: "slru_inv (slru_put (sized L st (DecidedBlocks st)) k p)" by (rule slruc.invar_Put [OF d])
  show le: "decided (put_decided L k p st) \<subseteq>\<^sub>m (decided st)(k \<mapsto> p)"
    using slruc.contents_Put [OF d, of k p] by (simp add: put_decided_def decided_def)
  have "good L st j q \<and> plain (wStatus (wHeap st q))" if "decided (put_decided L k p st) j = Some q" for j q
    using map_le_Some [OF le that] assms by (auto simp: wb_inv_def split: if_splits)
  then show "wb_inv L (put_decided L k p st)"
    using assms(1) c by (simp add: wb_inv_def put_decided_def sized_id)
qed

lemma put_unverified_spec:
  assumes "wb_inv L st" "good L st k p" "plain (wStatus (wHeap st p))"
  shows "wb_inv L (put_unverified L k p st)" "unverified (put_unverified L k p st) \<subseteq>\<^sub>m (unverified st)(k \<mapsto> p)"
proof -
  have d: "slru_inv (sized L st (UnverifiedBlocks st))" using assms(1) by (simp add: wb_inv_def)
  have c: "slru_inv (slru_put (sized L st (UnverifiedBlocks st)) k p)" by (rule slruc.invar_Put [OF d])
  show le: "unverified (put_unverified L k p st) \<subseteq>\<^sub>m (unverified st)(k \<mapsto> p)"
    using slruc.contents_Put [OF d, of k p] by (simp add: put_unverified_def unverified_def)
  have "good L st j q \<and> plain (wStatus (wHeap st q))" if "unverified (put_unverified L k p st) j = Some q" for j q
    using map_le_Some [OF le that] assms by (auto simp: wb_inv_def split: if_splits)
  then show "wb_inv L (put_unverified L k p st)"
    using assms(1) c by (simp add: wb_inv_def put_unverified_def sized_id)
qed

lemma evict_unverified_spec:
  assumes "wb_inv L st"
  shows "wb_inv L (evict_unverified L k st)" "unverified (evict_unverified L k st) = (unverified st)(k := None)"
proof -
  have d: "slru_inv (sized L st (UnverifiedBlocks st))" using assms by (simp add: wb_inv_def)
  have c: "slru_inv (slru_evict (sized L st (UnverifiedBlocks st)) k)" by (rule slruc.invar_Evict [OF d])
  show e: "unverified (evict_unverified L k st) = (unverified st)(k := None)"
    using slruc.contents_Evict [OF d, of k] by (simp add: evict_unverified_def unverified_def)
  then have "good L st j q \<and> plain (wStatus (wHeap st q))" if "unverified (evict_unverified L k st) j = Some q" for j q
    using that assms by (auto simp: wb_inv_def split: if_splits)
  then show "wb_inv L (evict_unverified L k st)"
    using assms c by (simp add: wb_inv_def evict_unverified_def sized_id)
qed

lemma missing_ops_spec:
  assumes "wb_inv L st"
  shows "wb_inv L (evict_missing k st)" "missing (evict_missing k st) = missing st - {k}"
    "wb_inv L (put_missing k st)" "missing (put_missing k st) \<subseteq> insert k (missing st)"
proof -
  have m: "lru_inv (MissingBlocks st)" using assms by (simp add: wb_inv_def)
  show "wb_inv L (evict_missing k st)" "wb_inv L (put_missing k st)"
    using assms lruc.invar_Evict [OF m, of k] lruc.invar_Put [OF m, of k "()"]
    by (simp_all add: wb_inv_def evict_missing_def put_missing_def)
  show "missing (evict_missing k st) = missing st - {k}"
    using lruc.contents_Evict [OF m, of k] by (simp add: missing_def evict_missing_def)
  show "missing (put_missing k st) \<subseteq> insert k (missing st)"
    using map_le_implies_dom_le [OF lruc.contents_Put [OF m, of k "()"]] by (simp add: missing_def put_missing_def)
qed

lemma put_bytes_id_spec:
  assumes "wb_inv L st" "length k = 32" "DecodeBlockWithStatus L bs = Inr (b, s)" "blk_Hash L b = k"
  shows "wb_inv L (put_bytes_id bs k st)"
proof -
  have m: "slru_inv (BytesToIDCache st)" using assms(1) by (simp add: wb_inv_def)
  have le: "bytes_ids (put_bytes_id bs k st) \<subseteq>\<^sub>m (bytes_ids st)(bs \<mapsto> k)"
    using slruc.contents_Put [OF m, of bs k] by (simp add: bytes_ids_def put_bytes_id_def)
  have "length j = 32 \<and> (\<exists>b s. DecodeBlockWithStatus L cs = Inr (b, s) \<and> blk_Hash L b = j)"
    if "bytes_ids (put_bytes_id bs k st) cs = Some j" for cs j
    using map_le_Some [OF le that] assms by (auto simp: wb_inv_def split: if_splits)
  then show ?thesis
    using assms(1) slruc.invar_Put [OF m, of bs k] by (simp add: wb_inv_def put_bytes_id_def)
qed

lemma heap_change_inv:
  assumes "wb_inv L st" "wNext st \<le> wNext st'"
    and "VerifiedBlocks st' = VerifiedBlocks st" "DecidedBlocks st' = DecidedBlocks st" "UnverifiedBlocks st' = UnverifiedBlocks st"
      "MissingBlocks st' = MissingBlocks st" "BytesToIDCache st' = BytesToIDCache st"
    and "\<And>q. q < wNext st \<Longrightarrow> wBlock (wHeap st' q) = wBlock (wHeap st q)
      \<and> (wStatus (wHeap st' q) = wStatus (wHeap st q) \<or> plain (wStatus (wHeap st' q)))"
  shows "wb_inv L st'"
proof -
  have v: "decided st' = decided st" "unverified st' = unverified st" "missing st' = missing st" "bytes_ids st' = bytes_ids st"
    using assms(4-7) by (simp_all add: decided_def unverified_def missing_def bytes_ids_def)
  have g: "good L st' k q" if "good L st k q" for k q
    using that assms(2) assms(8) [of q] by (auto simp: good_def)
  have p: "plain (wStatus (wHeap st' q))" if "good L st k q" "plain (wStatus (wHeap st q))" for k q
    using that assms(8) [of q] by (auto simp: good_def)
  have len: "wrapped_json_len L (wHeap st' q) = wrapped_json_len L (wHeap st q)" if "good L st k q" "plain (wStatus (wHeap st q))" for k q
    using assms(8) [of q] p [OF that] that plain_len [of "wStatus (wHeap st' q)" "wStatus (wHeap st q)"]
    by (auto simp: wrapped_json_len_def good_def split: option.split)
  have held: "slru_inv (sized L st (DecidedBlocks st))" "slru_inv (sized L st (UnverifiedBlocks st))"
    "slru_contents (DecidedBlocks st) k = Some q \<Longrightarrow> good L st k q \<and> plain (wStatus (wHeap st q))"
    "slru_contents (UnverifiedBlocks st) k = Some q \<Longrightarrow> good L st k q \<and> plain (wStatus (wHeap st q))" for k q
    using assms(1) by (simp_all add: wb_inv_def decided_def unverified_def)
  have "slru_inv (sized L st' (DecidedBlocks st))" "slru_inv (sized L st' (UnverifiedBlocks st))"
    by (rule slru_inv_resized [OF held(1)], use len held(3) in blast, rule slru_inv_resized [OF held(2)], use len held(4) in blast)
  moreover have "decided st k = Some q \<Longrightarrow> good L st' k q \<and> plain (wStatus (wHeap st' q))"
    "unverified st k = Some q \<Longrightarrow> good L st' k q \<and> plain (wStatus (wHeap st' q))"
    "VerifiedBlocks st k = Some q \<Longrightarrow> good L st' k q" for k q
    using assms(1) g p unfolding wb_inv_def by blast+
  ultimately show ?thesis
    using assms(1,3-7) unfolding wb_inv_def v by simp
qed

lemma new_wrapped_spec:
  assumes "wb_inv L st"
  shows "wb_inv L (snd (new_wrapped b s st))" "wHeap (snd (new_wrapped b s st)) (fst (new_wrapped b s st)) = \<lparr>wBlock = b, wStatus = s\<rparr>"
    "length (blk_Hash L b) = 32 \<Longrightarrow> good L (snd (new_wrapped b s st)) (blk_Hash L b) (fst (new_wrapped b s st))"
proof -
  show "wb_inv L (snd (new_wrapped b s st))"
    by (rule heap_change_inv [OF assms]) (auto simp: new_wrapped_def)
qed (simp_all add: new_wrapped_def good_def)

lemma set_status_spec:
  assumes "wb_inv L st" "plain s"
  shows "wb_inv L (set_status p s st)"
  by (rule heap_change_inv [OF assms(1)]) (auto simp: set_status_def assms(2))

lemma verify_block_spec: "\<lbrakk>wb_inv L st; good L st k p\<rbrakk> \<Longrightarrow> wb_inv L (verify_block k p st)"
  by (auto simp: wb_inv_def verify_block_def split: if_splits)

lemma unverify_block_spec: "wb_inv L st \<Longrightarrow> wb_inv L (unverify_block k st)"
  by (auto simp: wb_inv_def unverify_block_def split: if_splits)

lemma NewSizedLRU_contents [simp]: "slru_contents (NewSizedLRU z m f) = Map.empty"
  by (simp add: slru_contents_def slru_al_def NewSizedLRU_def lhm.al_new)

lemma NewWrappedBlocksStorage_inv: "wb_inv L (NewWrappedBlocksStorage L h)"
proof -
  have "slru_inv (NewSizedLRU (replicate 32 0, 0) 10000 (cachedBlockSize L h))" "slru_inv (NewSizedLRU ([], replicate 32 0) 10000 cachedBlockBytesSize)"
    using NewSizedLRU_spec(1) [of "cachedBlockSize L h" 10000 "(replicate 32 0, 0)"]
      NewSizedLRU_spec(1) [of cachedBlockBytesSize 10000 "([], replicate 32 0)"]
    by (simp_all add: slru_exact_def cachedBlockSize_def cachedBlockBytesSize_def)
  moreover have "sized L (NewWrappedBlocksStorage L h) (NewSizedLRU z m (cachedBlockSize L h)) = NewSizedLRU z m (cachedBlockSize L h)" for z m
    by (simp add: sized_def NewSizedLRU_def NewWrappedBlocksStorage_def)
  moreover have "DecidedBlocks (NewWrappedBlocksStorage L h) = NewSizedLRU (replicate 32 0, 0) 10000 (cachedBlockSize L h)"
    "UnverifiedBlocks (NewWrappedBlocksStorage L h) = NewSizedLRU (replicate 32 0, 0) 10000 (cachedBlockSize L h)"
    "BytesToIDCache (NewWrappedBlocksStorage L h) = NewSizedLRU ([], replicate 32 0) 10000 cachedBlockBytesSize"
    "lru_inv (MissingBlocks (NewWrappedBlocksStorage L h))" "VerifiedBlocks (NewWrappedBlocksStorage L h) = Map.empty"
    by (simp_all add: NewWrappedBlocksStorage_def lru_fresh_inv)
  ultimately show ?thesis
    by (simp add: wb_inv_def decided_def unverified_def bytes_ids_def)
qed

end
