(* ===== verification/Landslide_VM.thy ===== *)
theory Landslide_VM
  imports Block_Executor Wrapped_Blocks
begin

text \<open>
  The handlers of the virtual machine, \<open>vm/vm.go\<close>, on an initialised machine: a handler is a procedure on
  the state of the machine, which contains the block caches and the list of calls made to the code
  outside. Logging is left out. Times read from the clock and random bytes are arguments.
\<close>

subsection \<open>State\<close>

datatype service = IndexerService | EventBus | AppConns | StateStore | BlockStore

text \<open>\<open>closedChan\<close> is the channel \<open>closed\<close>: nil, open or closed.\<close>

record LandslideVM =
  allowShutdown :: "bool Atomic"
  bootstrapped :: "bool Atomic"
  vmenabled :: "bool Atomic"
  vmconnected :: "bool Atomic"
  vmState :: "vm_state Atomic"
  closedChan :: "bool option"
  services :: "service list"
  serverCloser :: ServerCloser
  connCloser :: "nat Closer"
  preferred :: bytes
  vmConfig :: VMConfig
  cState :: comet_state
  wrappedBlocks :: WrappedBlocksStorage
  vmCalls :: calls

datatype vm_err = NotFoundErr | UnknownStateErr | LibErr nat | BadID | ExecErr exec_err
  | UnexpectedStatus ids_id vm_status | StateStoreErr nat | Joined "nat list" | NotImplemented nat | ConfigErr config_err

type_synonym 'a handler = "(LandslideVM, vm_err, 'a) proc"

definition lift_exec :: "'a exec \<Rightarrow> 'a handler" where
  "lift_exec m v =
     (case m (vmCalls v) of
        (Panic, tr) \<Rightarrow> (Panic, v\<lparr>vmCalls := tr\<rparr>)
      | (Fail e, tr) \<Rightarrow> (Fail (ExecErr e), v\<lparr>vmCalls := tr\<rparr>)
      | (Done x, tr) \<Rightarrow> (Done x, v\<lparr>vmCalls := tr\<rparr>))"

definition with_blocks :: "(WrappedBlocksStorage \<Rightarrow> 'a \<times> WrappedBlocksStorage) \<Rightarrow> 'a handler" where
  "with_blocks f v = (case f (wrappedBlocks v) of (x, st) \<Rightarrow> (Done x, v\<lparr>wrappedBlocks := st\<rparr>))"

definition on_blocks :: "(WrappedBlocksStorage \<Rightarrow> WrappedBlocksStorage) \<Rightarrow> unit handler" where
  "on_blocks f v = (Done (), v\<lparr>wrappedBlocks := f (wrappedBlocks v)\<rparr>)"

definition p_ToID :: "bytes \<Rightarrow> ids_id handler" where
  "p_ToID bs = (case ToID bs of None \<Rightarrow> p_fail BadID | Some k \<Rightarrow> p_ret k)"

definition deref :: "wptr \<Rightarrow> WrappedBlock handler" where
  "deref p = p_get (\<lambda>v. wHeap (wrappedBlocks v) p)"

definition NewViaDB :: "comet \<Rightarrow> wheap \<Rightarrow> LandslideVM \<Rightarrow> LandslideVM" where
  "NewViaDB L h v = v\<lparr>allowShutdown := NewAtomic False, vmenabled := NewAtomic False, vmState := NewAtomic STATE_UNSPECIFIED,
     vmconnected := NewAtomic False, bootstrapped := NewAtomic False, wrappedBlocks := NewWrappedBlocksStorage L h\<rparr>"

definition vm_executor :: "LandslideVM \<Rightarrow> BlockExecutor" where
  "vm_executor v = (let c = cfgConsensusParams (vmConfig v) in NewBlockExecutor (Block_MaxBytes c) (Block_MaxGas c) (Evidence_MaxBytes c))"

definition proposerAddress :: bytes where
  "proposerAddress = replicate 20 0"

definition hash_bytes :: "block_id \<Rightarrow> bytes" where
  "hash_bytes bid = (case bidHash bid of None \<Rightarrow> [] | Some h \<Rightarrow> h)"

definition block_id_of :: "comet \<Rightarrow> comet_block \<Rightarrow> part_set_header \<Rightarrow> block_id" where
  "block_id_of L b psh = \<lparr>bidHash = Some (blk_Hash L b), bidParts = psh\<rparr>"

subsection \<open>Responses\<close>

record accepted_info =
  raLastAcceptedId :: bytes
  raLastAcceptedParentId :: bytes
  raHeight :: uint64
  raBytes :: bytes
  raTimestamp :: gotime

record build_response =
  rbId :: bytes
  rbParentId :: bytes
  rbBytes :: bytes
  rbHeight :: uint64
  rbTimestamp :: gotime

record parse_response =
  rpId :: bytes
  rpParentId :: bytes
  rpStatus :: vm_status
  rpHeight :: uint64
  rpTimestamp :: gotime

record block_response =
  rgParentId :: bytes
  rgBytes :: bytes
  rgStatus :: vm_status
  rgHeight :: uint64
  rgTimestamp :: gotime

text \<open>\<open>None\<close> is a response that only carries \<open>ERROR_NOT_FOUND\<close>.\<close>

type_synonym get_response = "block_response option"

subsection \<open>Control\<close>

definition SetState :: "comet \<Rightarrow> outside \<Rightarrow> vm_state \<Rightarrow> accepted_info handler" where
  "SetState L X st =
     p_bind (case st of
         STATE_BOOTSTRAPPING \<Rightarrow> p_upd (\<lambda>v. v\<lparr>bootstrapped := at_Set False (bootstrapped v)\<rparr>)
       | STATE_NORMAL_OP \<Rightarrow> p_upd (\<lambda>v. v\<lparr>bootstrapped := at_Set True (bootstrapped v)\<rparr>)
       | _ \<Rightarrow> p_fail UnknownStateErr) (\<lambda>_.
     p_bind (p_get (\<lambda>v. bs_LoadBlock X (vmCalls v) (sLastBlockHeight (cState v)))) (\<lambda>blk.
     case blk of
       None \<Rightarrow> p_fail NotFoundErr
     | Some b \<Rightarrow>
         (case ParentHash b of
            None \<Rightarrow> p_panic
          | Some parent \<Rightarrow>
              p_bind (p_get (\<lambda>v. st_Bytes L (cState v))) (\<lambda>bs.
              p_bind (p_upd (\<lambda>v. v\<lparr>vmState := at_Set st (vmState v)\<rparr>)) (\<lambda>_.
              p_ret \<lparr>raLastAcceptedId = blk_Hash L b, raLastAcceptedParentId = parent, raHeight = of_int (bHeight b),
                raBytes = bs, raTimestamp = bTime b\<rparr>)))))"

definition CanShutdown :: "LandslideVM \<Rightarrow> bool" where
  "CanShutdown v = at_Get (allowShutdown v)"

text \<open>\<open>stop\<close> is what stopping a service reports, \<open>close\<close> what closing a connection reports. Closing a closed channel panics.\<close>

definition Shutdown :: "(service \<Rightarrow> nat option) \<Rightarrow> (nat \<Rightarrow> nat option) \<Rightarrow> unit handler" where
  "Shutdown stop close =
     p_bind (p_upd (\<lambda>v. v\<lparr>allowShutdown := at_Set True (allowShutdown v)\<rparr>)) (\<lambda>_.
     p_bind (p_get closedChan) (\<lambda>ch.
     p_bind (case ch of
         None \<Rightarrow> p_ret ()
       | Some closed \<Rightarrow> if closed then p_panic else p_upd (\<lambda>v. v\<lparr>closedChan := Some True\<rparr>)) (\<lambda>_.
     p_bind (p_get (\<lambda>v. List.map_filter stop (filter (\<lambda>s. s \<in> set (services v)) [IndexerService, EventBus, AppConns, StateStore, BlockStore]))) (\<lambda>errs.
     p_bind (p_upd (\<lambda>v. v\<lparr>serverCloser := snd (sc_Stop (serverCloser v))\<rparr>)) (\<lambda>_.
     p_bind (p_get (\<lambda>v. fst (closer_Close close (connCloser v)))) (\<lambda>cerrs.
     p_bind (p_upd (\<lambda>v. v\<lparr>connCloser := snd (closer_Close close (connCloser v))\<rparr>)) (\<lambda>_.
     p_check (if errs @ cerrs = [] then None else Some (Joined (errs @ cerrs))))))))))"

definition Connected :: "unit handler" where
  "Connected = p_upd (\<lambda>v. v\<lparr>vmconnected := at_Set True (vmconnected v)\<rparr>)"

definition Disconnected :: "unit handler" where
  "Disconnected = p_upd (\<lambda>v. v\<lparr>vmconnected := at_Set False (vmconnected v)\<rparr>)"

definition SetPreference :: "bytes \<Rightarrow> unit handler" where
  "SetPreference bs = (case to_array32 bs of None \<Rightarrow> p_panic | Some k \<Rightarrow> p_upd (\<lambda>v. v\<lparr>preferred := k\<rparr>))"

definition StateSyncEnabled :: "bool handler" where
  "StateSyncEnabled = p_get (\<lambda>v. at_Get (vmenabled v))"

subsection \<open>Building, parsing and reading blocks\<close>

text \<open>Every validator signs nil for the last block, with the time of the clock and a random signature.\<close>

definition last_commit :: "comet_state \<Rightarrow> (nat \<Rightarrow> gotime) \<Rightarrow> (nat \<Rightarrow> bytes) \<Rightarrow> ext_commit" where
  "last_commit s now rnd =
     \<lparr>ecHeight = sLastBlockHeight s, ecRound = 0, ecBlockID = sLastBlockID s, ecSignatures =
        map (\<lambda>(i, val). \<lparr>ecsSig = \<lparr>csFlag = FlagNil, csAddress = valAddress val, csTime = now i, csSignature = rnd i\<rparr>,
          ecsExtension = [], ecsExtensionSignature = []\<rparr>) (List.enumerate 0 (sValidators s))\<rparr>"

definition file_built :: "comet \<Rightarrow> comet_block \<Rightarrow> build_response handler" where
  "file_built L b =
     p_bind (p_of LibErr (EncodeBlockWithStatus L b STATUS_PROCESSING)) (\<lambda>blkBytes.
     p_bind (p_ToID (blk_Hash L b)) (\<lambda>blkID.
     p_bind (with_blocks (new_wrapped b STATUS_PROCESSING)) (\<lambda>p.
     p_bind (on_blocks (put_unverified L blkID p)) (\<lambda>_.
     p_bind (on_blocks (evict_missing blkID)) (\<lambda>_.
     p_ret \<lparr>rbId = blk_Hash L b, rbParentId = hash_bytes (bLastBlockID b), rbBytes = blkBytes,
       rbHeight = of_int (bHeight b), rbTimestamp = bTime b\<rparr>)))))"

definition BuildBlock :: "comet \<Rightarrow> outside \<Rightarrow> (nat \<Rightarrow> gotime) \<Rightarrow> (nat \<Rightarrow> bytes) \<Rightarrow> build_response handler" where
  "BuildBlock L X now rnd =
     p_bind (p_get id) (\<lambda>v.
     let s = cState v in
     p_bind (lift_exec (CreateProposalBlock L X (vm_executor v) (wrap64 (sLastBlockHeight s + 1)) s (last_commit s now rnd) proposerAddress)) (\<lambda>b.
     file_built L b))"

definition parse_answer :: "comet \<Rightarrow> comet_block \<Rightarrow> vm_status \<Rightarrow> parse_response" where
  "parse_answer L b s = \<lparr>rpId = blk_Hash L b, rpParentId = hash_bytes (bLastBlockID b), rpStatus = s,
     rpHeight = of_int (bHeight b), rpTimestamp = bTime b\<rparr>"

text \<open>
  When the id of the bytes is cached the block is not decoded: it stays nil and its status unspecified
  until a cached block is found.
\<close>

definition parse_id :: "comet \<Rightarrow> bytes \<Rightarrow> (ids_id \<times> (comet_block \<times> vm_status) option) handler" where
  "parse_id L bs =
     p_bind (with_blocks (get_bytes_id bs)) (\<lambda>cached.
     case cached of
       Some blkID \<Rightarrow> p_ret (blkID, None)
     | None \<Rightarrow>
         p_bind (p_of LibErr (DecodeBlockWithStatus L bs)) (\<lambda>(b, s).
         p_bind (p_ToID (blk_Hash L b)) (\<lambda>blkID.
         p_bind (on_blocks (put_bytes_id bs blkID)) (\<lambda>_. p_ret (blkID, Some (b, s))))))"

definition ParseBlock :: "comet \<Rightarrow> bytes \<Rightarrow> parse_response handler" where
  "ParseBlock L bs =
     p_bind (parse_id L bs) (\<lambda>(blkID, decoded).
     p_bind (with_blocks (GetCachedBlock blkID)) (\<lambda>wblk.
     case wblk of
       Some p \<Rightarrow> p_bind (deref p) (\<lambda>w. p_ret (parse_answer L (wBlock w) (wStatus w)))
     | None \<Rightarrow>
         (case decoded of
            None \<Rightarrow> p_fail (UnexpectedStatus blkID STATUS_UNSPECIFIED)
          | Some (b, s) \<Rightarrow>
              p_bind (with_blocks (new_wrapped b s)) (\<lambda>p.
              p_bind
                (if s = STATUS_ACCEPTED \<or> s = STATUS_REJECTED then on_blocks (put_decided L blkID p)
                 else if s = STATUS_PROCESSING then on_blocks (put_unverified L blkID p)
                 else p_fail (UnexpectedStatus blkID s)) (\<lambda>_.
              p_bind (on_blocks (evict_missing blkID)) (\<lambda>_. p_ret (parse_answer L b s)))))))"

fun BatchedParseBlock :: "comet \<Rightarrow> bytes list \<Rightarrow> parse_response list handler" where
  "BatchedParseBlock L [] = p_ret []"
| "BatchedParseBlock L (bs # rest) =
     p_bind (ParseBlock L bs) (\<lambda>r. p_bind (BatchedParseBlock L rest) (\<lambda>rs. p_ret (r # rs)))"

text \<open>The common end of \<open>GetBlock\<close>: file the block by its status and encode it.\<close>

definition get_answer :: "comet \<Rightarrow> ids_id \<Rightarrow> wptr \<Rightarrow> get_response handler" where
  "get_answer L blkID p =
     p_bind (deref p) (\<lambda>w.
     p_bind
       (if wStatus w = STATUS_ACCEPTED \<or> wStatus w = STATUS_REJECTED then on_blocks (put_decided L blkID p)
        else if wStatus w = STATUS_PROCESSING then on_blocks (put_unverified L blkID p)
        else p_fail (UnexpectedStatus blkID (wStatus w))) (\<lambda>_.
     p_bind (p_of LibErr (EncodeBlockWithStatus L (wBlock w) (wStatus w))) (\<lambda>bs.
     p_ret (Some \<lparr>rgParentId = hash_bytes (bLastBlockID (wBlock w)), rgBytes = bs, rgStatus = wStatus w,
       rgHeight = of_int (bHeight (wBlock w)), rgTimestamp = bTime (wBlock w)\<rparr>))))"

definition GetBlock :: "comet \<Rightarrow> outside \<Rightarrow> bytes \<Rightarrow> get_response handler" where
  "GetBlock L X bid =
     p_bind (p_ToID bid) (\<lambda>blkID.
     p_bind (with_blocks (GetCachedBlock blkID)) (\<lambda>wblk.
     case wblk of
       Some p \<Rightarrow> get_answer L blkID p
     | None \<Rightarrow>
         p_bind (with_blocks (get_missing blkID)) (\<lambda>miss.
         if miss then p_ret None
         else p_bind (p_get (\<lambda>v. bs_LoadBlockByHash X (vmCalls v) bid)) (\<lambda>blk.
           case blk of
             None \<Rightarrow> p_bind (on_blocks (put_missing blkID)) (\<lambda>_. p_ret None)
           | Some b \<Rightarrow> p_bind (with_blocks (new_wrapped b STATUS_ACCEPTED)) (\<lambda>p. get_answer L blkID p)))))"

definition GetBlockIDAtHeight :: "comet \<Rightarrow> outside \<Rightarrow> uint64 \<Rightarrow> bytes option handler" where
  "GetBlockIDAtHeight L X height = p_get (\<lambda>v. map_option (blk_Hash L) (bs_LoadBlock X (vmCalls v) (sint height)))"

subsection \<open>Deciding blocks\<close>

definition BlockVerify :: "comet \<Rightarrow> bytes \<Rightarrow> gotime handler" where
  "BlockVerify L bs =
     p_bind (p_of LibErr (DecodeBlockWithStatus L bs)) (\<lambda>(b, s).
     p_bind (p_get (\<lambda>v. ValidateBlock L (cState v) b)) (\<lambda>r.
     p_bind (p_check (map_option (\<lambda>e. ExecErr (InvalidBlock e)) r)) (\<lambda>_.
     p_bind (p_ToID (blk_Hash L b)) (\<lambda>blkID.
     p_bind (on_blocks (evict_unverified L blkID)) (\<lambda>_.
     p_bind (with_blocks (new_wrapped b s)) (\<lambda>p.
     p_bind (on_blocks (verify_block blkID p)) (\<lambda>_.
     p_ret (bTime b))))))))"

text \<open>\<open>SaveBlock\<close> panics when the block store refuses the block.\<close>

definition save_block :: "outside \<Rightarrow> comet_block \<Rightarrow> part_set_header \<Rightarrow> comet_commit \<Rightarrow> unit exec" where
  "save_block X b psh c = p_bind (call (CSaveBlock b psh c) (\<lambda>tr. bs_SaveBlock X tr b)) (\<lambda>ok. if ok then p_ret () else p_panic)"

text \<open>The end of \<open>BlockAccept\<close>, after the block is in the block store.\<close>

definition record_accepted :: "comet \<Rightarrow> outside \<Rightarrow> ids_id \<Rightarrow> comet_block \<Rightarrow> comet_state \<Rightarrow> unit handler" where
  "record_accepted L X blkID b newstate =
     p_bind (lift_exec (call (CSaveState newstate) (ss_Save X))) (\<lambda>r.
     p_bind (p_check (map_option StateStoreErr r)) (\<lambda>_.
     p_bind (p_upd (\<lambda>v. v\<lparr>cState := newstate\<rparr>)) (\<lambda>_.
     p_bind (on_blocks (unverify_block blkID)) (\<lambda>_.
     p_bind (on_blocks (evict_missing blkID)) (\<lambda>_.
     p_bind (on_blocks (evict_unverified L blkID)) (\<lambda>_.
     p_bind (with_blocks (new_wrapped b STATUS_ACCEPTED)) (\<lambda>q.
     on_blocks (put_decided L blkID q))))))))"

definition accept_cached :: "comet \<Rightarrow> outside \<Rightarrow> ids_id \<Rightarrow> comet_block \<Rightarrow> unit handler" where
  "accept_cached L X blkID b =
     p_bind (p_of LibErr (blk_PartSetHeader L b)) (\<lambda>psh.
     p_bind (p_get cState) (\<lambda>s.
     p_bind (lift_exec (ApplyBlock L X s (block_id_of L b psh) b)) (\<lambda>newstate.
     p_bind (lift_exec (save_block X b psh (MakeCommit (bHeight b) (bTime b) (sValidators s) (block_id_of L b psh)))) (\<lambda>_.
     record_accepted L X blkID b newstate))))"

definition BlockAccept :: "comet \<Rightarrow> outside \<Rightarrow> bytes \<Rightarrow> unit handler" where
  "BlockAccept L X bid =
     p_bind (p_ToID bid) (\<lambda>blkID.
     p_bind (with_blocks (GetCachedBlock blkID)) (\<lambda>wblk.
     case wblk of
       None \<Rightarrow> p_fail NotFoundErr
     | Some p \<Rightarrow> p_bind (deref p) (\<lambda>w. accept_cached L X blkID (wBlock w))))"

definition BlockReject :: "comet \<Rightarrow> bytes \<Rightarrow> unit handler" where
  "BlockReject L bid =
     p_bind (p_ToID bid) (\<lambda>blkID.
     p_bind (with_blocks (GetCachedBlock blkID)) (\<lambda>wblk.
     case wblk of
       None \<Rightarrow> p_fail NotFoundErr
     | Some p \<Rightarrow>
         p_bind (on_blocks (set_status p STATUS_REJECTED)) (\<lambda>_.
         p_bind (on_blocks (unverify_block blkID)) (\<lambda>_.
         on_blocks (put_decided L blkID p)))))"

subsection \<open>Handlers without a body\<close>

definition vm_Version :: "string handler" where
  "vm_Version = p_ret ''0.0.0''"

definition AppGossip :: "unit handler" where
  "AppGossip = p_fail (NotImplemented 6)"

definition CrossChainAppRequest :: "unit handler" where
  "CrossChainAppRequest = p_fail (NotImplemented 8)"

definition CrossChainAppRequestFailed :: "unit handler" where
  "CrossChainAppRequestFailed = p_fail (NotImplemented 9)"

definition CrossChainAppResponse :: "unit handler" where
  "CrossChainAppResponse = p_fail (NotImplemented 10)"

definition GetAncestors :: "unit handler" where
  "GetAncestors = p_fail (NotImplemented 11)"

definition GetOngoingSyncStateSummary :: "unit handler" where
  "GetOngoingSyncStateSummary = p_panic"

definition GetLastStateSummary :: "unit handler" where
  "GetLastStateSummary = p_panic"

definition ParseStateSummary :: "unit handler" where
  "ParseStateSummary = p_fail (NotImplemented 14)"

definition GetStateSummary :: "unit handler" where
  "GetStateSummary = p_fail (NotImplemented 15)"

definition StateSummaryAccept :: "unit handler" where
  "StateSummaryAccept = p_fail (NotImplemented 16)"

end
