(* ===== verification/VM_Runs.thy ===== *)
theory VM_Runs
  imports Landslide_VM
begin

text \<open>
  Runs of the virtual machine: any sequence of handler calls, with any arguments and any answers of
  the code outside, on an initialised machine. The invariants that hold along every run, and what they
  give for the blocks the machine accepts, stores and serves.
\<close>

subsection \<open>Blocks saved in a run\<close>

fun saved_block :: "ext_call \<Rightarrow> comet_block option" where
  "saved_block (CSaveBlock b psh c) = Some b"
| "saved_block _ = None"

definition saved_blocks :: "calls \<Rightarrow> comet_block list" where
  "saved_blocks tr = List.map_filter saved_block tr"

lemma saved_blocks_simps [simp]:
  "saved_blocks [] = []" "saved_blocks (tr @ tr') = saved_blocks tr @ saved_blocks tr'"
  "saved_blocks (c # tr) = (case saved_block c of None \<Rightarrow> [] | Some b \<Rightarrow> [b]) @ saved_blocks tr"
  by (simp_all add: saved_blocks_def List.map_filter_def split: option.split)

lemma saved_none: "\<forall>c\<in>set cs. saved_block c = None \<Longrightarrow> saved_blocks cs = []"
  by (induction cs) simp_all

text \<open>A block extends another: next height, it names the other's id, and its time is not earlier.\<close>

definition linked :: "comet \<Rightarrow> comet_block \<Rightarrow> comet_block \<Rightarrow> bool" where
  "linked L b b' \<longleftrightarrow> bHeight b' = bHeight b + 1 \<and> bTime b \<le> bTime b'
     \<and> (\<exists>psh. blk_PartSetHeader L b = Inr psh \<and> bid_Equals L (bLastBlockID b') (block_id_of L b psh))"

text \<open>The state of the machine is at the last saved block, or behind it after a failed save.\<close>

definition tip_ok :: "comet \<Rightarrow> comet_state \<Rightarrow> comet_block list \<Rightarrow> bool" where
  "tip_ok L s bs \<longleftrightarrow> (bs \<noteq> [] \<longrightarrow> sLastBlockHeight s \<le> bHeight (last bs)
     \<and> (sLastBlockHeight s = bHeight (last bs) \<longrightarrow> sLastBlockTime s = bTime (last bs)
          \<and> (\<exists>psh. blk_PartSetHeader L (last bs) = Inr psh \<and> sLastBlockID s = block_id_of L (last bs) psh)))"

definition chain_inv :: "comet \<Rightarrow> LandslideVM \<Rightarrow> bool" where
  "chain_inv L v \<longleftrightarrow> wb_inv L (wrappedBlocks v) \<and> 0 < sLastBlockHeight (cState v) \<and> sLastBlockHeight (cState v) < 2 ^ 63
     \<and> successively (linked L) (saved_blocks (vmCalls v)) \<and> tip_ok L (cState v) (saved_blocks (vmCalls v))"

text \<open>What the block store promises: it takes blocks in height order; a block becomes known only by being saved.\<close>

definition contiguous :: "outside \<Rightarrow> bool" where
  "contiguous X \<longleftrightarrow> (\<forall>tr b. bs_SaveBlock X tr b \<longrightarrow> saved_blocks tr = [] \<or> bHeight b = bHeight (last (saved_blocks tr)) + 1)"

definition known_by_saving :: "comet \<Rightarrow> outside \<Rightarrow> bool" where
  "known_by_saving L X \<longleftrightarrow> (\<forall>tr c h. bs_LoadBlockByHash X tr h = None \<and> (\<forall>b. saved_block c = Some b \<longrightarrow> blk_Hash L b \<noteq> h)
     \<longrightarrow> bs_LoadBlockByHash X (tr @ [c]) h = None)"

definition saved_is_known :: "comet \<Rightarrow> outside \<Rightarrow> bool" where
  "saved_is_known L X \<longleftrightarrow> (\<forall>tr b psh c. bs_LoadBlockByHash X (tr @ [CSaveBlock b psh c]) (blk_Hash L b) = Some b)
     \<and> (\<forall>tr s h. bs_LoadBlockByHash X (tr @ [CSaveState s]) h = bs_LoadBlockByHash X tr h)"

definition loads_by_hash :: "comet \<Rightarrow> outside \<Rightarrow> bool" where
  "loads_by_hash L X \<longleftrightarrow> (\<forall>tr h b. bs_LoadBlockByHash X tr h = Some b \<longrightarrow> blk_Hash L b = h)"

text \<open>A block that passes the basic validation has a positive height.\<close>

definition positive_heights :: "comet \<Rightarrow> bool" where
  "positive_heights L \<longleftrightarrow> (\<forall>b. blk_ValidateBasic L b = None \<longrightarrow> 0 < bHeight b)"

text \<open>No id is remembered as missing while the block store knows it.\<close>

definition missing_ok :: "outside \<Rightarrow> ids_id set \<Rightarrow> LandslideVM \<Rightarrow> bool" where
  "missing_ok X except v \<longleftrightarrow> (\<forall>k\<in>missing (wrappedBlocks v) - except. bs_LoadBlockByHash X (vmCalls v) k = None)"

definition saves_ok :: "outside \<Rightarrow> bool" where
  "saves_ok X \<longleftrightarrow> (\<forall>tr. ss_Save X tr = None)"

definition vm_inv :: "comet \<Rightarrow> outside \<Rightarrow> LandslideVM \<Rightarrow> bool" where
  "vm_inv L X v \<longleftrightarrow> chain_inv L v \<and> (known_by_saving L X \<and> saves_ok X \<longrightarrow> missing_ok X {} v)"

subsection \<open>Handlers as triples\<close>

lemma hoare_with_blocks [hoare_rules]:
  "(\<And>v. P v \<Longrightarrow> Q (fst (f (wrappedBlocks v))) (v\<lparr>wrappedBlocks := snd (f (wrappedBlocks v))\<rparr>)) \<Longrightarrow> hoare P (with_blocks f) Q E"
  by (simp add: hoare_def with_blocks_def split_def)

lemma hoare_on_blocks [hoare_rules]:
  "(\<And>v. P v \<Longrightarrow> Q () (v\<lparr>wrappedBlocks := f (wrappedBlocks v)\<rparr>)) \<Longrightarrow> hoare P (on_blocks f) Q E"
  by (simp add: hoare_def on_blocks_def)

lemma hoare_ToID [hoare_rules]:
  "\<lbrakk>\<And>v k. P v \<Longrightarrow> k = bs \<Longrightarrow> length k = 32 \<Longrightarrow> Q k v; \<And>v. P v \<Longrightarrow> E v\<rbrakk> \<Longrightarrow> hoare P (p_ToID bs) Q E"
  by (simp add: p_ToID_def ToID_def hoare_def)

lemma hoare_deref [hoare_rules]: "(\<And>v. P v \<Longrightarrow> Q (wHeap (wrappedBlocks v) p) v) \<Longrightarrow> hoare P (deref p) Q E"
  by (simp add: deref_def hoare_def)

lemma hoare_lift:
  assumes "\<And>v x tr. P v \<Longrightarrow> m (vmCalls v) = (Done x, tr) \<Longrightarrow> Q x (v\<lparr>vmCalls := tr\<rparr>)"
    and "\<And>v e tr. P v \<Longrightarrow> m (vmCalls v) = (Fail e, tr) \<Longrightarrow> E (v\<lparr>vmCalls := tr\<rparr>)"
  shows "hoare P (lift_exec m) Q E"
  by (rule hoareI) (use assms in \<open>auto simp: lift_exec_def split: prod.splits outcome.splits\<close>)

text \<open>Procedures that save no block.\<close>

definition quiet :: "'a exec \<Rightarrow> bool" where
  "quiet m \<longleftrightarrow> (\<forall>tr. \<exists>cs. snd (m tr) = tr @ cs \<and> saved_blocks cs = [])"

named_theorems quiet_rules \<open>procedures that save no block\<close>

lemma quiet_basic [quiet_rules]:
  "quiet (p_ret x)" "quiet (p_fail e)" "quiet p_panic" "quiet (p_get f)"
  by (simp_all add: quiet_def)

lemma quiet_call [quiet_rules]: "saved_block c = None \<Longrightarrow> quiet (call c f)"
  by (simp add: quiet_def)

lemma quiet_of [quiet_rules]: "quiet (p_of f r)" "quiet (p_check e)"
  by (simp_all add: quiet_def p_of_def p_check_def split: sum.split option.split)

lemma quiet_bind [quiet_rules]:
  assumes "quiet m" "\<And>x. quiet (f x)"
  shows "quiet (p_bind m f)"
  unfolding quiet_def
proof
  fix tr
  obtain r tr' where r: "m tr = (r, tr')" by (cases "m tr")
  then obtain cs where cs: "tr' = tr @ cs" "saved_blocks cs = []" using assms(1) unfolding quiet_def by (metis snd_conv)
  show "\<exists>cs. snd (p_bind m f tr) = tr @ cs \<and> saved_blocks cs = []"
  proof (cases r)
    case (Done x)
    obtain cs' where "snd (f x tr') = tr' @ cs'" "saved_blocks cs' = []" using assms(2) unfolding quiet_def by blast
    then show ?thesis using Done r cs by (intro exI [of _ "cs @ cs'"]) (simp add: p_bind_def)
  qed (use r cs in \<open>simp_all add: p_bind_def\<close>)
qed

lemma quiet_if [quiet_rules]: "\<lbrakk>quiet m; quiet m'\<rbrakk> \<Longrightarrow> quiet (if c then m else m')"
  by simp

lemma quiet_case [quiet_rules]: "\<lbrakk>\<And>e. quiet (f e); \<And>x. quiet (g x)\<rbrakk> \<Longrightarrow> quiet (case r of Inl e \<Rightarrow> f e | Inr x \<Rightarrow> g x)"
  by (simp split: sum.split)

lemma quiet_ext_votes [quiet_rules]: "quiet (ext_votes L ap h vs sigs)"
  by (induction L ap h vs sigs rule: ext_votes.induct) (auto simp: ext_vote_def simp del: p_simps intro!: quiet_rules)

lemma quiet_CreateProposalBlock: "quiet (CreateProposalBlock L X ex h s c a)"
  by (auto simp: CreateProposalBlock_def Let_def buildExtendedCommitInfoFromStore_def BuildExtendedCommitInfo_def simp del: p_simps intro!: quiet_rules)

lemma quiet_ApplyBlock: "quiet (ApplyBlock L X s bid b)"
  unfolding quiet_def
proof
  fix tr
  obtain r tr' where r: "ApplyBlock L X s bid b tr = (r, tr')" by fastforce
  from ApplyBlock_ordered [OF r] obtain cs where cs: "tr' = tr @ cs" "ordered_run X b tr cs" by blast
  have "saved_block c = None" if "c \<in> set cs" for c
  proof -
    have "phase c \<in> set (map phase cs)" using that by simp
    moreover have "0 \<notin> set (map phase cs)" using cs(2) unfolding ordered_run_def by blast
    ultimately have "phase c \<noteq> 0" by metis
    then show ?thesis by (cases c) simp_all
  qed
  then show "\<exists>cs. snd (ApplyBlock L X s bid b tr) = tr @ cs \<and> saved_blocks cs = []"
    using cs(1) r saved_none [of cs] by auto
qed


lemma not_known:
  assumes "known_by_saving L X" "bs_LoadBlockByHash X tr h = None" "\<forall>b\<in>set (saved_blocks cs). blk_Hash L b \<noteq> h"
  shows "bs_LoadBlockByHash X (tr @ cs) h = None"
  using assms(3)
proof (induction cs rule: rev_induct)
  case Nil
  then show ?case using assms(2) by simp
next
  case (snoc c cs)
  then have "bs_LoadBlockByHash X (tr @ cs) h = None" by simp
  moreover have "\<forall>b. saved_block c = Some b \<longrightarrow> blk_Hash L b \<noteq> h" using snoc.prems by auto
  ultimately show ?case using assms(1) unfolding known_by_saving_def by (metis append_assoc)
qed

lemma vm_inv_blocks:
  "\<lbrakk>vm_inv L X v; wb_inv L st; missing st \<subseteq> missing (wrappedBlocks v)\<rbrakk> \<Longrightarrow> vm_inv L X (v\<lparr>wrappedBlocks := st\<rparr>)"
  by (auto simp: vm_inv_def chain_inv_def missing_ok_def)

lemma vm_inv_wb: "vm_inv L X v \<Longrightarrow> wb_inv L (wrappedBlocks v)"
  by (simp add: vm_inv_def chain_inv_def)

lemma vm_inv_quiet:
  assumes "vm_inv L X v" "quiet m"
  shows "vm_inv L X (v\<lparr>vmCalls := snd (m (vmCalls v))\<rparr>)"
proof -
  obtain cs where cs: "snd (m (vmCalls v)) = vmCalls v @ cs" "saved_blocks cs = []"
    using assms(2) unfolding quiet_def by blast
  then show ?thesis
    using assms(1) not_known [of L X "vmCalls v" _ cs] by (auto simp: vm_inv_def chain_inv_def missing_ok_def)
qed

lemma hoare_quiet:
  assumes "quiet m" "\<And>v. P v \<Longrightarrow> vm_inv L X v"
  shows "hoare P (lift_exec m) (\<lambda>_. vm_inv L X) (vm_inv L X)"
  by (rule hoare_lift) (use vm_inv_quiet [OF assms(2) assms(1)] in \<open>metis snd_conv\<close>)+

subsection \<open>The cache operations as triples\<close>

text \<open>The pointer \<open>p\<close> is filed, or may be filed, under \<open>k\<close> and points to \<open>w\<close>.\<close>

definition held :: "comet \<Rightarrow> outside \<Rightarrow> ids_id \<Rightarrow> wptr \<Rightarrow> WrappedBlock \<Rightarrow> LandslideVM \<Rightarrow> bool" where
  "held L X k p w v \<longleftrightarrow> vm_inv L X v \<and> good L (wrappedBlocks v) k p \<and> wHeap (wrappedBlocks v) p = w"

lemma missing_frame [simp]:
  "missing (put_decided L k p st) = missing st" "missing (put_unverified L k p st) = missing st"
  "missing (evict_unverified L k st) = missing st" "missing (put_bytes_id bs k st) = missing st"
  "missing (snd (new_wrapped b s st)) = missing st" "missing (set_status p s st) = missing st"
  "missing (verify_block k p st) = missing st" "missing (unverify_block k st) = missing st"
  by (simp_all add: put_decided_def put_unverified_def evict_unverified_def put_bytes_id_def new_wrapped_def set_status_def
    verify_block_def unverify_block_def)

lemma hoare_GetCachedBlock:
  "hoare (vm_inv L X) (with_blocks (GetCachedBlock k))
     (\<lambda>r v. vm_inv L X v \<and> r = lookup (wrappedBlocks v) k \<and> (\<forall>p. r = Some p \<longrightarrow> good L (wrappedBlocks v) k p)) E"
proof (rule hoare_with_blocks)
  fix v
  assume i: "vm_inv L X v"
  note w = vm_inv_wb [OF i]
  note s = GetCachedBlock_spec [OF w, of k]
  have "vm_inv L X (v\<lparr>wrappedBlocks := snd (GetCachedBlock k (wrappedBlocks v))\<rparr>)"
    by (rule vm_inv_blocks [OF i s(3)]) (use s(2) in \<open>simp add: same_def\<close>)
  then show "vm_inv L X (v\<lparr>wrappedBlocks := snd (GetCachedBlock k (wrappedBlocks v))\<rparr>)
      \<and> fst (GetCachedBlock k (wrappedBlocks v)) = lookup (wrappedBlocks (v\<lparr>wrappedBlocks := snd (GetCachedBlock k (wrappedBlocks v))\<rparr>)) k
      \<and> (\<forall>p. fst (GetCachedBlock k (wrappedBlocks v)) = Some p \<longrightarrow> good L (wrappedBlocks (v\<lparr>wrappedBlocks := snd (GetCachedBlock k (wrappedBlocks v))\<rparr>)) k p)"
    using s(1) same_lookup [OF s(2)] wb_inv_lookup [OF s(3), of k] by simp
qed

lemma hoare_new_wrapped:
  assumes "length (blk_Hash L b) = 32"
  shows "hoare (vm_inv L X) (with_blocks (new_wrapped b s)) (\<lambda>p. held L X (blk_Hash L b) p \<lparr>wBlock = b, wStatus = s\<rparr>) E"
proof (rule hoare_with_blocks)
  fix v
  assume i: "vm_inv L X v"
  note s = new_wrapped_spec [OF vm_inv_wb [OF i], of b s]
  have "vm_inv L X (v\<lparr>wrappedBlocks := snd (new_wrapped b s (wrappedBlocks v))\<rparr>)" by (rule vm_inv_blocks [OF i s(1)]) simp
  then show "held L X (blk_Hash L b) (fst (new_wrapped b s (wrappedBlocks v))) \<lparr>wBlock = b, wStatus = s\<rparr>
      (v\<lparr>wrappedBlocks := snd (new_wrapped b s (wrappedBlocks v))\<rparr>)"
    using s(2) s(3) [OF assms] by (simp add: held_def)
qed

lemma hoare_put_decided:
  assumes "plain (wStatus w)"
  shows "hoare (held L X k p w) (on_blocks (put_decided L k p)) (\<lambda>_. vm_inv L X) E"
  by (rule hoare_on_blocks) (use assms in \<open>auto simp: held_def intro!: vm_inv_blocks put_decided_spec vm_inv_wb\<close>)

lemma hoare_put_unverified:
  assumes "plain (wStatus w)"
  shows "hoare (held L X k p w) (on_blocks (put_unverified L k p)) (\<lambda>_. vm_inv L X) E"
  by (rule hoare_on_blocks) (use assms in \<open>auto simp: held_def intro!: vm_inv_blocks put_unverified_spec vm_inv_wb\<close>)

lemma hoare_verify_block: "hoare (held L X k p w) (on_blocks (verify_block k p)) (\<lambda>_. vm_inv L X) E"
  by (rule hoare_on_blocks) (auto simp: held_def intro!: vm_inv_blocks verify_block_spec vm_inv_wb)

lemma hoare_plain_ops:
  "hoare (vm_inv L X) (on_blocks (evict_missing k)) (\<lambda>_. vm_inv L X) E"
  "hoare (vm_inv L X) (on_blocks (evict_unverified L k)) (\<lambda>_. vm_inv L X) E"
  "hoare (vm_inv L X) (on_blocks (unverify_block k)) (\<lambda>_. vm_inv L X) E"
  by (rule hoare_on_blocks; auto intro!: vm_inv_blocks missing_ops_spec evict_unverified_spec unverify_block_spec
    dest: vm_inv_wb simp: missing_ops_spec(2) [OF vm_inv_wb])+

subsection \<open>The handlers keep the invariant\<close>

lemma hoare_deref_held:
  "hoare (\<lambda>v. vm_inv L X v \<and> good L (wrappedBlocks v) k p) (deref p) (\<lambda>w. held L X k p w) E"
  by (rule hoare_deref) (simp add: held_def)

lemma hoare_file:
  "hoare (held L X k p w)
     (if wStatus w = STATUS_ACCEPTED \<or> wStatus w = STATUS_REJECTED then on_blocks (put_decided L k p)
      else if wStatus w = STATUS_PROCESSING then on_blocks (put_unverified L k p)
      else p_fail e) (\<lambda>_. vm_inv L X) (vm_inv L X)"
  by (auto simp: plain_def held_def intro!: hoare_put_decided hoare_put_unverified hoare_fail)

lemma hoare_get_answer:
  "hoare (\<lambda>v. vm_inv L X v \<and> good L (wrappedBlocks v) k p) (get_answer L k p)
     (\<lambda>r v. vm_inv L X v \<and> (\<exists>b g. r = Some g \<and> blk_Hash L b = k \<and> EncodeBlockWithStatus L b (rgStatus g) = Inr (rgBytes g))) (vm_inv L X)"
  unfolding get_answer_def
proof (rule hoare_bind [OF hoare_deref_held], goal_cases)
  case (1 w)
  show ?case
  proof (rule hoare_pure)
    show "blk_Hash L (wBlock w) = k" if "held L X k p w v" for v using that by (auto simp: held_def good_def)
    assume h: "blk_Hash L (wBlock w) = k"
    show "hoare (held L X k p w) (p_bind
       (if wStatus w = STATUS_ACCEPTED \<or> wStatus w = STATUS_REJECTED then on_blocks (put_decided L k p)
        else if wStatus w = STATUS_PROCESSING then on_blocks (put_unverified L k p)
        else p_fail (UnexpectedStatus k (wStatus w))) (\<lambda>_.
       p_bind (p_of LibErr (EncodeBlockWithStatus L (wBlock w) (wStatus w))) (\<lambda>bs.
       p_ret (Some \<lparr>rgParentId = hash_bytes (bLastBlockID (wBlock w)), rgBytes = bs, rgStatus = wStatus w,
         rgHeight = of_int (bHeight (wBlock w)), rgTimestamp = bTime (wBlock w)\<rparr>))))
       (\<lambda>r v. vm_inv L X v \<and> (\<exists>b g. r = Some g \<and> blk_Hash L b = k \<and> EncodeBlockWithStatus L b (rgStatus g) = Inr (rgBytes g))) (vm_inv L X)"
    proof (rule hoare_bind [OF hoare_file], rule hoare_bind, rule hoare_of)
      show "vm_inv L X v \<and> EncodeBlockWithStatus L (wBlock w) (wStatus w) = Inr bs"
        if "vm_inv L X v" "EncodeBlockWithStatus L (wBlock w) (wStatus w) = Inr bs" for v bs using that by simp
    qed (auto intro!: hoare_ret exI [of _ "wBlock w"] simp: h simp del: p_simps)
  qed
qed

lemma hoare_parse_id:
  "hoare (vm_inv L X) (parse_id L bs)
     (\<lambda>(k, d) v. vm_inv L X v \<and> length k = 32 \<and> (\<exists>b s. DecodeBlockWithStatus L bs = Inr (b, s) \<and> blk_Hash L b = k \<and> (d = None \<or> d = Some (b, s))))
     (vm_inv L X)"
  unfolding parse_id_def
proof (rule hoare_bind [where R = "\<lambda>r v. vm_inv L X v \<and> r = bytes_ids (wrappedBlocks v) bs"])
  show "hoare (vm_inv L X) (with_blocks (get_bytes_id bs)) (\<lambda>r v. vm_inv L X v \<and> r = bytes_ids (wrappedBlocks v) bs) (vm_inv L X)"
  proof (rule hoare_with_blocks)
    fix v
    assume i: "vm_inv L X v"
    note s = get_bytes_id_spec [OF vm_inv_wb [OF i], of bs]
    have "vm_inv L X (v\<lparr>wrappedBlocks := snd (get_bytes_id bs (wrappedBlocks v))\<rparr>)"
      by (rule vm_inv_blocks [OF i s(3)]) (use s(2) in \<open>simp add: same_def\<close>)
    then show "vm_inv L X (v\<lparr>wrappedBlocks := snd (get_bytes_id bs (wrappedBlocks v))\<rparr>)
      \<and> fst (get_bytes_id bs (wrappedBlocks v)) = bytes_ids (wrappedBlocks (v\<lparr>wrappedBlocks := snd (get_bytes_id bs (wrappedBlocks v))\<rparr>)) bs"
      using s(1,2) by (simp add: same_def)
  qed
next
  fix cached
  let ?Q = "\<lambda>(k, d) v. vm_inv L X v \<and> length k = 32 \<and> (\<exists>b s. DecodeBlockWithStatus L bs = Inr (b, s) \<and> blk_Hash L b = k \<and> (d = None \<or> d = Some (b, s)))"
  show "hoare (\<lambda>v. vm_inv L X v \<and> cached = bytes_ids (wrappedBlocks v) bs)
      (case cached of Some blkID \<Rightarrow> p_ret (blkID, None)
       | None \<Rightarrow> p_bind (p_of LibErr (DecodeBlockWithStatus L bs)) (\<lambda>(b, s). p_bind (p_ToID (blk_Hash L b)) (\<lambda>blkID.
           p_bind (on_blocks (put_bytes_id bs blkID)) (\<lambda>_. p_ret (blkID, Some (b, s))))))
      ?Q (vm_inv L X)"
  proof (cases cached)
    case (Some k)
    have "length k = 32 \<and> (\<exists>b s. DecodeBlockWithStatus L bs = Inr (b, s) \<and> blk_Hash L b = k)"
      if "vm_inv L X v" "Some k = bytes_ids (wrappedBlocks v) bs" for v
      using that(2) vm_inv_wb [OF that(1)] unfolding wb_inv_def by metis
    then have "?Q (k, None) v" if "vm_inv L X v \<and> Some k = bytes_ids (wrappedBlocks v) bs" for v using that by fastforce
    from hoare_ret [of _ ?Q, OF this] show ?thesis using Some by (simp del: p_simps)
  next
    case None
    have dec: "hoare (vm_inv L X)
        (p_bind (p_ToID (blk_Hash L b)) (\<lambda>blkID. p_bind (on_blocks (put_bytes_id bs blkID)) (\<lambda>_. p_ret (blkID, Some (b, s))))) ?Q (vm_inv L X)"
      if d: "DecodeBlockWithStatus L bs = Inr (b, s)" for b s
    proof (rule hoare_bind [OF hoare_ToID [where Q = "\<lambda>k v. vm_inv L X v \<and> k = blk_Hash L b \<and> length k = 32"]])
      show "hoare (\<lambda>v. vm_inv L X v \<and> k = blk_Hash L b \<and> length k = 32)
          (p_bind (on_blocks (put_bytes_id bs k)) (\<lambda>_. p_ret (k, Some (b, s)))) ?Q (vm_inv L X)" for k
        by (rule hoare_bind [OF hoare_on_blocks [where Q = "\<lambda>_ v. vm_inv L X v \<and> k = blk_Hash L b \<and> length k = 32"]])
          (auto intro!: vm_inv_blocks put_bytes_id_spec [OF _ _ d] vm_inv_wb hoare_ret simp: d simp del: p_simps)
    qed simp_all
    show ?thesis
    proof (cases "DecodeBlockWithStatus L bs")
      case (Inr d)
      then show ?thesis using None dec [of "fst d" "snd d"] by (simp add: hoare_def p_bind_def split_def)
    qed (simp add: None hoare_def p_bind_def)
  qed
qed

lemma hoare_store:
  assumes "length (blk_Hash L b) = 32"
  shows "hoare (vm_inv L X) (p_bind (with_blocks (new_wrapped b s)) (\<lambda>p. p_bind
     (if s = STATUS_ACCEPTED \<or> s = STATUS_REJECTED then on_blocks (put_decided L (blk_Hash L b) p)
      else if s = STATUS_PROCESSING then on_blocks (put_unverified L (blk_Hash L b) p)
      else p_fail e) (\<lambda>_. p_bind (on_blocks (evict_missing (blk_Hash L b))) (\<lambda>_. p_ret r))))
     (\<lambda>r' v. vm_inv L X v \<and> r' = r) (vm_inv L X)"
proof (rule hoare_bind [OF hoare_new_wrapped [OF assms]], goal_cases)
  case (1 p)
  have f: "hoare (held L X (blk_Hash L b) p \<lparr>wBlock = b, wStatus = s\<rparr>)
     (if s = STATUS_ACCEPTED \<or> s = STATUS_REJECTED then on_blocks (put_decided L (blk_Hash L b) p)
      else if s = STATUS_PROCESSING then on_blocks (put_unverified L (blk_Hash L b) p)
      else p_fail e) (\<lambda>_. vm_inv L X) (vm_inv L X)"
    using hoare_file [of L X "blk_Hash L b" p "\<lparr>wBlock = b, wStatus = s\<rparr>" e] by (simp only: WrappedBlock.select_convs)
  show ?case by (rule hoare_bind [OF f], rule hoare_bind [OF hoare_plain_ops(1)], rule hoare_ret) simp
qed

lemma hoare_ParseBlock:
  "hoare (vm_inv L X) (ParseBlock L bs)
     (\<lambda>r v. vm_inv L X v \<and> (\<exists>b s. DecodeBlockWithStatus L bs = Inr (b, s) \<and> rpId r = blk_Hash L b)) (vm_inv L X)"
  unfolding ParseBlock_def
proof (rule hoare_bind [OF hoare_parse_id], clarify)
  fix k d
  let ?Q = "\<lambda>r v. vm_inv L X v \<and> (\<exists>b s. DecodeBlockWithStatus L bs = Inr (b, s) \<and> rpId r = blk_Hash L b)"
  let ?rest = "p_bind (with_blocks (GetCachedBlock k)) (\<lambda>wblk. case wblk of
       Some p \<Rightarrow> p_bind (deref p) (\<lambda>w. p_ret (parse_answer L (wBlock w) (wStatus w)))
     | None \<Rightarrow> (case d of None \<Rightarrow> p_fail (UnexpectedStatus k STATUS_UNSPECIFIED)
          | Some (b, s) \<Rightarrow> p_bind (with_blocks (new_wrapped b s)) (\<lambda>p. p_bind
                (if s = STATUS_ACCEPTED \<or> s = STATUS_REJECTED then on_blocks (put_decided L k p)
                 else if s = STATUS_PROCESSING then on_blocks (put_unverified L k p)
                 else p_fail (UnexpectedStatus k s)) (\<lambda>_.
              p_bind (on_blocks (evict_missing k)) (\<lambda>_. p_ret (parse_answer L b s))))))"
  have "hoare (vm_inv L X) ?rest ?Q (vm_inv L X)"
    if a: "DecodeBlockWithStatus L bs = Inr (b, s)" "blk_Hash L b = k" "length k = 32" "d = None \<or> d = Some (b, s)" for b s
  proof (rule hoare_bind [OF hoare_GetCachedBlock], goal_cases)
    case (1 wblk)
    show ?case
    proof (cases wblk)
      case (Some p)
      have "hoare (\<lambda>v. vm_inv L X v \<and> good L (wrappedBlocks v) k p) (p_bind (deref p) (\<lambda>w. p_ret (parse_answer L (wBlock w) (wStatus w)))) ?Q (vm_inv L X)"
        by (rule hoare_bind [OF hoare_deref_held], rule hoare_ret) (use a in \<open>auto simp: held_def good_def parse_answer_def\<close>)
      then show ?thesis using Some by (auto simp del: p_simps intro: hoare_weaken)
    next
      case None
      have "hoare (vm_inv L X) (p_bind (with_blocks (new_wrapped b s)) (\<lambda>p. p_bind
                (if s = STATUS_ACCEPTED \<or> s = STATUS_REJECTED then on_blocks (put_decided L k p)
                 else if s = STATUS_PROCESSING then on_blocks (put_unverified L k p)
                 else p_fail (UnexpectedStatus k s)) (\<lambda>_.
              p_bind (on_blocks (evict_missing k)) (\<lambda>_. p_ret (parse_answer L b s))))) ?Q (vm_inv L X)"
        using a by (intro hoare_post [OF hoare_store [of L b X s "UnexpectedStatus k s" "parse_answer L b s", simplified a(2)]])
          (auto simp: parse_answer_def)
      then show ?thesis using None a(4) by (auto simp del: p_simps intro: hoare_weaken hoare_fail)
    qed
  qed
  then show "hoare (\<lambda>v. vm_inv L X v \<and> length k = 32 \<and> (\<exists>b s. DecodeBlockWithStatus L bs = Inr (b, s) \<and> blk_Hash L b = k \<and> (d = None \<or> d = Some (b, s))))
      ?rest ?Q (vm_inv L X)"
    by (rule_tac hoare_pure [where A = "length k = 32 \<and> (\<exists>b s. DecodeBlockWithStatus L bs = Inr (b, s) \<and> blk_Hash L b = k \<and> (d = None \<or> d = Some (b, s)))"])
      (blast, blast intro: hoare_weaken)
qed

lemma hoare_BatchedParseBlock:
  "hoare (vm_inv L X) (BatchedParseBlock L reqs)
     (\<lambda>rs v. vm_inv L X v \<and> list_all2 (\<lambda>bs r. \<exists>b s. DecodeBlockWithStatus L bs = Inr (b, s) \<and> rpId r = blk_Hash L b) reqs rs) (vm_inv L X)"
proof (induction reqs)
  case Nil
  show ?case by (simp del: p_simps) (rule hoare_ret, simp)
next
  case (Cons bs rest)
  let ?R = "\<lambda>bs r. \<exists>b s. DecodeBlockWithStatus L bs = Inr (b, s) \<and> rpId r = blk_Hash L b"
  have "hoare (vm_inv L X) (p_bind (BatchedParseBlock L rest) (\<lambda>rs. p_ret (r # rs)))
      (\<lambda>rs v. vm_inv L X v \<and> list_all2 ?R (bs # rest) rs) (vm_inv L X)" if "?R bs r" for r
    by (rule hoare_bind [OF Cons.IH], rule hoare_ret) (use that in auto)
  then have "hoare (\<lambda>v. vm_inv L X v \<and> ?R bs r) (p_bind (BatchedParseBlock L rest) (\<lambda>rs. p_ret (r # rs)))
      (\<lambda>rs v. vm_inv L X v \<and> list_all2 ?R (bs # rest) rs) (vm_inv L X)" for r
    by (rule_tac hoare_pure [where A = "?R bs r"]) (blast, blast intro: hoare_weaken)
  then show ?case unfolding BatchedParseBlock.simps by (rule hoare_bind [OF hoare_ParseBlock])
qed

lemma hoare_file_built: "hoare (vm_inv L X) (file_built L b) (\<lambda>_. vm_inv L X) (vm_inv L X)"
  unfolding file_built_def
proof (rule hoare_bind [OF hoare_of [where Q = "\<lambda>_. vm_inv L X"]], simp, simp,
    rule hoare_bind [OF hoare_ToID [where Q = "\<lambda>k v. vm_inv L X v \<and> k = blk_Hash L b \<and> length k = 32"]], simp, simp, goal_cases)
  case (1 bs k)
  have "hoare (vm_inv L X) (p_bind (with_blocks (new_wrapped b STATUS_PROCESSING)) (\<lambda>p.
     p_bind (on_blocks (put_unverified L (blk_Hash L b) p)) (\<lambda>_. p_bind (on_blocks (evict_missing (blk_Hash L b))) (\<lambda>_. p_ret r)))) (\<lambda>_. vm_inv L X) (vm_inv L X)"
    if "length (blk_Hash L b) = 32" for r :: build_response
    using hoare_post [OF hoare_store [OF that, of X STATUS_PROCESSING undefined r], of "\<lambda>_. vm_inv L X"] by (simp del: p_simps)
  then show ?case
    by (rule_tac hoare_pure [where A = "k = blk_Hash L b \<and> length (blk_Hash L b) = 32"]) (simp, auto simp del: p_simps intro: hoare_weaken)
qed

lemma hoare_BuildBlock: "hoare (vm_inv L X) (BuildBlock L X now rnd) (\<lambda>_. vm_inv L X) (vm_inv L X)"
  unfolding BuildBlock_def Let_def
  by (rule hoare_bind [OF hoare_get [where Q = "\<lambda>_. vm_inv L X"]], simp,
      rule hoare_bind [OF hoare_quiet [OF quiet_CreateProposalBlock]], simp, rule hoare_file_built)

lemma hoare_BlockVerify: "hoare (vm_inv L X) (BlockVerify L bs) (\<lambda>_. vm_inv L X) (vm_inv L X)"
  unfolding BlockVerify_def
proof (rule hoare_bind [OF hoare_of [where Q = "\<lambda>_. vm_inv L X"]], simp, simp, clarify)
  fix b s
  have e: "hoare (vm_inv L X) (p_bind (on_blocks (evict_unverified L (blk_Hash L b))) (\<lambda>_. p_bind (with_blocks (new_wrapped b s)) (\<lambda>p.
      p_bind (on_blocks (verify_block (blk_Hash L b) p)) (\<lambda>_. p_ret (bTime b))))) (\<lambda>_. vm_inv L X) (vm_inv L X)" if "length (blk_Hash L b) = 32"
    by (rule hoare_bind [OF hoare_plain_ops(2)], rule hoare_bind [OF hoare_new_wrapped [OF that]], rule hoare_bind [OF hoare_verify_block], rule hoare_ret)
  show "hoare (vm_inv L X) (p_bind (p_get (\<lambda>v. ValidateBlock L (cState v) b)) (\<lambda>r. p_bind (p_check (map_option (\<lambda>e. ExecErr (InvalidBlock e)) r)) (\<lambda>_.
      p_bind (p_ToID (blk_Hash L b)) (\<lambda>blkID. p_bind (on_blocks (evict_unverified L blkID)) (\<lambda>_. p_bind (with_blocks (new_wrapped b s)) (\<lambda>p.
      p_bind (on_blocks (verify_block blkID p)) (\<lambda>_. p_ret (bTime b)))))))) (\<lambda>_. vm_inv L X) (vm_inv L X)"
  proof (rule hoare_bind [OF hoare_get [where Q = "\<lambda>_. vm_inv L X"]], simp, rule hoare_bind [OF hoare_check [where Q = "\<lambda>_. vm_inv L X"]], simp, simp,
      rule hoare_bind [OF hoare_ToID [where Q = "\<lambda>k v. vm_inv L X v \<and> k = blk_Hash L b \<and> length k = 32"]], simp, simp, goal_cases)
    case (1 r u k)
    show ?case
      by (rule_tac hoare_pure [where A = "k = blk_Hash L b \<and> length (blk_Hash L b) = 32"]) (simp, use e in \<open>auto simp del: p_simps intro: hoare_weaken\<close>)
  qed
qed

lemma wrap64_range: "- (2 ^ 63) \<le> wrap64 x" "wrap64 x < 2 ^ 63"
  using pos_mod_bound [of "2 ^ 64" "x + 2 ^ 63"] pos_mod_sign [of "2 ^ 64" "x + 2 ^ 63"] by (simp_all add: wrap64_def)

lemma wrap64_next: "\<lbrakk>0 < x; x < 2 ^ 63; 0 < wrap64 (x + 1)\<rbrakk> \<Longrightarrow> wrap64 (x + 1) = x + 1"
  by (cases "x + 1 = 2 ^ 63") (simp_all add: wrap64_def)

lemma ValidateBlock_next:
  assumes "ValidateBlock L s b = None" "positive_heights L" "0 < sLastBlockHeight s" "sLastBlockHeight s < 2 ^ 63"
  shows "bHeight b = sLastBlockHeight s + 1" "bHeight b < 2 ^ 63" "bid_Equals L (bLastBlockID b) (sLastBlockID s)" "sLastBlockTime s \<le> bTime b"
proof -
  have v: "blk_ValidateBasic L b = None" "bHeight b = wrap64 (sLastBlockHeight s + 1)" "bid_Equals L (bLastBlockID b) (sLastBlockID s)"
    "ValidateBlockTime L s b = None"
    using assms(1,3) by (auto simp: ValidateBlock_def split: option.splits if_splits)
  have "0 < bHeight b" using assms(2) v(1) by (simp add: positive_heights_def)
  then show "bHeight b = sLastBlockHeight s + 1" using wrap64_next [OF assms(3,4)] v(2) by simp
  show "bHeight b < 2 ^ 63" using v(2) wrap64_range(2) by simp
  show "bid_Equals L (bLastBlockID b) (sLastBlockID s)" by (rule v(3))
  show "sLastBlockTime s \<le> bTime b" using v(4) by (auto simp: ValidateBlockTime_def split: if_splits)
qed

lemma successively_snoc: "successively P (xs @ [x]) \<longleftrightarrow> successively P xs \<and> (xs = [] \<or> P (last xs) x)"
  by (simp add: successively_append_iff disj_commute)

lemma chain_extended:
  assumes "chain_inv L v" "ValidateBlock L (cState v) b = None" "positive_heights L" "blk_PartSetHeader L b = Inr psh"
    and "saved_blocks (vmCalls v) = [] \<or> bHeight b = bHeight (last (saved_blocks (vmCalls v))) + 1"
    and "saved_blocks tr = saved_blocks (vmCalls v) @ [b]"
    and "sLastBlockHeight s' = bHeight b" "sLastBlockID s' = block_id_of L b psh" "sLastBlockTime s' = bTime b"
  shows "chain_inv L (v\<lparr>vmCalls := tr\<rparr>)" "chain_inv L (v\<lparr>vmCalls := tr, cState := s'\<rparr>)"
proof -
  let ?s = "cState v" and ?bs = "saved_blocks (vmCalls v)"
  have i: "wb_inv L (wrappedBlocks v)" "0 < sLastBlockHeight ?s" "sLastBlockHeight ?s < 2 ^ 63" "successively (linked L) ?bs" "tip_ok L ?s ?bs"
    using assms(1) by (simp_all add: chain_inv_def)
  note n = ValidateBlock_next [OF assms(2,3) i(2,3)]
  have "linked L (last ?bs) b" if "?bs \<noteq> []"
  proof -
    have "bHeight b = bHeight (last ?bs) + 1" using assms(5) that by simp
    then have "sLastBlockHeight ?s = bHeight (last ?bs)" using n(1) by simp
    then show ?thesis using i(5) that n assms(5) by (auto simp: tip_ok_def linked_def)
  qed
  then have "successively (linked L) (?bs @ [b])" using i(4) by (auto simp: successively_snoc)
  then show "chain_inv L (v\<lparr>vmCalls := tr\<rparr>)" "chain_inv L (v\<lparr>vmCalls := tr, cState := s'\<rparr>)"
    using i n assms(4,6-9) by (simp_all add: chain_inv_def tip_ok_def)
qed

text \<open>Between saving a block and recording it in the state: the invariant holds with the old and with the new state.\<close>

definition accepting :: "comet \<Rightarrow> outside \<Rightarrow> ids_id \<Rightarrow> comet_state \<Rightarrow> LandslideVM \<Rightarrow> bool" where
  "accepting L X k s' v \<longleftrightarrow> chain_inv L v \<and> chain_inv L (v\<lparr>cState := s'\<rparr>)
     \<and> (known_by_saving L X \<and> saves_ok X \<longrightarrow> missing_ok X {k} v)"

definition applied :: "comet \<Rightarrow> outside \<Rightarrow> comet_state \<Rightarrow> comet_block \<Rightarrow> part_set_header \<Rightarrow> comet_state \<Rightarrow> LandslideVM \<Rightarrow> bool" where
  "applied L X s b psh s' v \<longleftrightarrow> vm_inv L X v \<and> cState v = s \<and> ValidateBlock L s b = None
     \<and> sLastBlockHeight s' = bHeight b \<and> sLastBlockID s' = block_id_of L b psh \<and> sLastBlockTime s' = bTime b"

lemma hoare_ApplyBlock:
  "hoare (\<lambda>v. vm_inv L X v \<and> cState v = s) (lift_exec (ApplyBlock L X s (block_id_of L b psh) b)) (\<lambda>s'. applied L X s b psh s') (vm_inv L X)"
proof (rule hoare_lift)
  fix v s' tr
  assume "vm_inv L X v \<and> cState v = s" and a: "ApplyBlock L X s (block_id_of L b psh) b (vmCalls v) = (Done s', tr)"
  then show "applied L X s b psh s' (v\<lparr>vmCalls := tr\<rparr>)"
    using vm_inv_quiet [OF _ quiet_ApplyBlock, of L X v L X s "block_id_of L b psh" b] ApplyBlock_success [OF a] by (auto simp: applied_def)
next
  fix v e tr
  assume "vm_inv L X v \<and> cState v = s" and "ApplyBlock L X s (block_id_of L b psh) b (vmCalls v) = (Fail e, tr)"
  then show "vm_inv L X (v\<lparr>vmCalls := tr\<rparr>)"
    using vm_inv_quiet [OF _ quiet_ApplyBlock, of L X v L X s "block_id_of L b psh" b] by simp
qed

lemma hoare_save_block:
  assumes "contiguous X" "positive_heights L" "blk_PartSetHeader L b = Inr psh"
  shows "hoare (applied L X s b psh s') (lift_exec (save_block X b psh c)) (\<lambda>_. accepting L X (blk_Hash L b) s') (vm_inv L X)"
proof (rule hoare_lift)
  fix v :: LandslideVM and x :: unit and tr
  assume ap: "applied L X s b psh s' v" and a: "save_block X b psh c (vmCalls v) = (Done x, tr)"
  note r = ap [unfolded applied_def]
  from a have tr: "tr = vmCalls v @ [CSaveBlock b psh c]" and ok: "bs_SaveBlock X (vmCalls v) b"
    by (auto simp: save_block_def p_bind_def split: if_splits)
  have c: "saved_blocks (vmCalls v) = [] \<or> bHeight b = bHeight (last (saved_blocks (vmCalls v))) + 1"
    using assms(1) ok unfolding contiguous_def by blast
  have ch: "chain_inv L (v\<lparr>vmCalls := tr\<rparr>)" "chain_inv L (v\<lparr>vmCalls := tr, cState := s'\<rparr>)"
    using chain_extended [OF _ _ assms(2,3) c, of tr s'] r tr by (auto simp: vm_inv_def)
  have "bs_LoadBlockByHash X tr k = None"
    if "known_by_saving L X" "bs_LoadBlockByHash X (vmCalls v) k = None" "k \<noteq> blk_Hash L b" for k
    using not_known [OF that(1,2), of "[CSaveBlock b psh c]"] that(3) tr by auto
  then show "accepting L X (blk_Hash L b) s' (v\<lparr>vmCalls := tr\<rparr>)"
    using ch r by (auto simp: accepting_def vm_inv_def missing_ok_def)
next
  fix v :: LandslideVM and e tr
  assume "save_block X b psh c (vmCalls v) = (Fail e, tr)"
  then show "vm_inv L X (v\<lparr>vmCalls := tr\<rparr>)" by (auto simp: save_block_def p_bind_def split: if_splits)
qed

lemma hoare_record:
  assumes "length (blk_Hash L b) = 32"
  shows "hoare (accepting L X (blk_Hash L b) s')
     (record_accepted L X (blk_Hash L b) b s')
     (\<lambda>_. vm_inv L X) (vm_inv L X)"
proof -
  let ?k = "blk_Hash L b"
  have keep: "accepting L X ?k s' (v\<lparr>vmCalls := vmCalls v @ [CSaveState s'']\<rparr>)" if "accepting L X ?k s' v" for v s''
    using that not_known [of L X "vmCalls v" _ "[CSaveState s'']"] by (auto simp: accepting_def chain_inv_def missing_ok_def)
  have failed: "vm_inv L X v" if "accepting L X ?k s' v" "ss_Save X tr \<noteq> None" for v tr
    using that by (auto simp: accepting_def vm_inv_def saves_ok_def)
  have store: "hoare (accepting L X ?k s') (lift_exec (call (CSaveState s') (ss_Save X)))
      (\<lambda>r v. accepting L X ?k s' v \<and> (r \<noteq> None \<longrightarrow> vm_inv L X v)) (vm_inv L X)"
    by (rule hoare_lift) (auto intro: keep failed [OF keep])
  have check: "hoare (\<lambda>v. accepting L X ?k s' v \<and> (r \<noteq> None \<longrightarrow> vm_inv L X v)) (p_check (map_option StateStoreErr r))
      (\<lambda>_. accepting L X ?k s') (vm_inv L X)" for r :: "nat option"
    by (cases r) (simp_all add: hoare_def)
  let ?M = "\<lambda>v. chain_inv L v \<and> (known_by_saving L X \<and> saves_ok X \<longrightarrow> missing_ok X {?k} v)"
  have set_state: "hoare (accepting L X ?k s') (p_upd (\<lambda>v. v\<lparr>cState := s'\<rparr>)) (\<lambda>_. ?M) (vm_inv L X)"
    by (rule hoare_upd) (simp add: accepting_def missing_ok_def)
  have unverify: "hoare ?M (on_blocks (unverify_block ?k)) (\<lambda>_. ?M) (vm_inv L X)"
    by (rule hoare_on_blocks) (auto simp: chain_inv_def missing_ok_def unverify_block_spec)
  have evict: "hoare ?M (on_blocks (evict_missing ?k)) (\<lambda>_. vm_inv L X) (vm_inv L X)"
    by (rule hoare_on_blocks) (auto simp: vm_inv_def chain_inv_def missing_ok_def missing_ops_spec)
  show ?thesis
    unfolding record_accepted_def
    by (rule hoare_bind [OF store], rule hoare_bind [OF check], rule hoare_bind [OF set_state], rule hoare_bind [OF unverify],
        rule hoare_bind [OF evict], rule hoare_bind [OF hoare_plain_ops(2)], rule hoare_bind [OF hoare_new_wrapped [OF assms]],
        rule hoare_put_decided) (simp add: plain_def)
qed

lemma hoare_accept_cached:
  assumes "contiguous X" "positive_heights L" "length (blk_Hash L b) = 32"
  shows "hoare (vm_inv L X) (accept_cached L X (blk_Hash L b) b) (\<lambda>_. vm_inv L X) (vm_inv L X)"
proof (cases "blk_PartSetHeader L b")
  case (Inl e)
  then show ?thesis by (simp add: accept_cached_def hoare_def p_bind_def)
next
  case (Inr psh)
  have get: "hoare (vm_inv L X) (p_get cState) (\<lambda>s v. vm_inv L X v \<and> cState v = s) (vm_inv L X)"
    by (rule hoare_get) simp
  show ?thesis
    using hoare_bind [OF get hoare_bind [OF hoare_ApplyBlock hoare_bind [OF hoare_save_block [OF assms(1,2) Inr] hoare_record [OF assms(3)]]]] Inr
    by (simp add: accept_cached_def hoare_def p_bind_def)
qed

lemma hoare_BlockAccept:
  assumes "contiguous X" "positive_heights L"
  shows "hoare (vm_inv L X) (BlockAccept L X bid) (\<lambda>_. vm_inv L X) (vm_inv L X)"
  unfolding BlockAccept_def
proof (rule hoare_bind [OF hoare_ToID [where Q = "\<lambda>_. vm_inv L X"]], simp, simp, goal_cases)
  case (1 k)
  show ?case
  proof (rule hoare_bind [OF hoare_GetCachedBlock], goal_cases)
    case (1 wblk)
    have acc: "hoare (held L X k p w) (accept_cached L X k (wBlock w)) (\<lambda>_. vm_inv L X) (vm_inv L X)" for p w
    proof (rule hoare_pure)
      show "blk_Hash L (wBlock w) = k \<and> length k = 32" if "held L X k p w v" for v using that by (auto simp: held_def good_def)
      assume "blk_Hash L (wBlock w) = k \<and> length k = 32"
      then show "hoare (held L X k p w) (accept_cached L X k (wBlock w)) (\<lambda>_. vm_inv L X) (vm_inv L X)"
        using hoare_weaken [OF hoare_accept_cached [OF assms, of "wBlock w"], of "held L X k p w"] by (simp add: held_def)
    qed
    show ?case
    proof (cases wblk)
      case None
      then show ?thesis by (simp del: p_simps) (rule hoare_fail, simp)
    next
      case (Some p)
      have "hoare (\<lambda>v. vm_inv L X v \<and> good L (wrappedBlocks v) k p) (p_bind (deref p) (\<lambda>w. accept_cached L X k (wBlock w)))
          (\<lambda>_. vm_inv L X) (vm_inv L X)"
        by (rule hoare_bind [OF hoare_deref_held acc])
      from hoare_weaken [OF this, of "\<lambda>v. vm_inv L X v \<and> wblk = lookup (wrappedBlocks v) k \<and> (\<forall>p. wblk = Some p \<longrightarrow> good L (wrappedBlocks v) k p)"]
      show ?thesis using Some by (simp del: p_simps)
    qed
  qed
qed

lemma hoare_cached_case:
  assumes "\<And>p. hoare (\<lambda>v. vm_inv L X v \<and> good L (wrappedBlocks v) k p) (f p) Q (vm_inv L X)"
    and "hoare (\<lambda>v. vm_inv L X v \<and> lookup (wrappedBlocks v) k = None) m Q (vm_inv L X)"
  shows "hoare (vm_inv L X) (p_bind (with_blocks (GetCachedBlock k)) (\<lambda>wblk. case wblk of None \<Rightarrow> m | Some p \<Rightarrow> f p)) Q (vm_inv L X)"
proof (rule hoare_bind [OF hoare_GetCachedBlock], goal_cases)
  case (1 wblk)
  let ?P = "\<lambda>v. vm_inv L X v \<and> wblk = lookup (wrappedBlocks v) k \<and> (\<forall>p. wblk = Some p \<longrightarrow> good L (wrappedBlocks v) k p)"
  show ?case
  proof (cases wblk)
    case None
    then show ?thesis using hoare_weaken [OF assms(2), of ?P] by simp
  next
    case (Some p)
    then show ?thesis using hoare_weaken [OF assms(1) [of p], of ?P] by simp
  qed
qed

lemma hoare_BlockReject: "hoare (vm_inv L X) (BlockReject L bid) (\<lambda>_. vm_inv L X) (vm_inv L X)"
  unfolding BlockReject_def
proof (rule hoare_bind [OF hoare_ToID [where Q = "\<lambda>_. vm_inv L X"]], simp, simp, rule hoare_cached_case, goal_cases)
  case (1 k p)
  let ?R = "\<lambda>v. vm_inv L X v \<and> good L (wrappedBlocks v) k p \<and> plain (wStatus (wHeap (wrappedBlocks v) p))"
  have r: "hoare (\<lambda>v. vm_inv L X v \<and> good L (wrappedBlocks v) k p) (on_blocks (set_status p STATUS_REJECTED)) (\<lambda>_. ?R) (vm_inv L X)"
    by (rule hoare_on_blocks) (auto intro!: vm_inv_blocks set_status_spec vm_inv_wb simp: plain_def, auto simp: good_def set_status_def)
  have u: "hoare ?R (on_blocks (unverify_block k)) (\<lambda>_. ?R) (vm_inv L X)"
    by (rule hoare_on_blocks) (auto intro!: vm_inv_blocks unverify_block_spec vm_inv_wb, auto simp: good_def unverify_block_def)
  have d: "hoare ?R (on_blocks (put_decided L k p)) (\<lambda>_. vm_inv L X) (vm_inv L X)"
    by (rule hoare_on_blocks) (auto intro!: vm_inv_blocks put_decided_spec vm_inv_wb)
  show ?case by (rule hoare_bind [OF r hoare_bind [OF u d]])
next
  case (2 k)
  show ?case by (rule hoare_fail) simp
qed

text \<open>What an answer of \<open>GetBlock\<close> says.\<close>

definition get_post :: "comet \<Rightarrow> outside \<Rightarrow> bytes \<Rightarrow> get_response \<Rightarrow> LandslideVM \<Rightarrow> bool" where
  "get_post L X bid r v \<longleftrightarrow>
     (case r of None \<Rightarrow> known_by_saving L X \<and> saves_ok X \<longrightarrow> bs_LoadBlockByHash X (vmCalls v) bid = None
      | Some g \<Rightarrow> \<exists>b. blk_Hash L b = bid \<and> EncodeBlockWithStatus L b (rgStatus g) = Inr (rgBytes g))"

lemma hoare_get_missing:
  "hoare (vm_inv L X) (with_blocks (get_missing bid)) (\<lambda>r v. vm_inv L X v \<and> (r \<longrightarrow> bid \<in> missing (wrappedBlocks v))) (vm_inv L X)"
proof (rule hoare_with_blocks)
  fix v
  assume i: "vm_inv L X v"
  note s = get_missing_spec [OF vm_inv_wb [OF i], of bid]
  have "vm_inv L X (v\<lparr>wrappedBlocks := snd (get_missing bid (wrappedBlocks v))\<rparr>)"
    by (rule vm_inv_blocks [OF i s(3)]) (use s(2) in \<open>simp add: same_def\<close>)
  then show "vm_inv L X (v\<lparr>wrappedBlocks := snd (get_missing bid (wrappedBlocks v))\<rparr>)
    \<and> (fst (get_missing bid (wrappedBlocks v)) \<longrightarrow> bid \<in> missing (wrappedBlocks (v\<lparr>wrappedBlocks := snd (get_missing bid (wrappedBlocks v))\<rparr>)))"
    using s(1,2) by (simp add: same_def)
qed

lemma hoare_get_answer_post:
  "hoare (\<lambda>v. vm_inv L X v \<and> good L (wrappedBlocks v) bid p) (get_answer L bid p) (\<lambda>r v. vm_inv L X v \<and> get_post L X bid r v) (vm_inv L X)"
  by (rule hoare_post [OF hoare_get_answer]) (auto simp: get_post_def)

lemma hoare_get_load:
  assumes "loads_by_hash L X" "length bid = 32"
  shows "hoare (vm_inv L X) (p_bind (p_get (\<lambda>v. bs_LoadBlockByHash X (vmCalls v) bid)) (\<lambda>blk. case blk of
       None \<Rightarrow> p_bind (on_blocks (put_missing bid)) (\<lambda>_. p_ret None)
     | Some b \<Rightarrow> p_bind (with_blocks (new_wrapped b STATUS_ACCEPTED)) (\<lambda>p. get_answer L bid p)))
     (\<lambda>r v. vm_inv L X v \<and> get_post L X bid r v) (vm_inv L X)"
proof -
  let ?Q = "\<lambda>r v. vm_inv L X v \<and> get_post L X bid r v"
  have load: "hoare (vm_inv L X) (p_get (\<lambda>v. bs_LoadBlockByHash X (vmCalls v) bid)) (\<lambda>r v. vm_inv L X v \<and> r = bs_LoadBlockByHash X (vmCalls v) bid) (vm_inv L X)"
    by (rule hoare_get) simp
  have absent: "hoare (\<lambda>v. vm_inv L X v \<and> None = bs_LoadBlockByHash X (vmCalls v) bid) (p_bind (on_blocks (put_missing bid)) (\<lambda>_. p_ret None)) ?Q (vm_inv L X)"
    by (rule hoare_bind [OF hoare_on_blocks [where Q = "\<lambda>_ v. vm_inv L X v \<and> bs_LoadBlockByHash X (vmCalls v) bid = None"]], rule_tac [2] hoare_ret)
      (use missing_ops_spec in \<open>auto simp: get_post_def vm_inv_def chain_inv_def missing_ok_def dest!: missing_ops_spec(4) [THEN subsetD, rotated]\<close>)
  have present: "hoare (\<lambda>v. vm_inv L X v \<and> Some b = bs_LoadBlockByHash X (vmCalls v) bid)
      (p_bind (with_blocks (new_wrapped b STATUS_ACCEPTED)) (\<lambda>p. get_answer L bid p)) ?Q (vm_inv L X)" for b
  proof (rule hoare_pure)
    show "blk_Hash L b = bid" if "vm_inv L X v \<and> Some b = bs_LoadBlockByHash X (vmCalls v) bid" for v
      using assms(1) that unfolding loads_by_hash_def by metis
    assume h: "blk_Hash L b = bid"
    then have n: "hoare (vm_inv L X) (with_blocks (new_wrapped b STATUS_ACCEPTED)) (\<lambda>p v. vm_inv L X v \<and> good L (wrappedBlocks v) bid p) (vm_inv L X)"
      using hoare_post [OF hoare_new_wrapped [of L b X STATUS_ACCEPTED], of "\<lambda>p v. vm_inv L X v \<and> good L (wrappedBlocks v) bid p"] assms(2)
      by (simp add: held_def)
    show "hoare (\<lambda>v. vm_inv L X v \<and> Some b = bs_LoadBlockByHash X (vmCalls v) bid)
      (p_bind (with_blocks (new_wrapped b STATUS_ACCEPTED)) (\<lambda>p. get_answer L bid p)) ?Q (vm_inv L X)"
      by (rule hoare_weaken [OF hoare_bind [OF n hoare_get_answer_post]]) simp
  qed
  show ?thesis
  proof (rule hoare_bind [OF load], goal_cases)
    case (1 blk)
    show ?case using absent present by (cases blk) (simp_all del: p_simps)
  qed
qed

lemma hoare_get_uncached:
  assumes "loads_by_hash L X" "length bid = 32"
  shows "hoare (vm_inv L X) (p_bind (with_blocks (get_missing bid)) (\<lambda>miss. if miss then p_ret None
     else p_bind (p_get (\<lambda>v. bs_LoadBlockByHash X (vmCalls v) bid)) (\<lambda>blk. case blk of
         None \<Rightarrow> p_bind (on_blocks (put_missing bid)) (\<lambda>_. p_ret None)
       | Some b \<Rightarrow> p_bind (with_blocks (new_wrapped b STATUS_ACCEPTED)) (\<lambda>p. get_answer L bid p))))
     (\<lambda>r v. vm_inv L X v \<and> get_post L X bid r v) (vm_inv L X)"
proof (rule hoare_bind [OF hoare_get_missing], goal_cases)
  case (1 r)
  have "hoare (\<lambda>v. vm_inv L X v \<and> bid \<in> missing (wrappedBlocks v)) (p_ret None) (\<lambda>r v. vm_inv L X v \<and> get_post L X bid r v) (vm_inv L X)"
    by (rule hoare_ret) (auto simp: get_post_def vm_inv_def missing_ok_def)
  then show ?case using hoare_get_load [OF assms] by (cases r) (simp_all del: p_simps)
qed

lemma hoare_GetBlock:
  assumes "loads_by_hash L X"
  shows "hoare (vm_inv L X) (GetBlock L X bid) (\<lambda>r v. vm_inv L X v \<and> get_post L X bid r v) (vm_inv L X)"
  unfolding GetBlock_def
proof (rule hoare_bind [OF hoare_ToID [where Q = "\<lambda>k v. vm_inv L X v \<and> k = bid \<and> length bid = 32"]], simp, simp, goal_cases)
  case (1 k)
  show ?case
  proof (rule hoare_pure)
    show "k = bid \<and> length bid = 32" if "vm_inv L X v \<and> k = bid \<and> length bid = 32" for v using that by simp
    assume "k = bid \<and> length bid = 32"
    then have k: "k = bid" "length bid = 32" by simp_all
    show ?case
      unfolding k by (rule hoare_weaken [OF hoare_cached_case [OF hoare_get_answer_post hoare_weaken [OF hoare_get_uncached [OF assms k(2)]]]]) simp_all
  qed
qed

lemma vm_inv_control [simp]:
  "vm_inv L X (v\<lparr>allowShutdown := a\<rparr>) = vm_inv L X v" "vm_inv L X (v\<lparr>bootstrapped := a\<rparr>) = vm_inv L X v"
  "vm_inv L X (v\<lparr>vmconnected := a\<rparr>) = vm_inv L X v" "vm_inv L X (v\<lparr>vmState := st\<rparr>) = vm_inv L X v"
  "vm_inv L X (v\<lparr>closedChan := ch\<rparr>) = vm_inv L X v" "vm_inv L X (v\<lparr>serverCloser := sc\<rparr>) = vm_inv L X v"
  "vm_inv L X (v\<lparr>connCloser := cc\<rparr>) = vm_inv L X v" "vm_inv L X (v\<lparr>preferred := k\<rparr>) = vm_inv L X v"
  by (simp_all add: vm_inv_def chain_inv_def missing_ok_def)

lemma keeps_bind:
  "\<lbrakk>hoare P m (\<lambda>_. P) P; \<And>x. hoare P (f x) (\<lambda>_. P) P\<rbrakk> \<Longrightarrow> hoare P (p_bind m f) (\<lambda>_. P) P"
  by (rule hoare_bind)

lemma hoare_SetState: "hoare (vm_inv L X) (SetState L X st) (\<lambda>_. vm_inv L X) (vm_inv L X)"
proof -
  have m: "hoare (vm_inv L X) (case st of
         STATE_BOOTSTRAPPING \<Rightarrow> p_upd (\<lambda>v. v\<lparr>bootstrapped := at_Set False (bootstrapped v)\<rparr>)
       | STATE_NORMAL_OP \<Rightarrow> p_upd (\<lambda>v. v\<lparr>bootstrapped := at_Set True (bootstrapped v)\<rparr>)
       | _ \<Rightarrow> p_fail UnknownStateErr) (\<lambda>_. vm_inv L X) (vm_inv L X)"
    by (cases st) (simp_all add: hoare_def)
  show ?thesis
    unfolding SetState_def
    by (rule hoare_bind [OF m]) (auto simp: hoare_def p_bind_def split: option.split)
qed

lemma hoare_Shutdown: "hoare (vm_inv L X) (Shutdown stop close) (\<lambda>_. vm_inv L X) (vm_inv L X)"
  unfolding Shutdown_def
  by (intro keeps_bind hoare_upd hoare_get hoare_check) (simp_all add: hoare_ret hoare_panic hoare_upd split: option.split del: p_simps)

lemma hoare_SetPreference: "hoare (vm_inv L X) (SetPreference bs) (\<lambda>_. vm_inv L X) (vm_inv L X)"
  by (auto simp: SetPreference_def hoare_def split: option.split)

lemma hoare_Connected: "hoare (vm_inv L X) Connected (\<lambda>_. vm_inv L X) (vm_inv L X)"
  "hoare (vm_inv L X) Disconnected (\<lambda>_. vm_inv L X) (vm_inv L X)"
  by (simp_all add: Connected_def Disconnected_def hoare_def)

subsection \<open>Runs\<close>

datatype vm_op = OpBuild "nat \<Rightarrow> gotime" "nat \<Rightarrow> bytes" | OpParse bytes | OpBatchedParse "bytes list" | OpGet bytes
  | OpVerify bytes | OpAccept bytes | OpReject bytes | OpSetState vm_state | OpPreference bytes | OpConnected | OpDisconnected
  | OpShutdown "service \<Rightarrow> nat option" "nat \<Rightarrow> nat option"

definition forget :: "'a handler \<Rightarrow> unit handler" where
  "forget m = p_bind m (\<lambda>_. p_ret ())"

fun vm_exec :: "comet \<Rightarrow> outside \<Rightarrow> vm_op \<Rightarrow> unit handler" where
  "vm_exec L X (OpBuild now rnd) = forget (BuildBlock L X now rnd)"
| "vm_exec L X (OpParse bs) = forget (ParseBlock L bs)"
| "vm_exec L X (OpBatchedParse reqs) = forget (BatchedParseBlock L reqs)"
| "vm_exec L X (OpGet bid) = forget (GetBlock L X bid)"
| "vm_exec L X (OpVerify bs) = forget (BlockVerify L bs)"
| "vm_exec L X (OpAccept bid) = BlockAccept L X bid"
| "vm_exec L X (OpReject bid) = BlockReject L bid"
| "vm_exec L X (OpSetState st) = forget (SetState L X st)"
| "vm_exec L X (OpPreference bs) = SetPreference bs"
| "vm_exec L X OpConnected = Connected"
| "vm_exec L X OpDisconnected = Disconnected"
| "vm_exec L X (OpShutdown stop close) = Shutdown stop close"

text \<open>
  A machine right after its initialisation: the caches are new, the state is past height 0 and at the
  last block saved so far. A run ends at a panic: the process is gone.
\<close>

definition started :: "comet \<Rightarrow> LandslideVM \<Rightarrow> bool" where
  "started L v \<longleftrightarrow> (\<exists>h. wrappedBlocks v = NewWrappedBlocksStorage L h) \<and> 0 < sLastBlockHeight (cState v) \<and> sLastBlockHeight (cState v) < 2 ^ 63
     \<and> successively (linked L) (saved_blocks (vmCalls v)) \<and> tip_ok L (cState v) (saved_blocks (vmCalls v))"

inductive vm_reach :: "comet \<Rightarrow> outside \<Rightarrow> LandslideVM \<Rightarrow> bool" for L X where
  start: "started L v \<Longrightarrow> vm_reach L X v"
| step: "\<lbrakk>vm_reach L X v; vm_exec L X op v = (r, v'); r \<noteq> Panic\<rbrakk> \<Longrightarrow> vm_reach L X v'"

lemma hoare_forget: "hoare P m (\<lambda>_. Q) E \<Longrightarrow> hoare P (forget m) (\<lambda>_. Q) E"
  unfolding forget_def by (erule hoare_bind) (rule hoare_ret)

text \<open>The laws of the block store and of block validation the invariant rests on.\<close>

definition store_laws :: "comet \<Rightarrow> outside \<Rightarrow> bool" where
  "store_laws L X \<longleftrightarrow> contiguous X \<and> positive_heights L \<and> loads_by_hash L X"

lemma hoare_vm_exec:
  assumes "store_laws L X"
  shows "hoare (vm_inv L X) (vm_exec L X op) (\<lambda>_. vm_inv L X) (vm_inv L X)"
proof -
  have laws: "contiguous X" "positive_heights L" "loads_by_hash L X" using assms by (simp_all add: store_laws_def)
  show ?thesis
  proof (cases op)
    case (OpBatchedParse reqs)
    show ?thesis unfolding OpBatchedParse vm_exec.simps
      by (rule hoare_forget, rule hoare_post [OF hoare_BatchedParseBlock]) simp
  next
    case (OpParse bs)
    show ?thesis unfolding OpParse vm_exec.simps by (rule hoare_forget, rule hoare_post [OF hoare_ParseBlock]) simp
  next
    case (OpGet bid)
    show ?thesis unfolding OpGet vm_exec.simps by (rule hoare_forget, rule hoare_post [OF hoare_GetBlock [OF laws(3)]]) simp
  qed (simp_all add: hoare_forget hoare_BuildBlock hoare_BlockVerify hoare_BlockAccept [OF laws(1,2)] hoare_BlockReject hoare_SetState
      hoare_SetPreference hoare_Connected hoare_Shutdown)
qed

lemma new_missing [simp]: "missing (NewWrappedBlocksStorage L h) = {}"
  by (simp add: missing_def NewWrappedBlocksStorage_def lru_contents_def lru_al_def lru_map_def lh_al_new)

lemma started_inv: "started L v \<Longrightarrow> vm_inv L X v"
  using NewWrappedBlocksStorage_inv by (auto simp: started_def vm_inv_def chain_inv_def missing_ok_def)

theorem vm_reach_inv:
  assumes "store_laws L X" "vm_reach L X v"
  shows "vm_inv L X v"
  using assms(2)
proof induction
  case (start v)
  then show ?case by (rule started_inv)
next
  case (step v op r v')
  then show ?case
    using hoareD [OF hoare_vm_exec [OF assms(1)] step.IH, of op] by (cases r) simp_all
qed

end
