(* ===== verification/VM_Properties.thy ===== *)
theory VM_Properties
  imports VM_Runs
begin

text \<open>
  What the virtual machine promises to the engine that drives it, along every run: the accepted blocks are a
  chain, blocks are served and parsed under their own ids, an accepted block can be read back, and a
  block the machine builds passes its own verification; and two cases in which it fails.
\<close>

subsection \<open>Accepting and reading back\<close>

definition accepted_at :: "comet \<Rightarrow> outside \<Rightarrow> comet_block \<Rightarrow> LandslideVM \<Rightarrow> bool" where
  "accepted_at L X b v \<longleftrightarrow> wb_inv L (wrappedBlocks v) \<and> VerifiedBlocks (wrappedBlocks v) (blk_Hash L b) = None
     \<and> (\<forall>q. decided (wrappedBlocks v) (blk_Hash L b) = Some q \<longrightarrow> wHeap (wrappedBlocks v) q = \<lparr>wBlock = b, wStatus = STATUS_ACCEPTED\<rparr>)
     \<and> unverified (wrappedBlocks v) (blk_Hash L b) = None \<and> blk_Hash L b \<notin> missing (wrappedBlocks v)
     \<and> bs_LoadBlockByHash X (vmCalls v) (blk_Hash L b) = Some b
     \<and> saved_blocks (vmCalls v) \<noteq> [] \<and> last (saved_blocks (vmCalls v)) = b \<and> sLastBlockHeight (cState v) = bHeight b"

lemma record_accepted_Done:
  assumes "record_accepted L X k b s' v = (Done (), v')"
  shows "v' = v\<lparr>vmCalls := vmCalls v @ [CSaveState s'], cState := s', wrappedBlocks :=
    (let st = evict_unverified L k (evict_missing k (unverify_block k (wrappedBlocks v)))
     in put_decided L k (fst (new_wrapped b STATUS_ACCEPTED st)) (snd (new_wrapped b STATUS_ACCEPTED st)))\<rparr>"
proof (cases "ss_Save X (vmCalls v)")
  case None
  then show ?thesis using assms
    by (simp add: record_accepted_def p_bind_def lift_exec_def on_blocks_def with_blocks_def split_def Let_def)
next
  case (Some e)
  then show ?thesis using assms by (simp add: record_accepted_def p_bind_def lift_exec_def)
qed

lemma accepted_storage:
  assumes "wb_inv L st" "length (blk_Hash L b) = 32"
  defines "k \<equiv> blk_Hash L b"
  defines "st1 \<equiv> evict_unverified L k (evict_missing k (unverify_block k st))"
  defines "st2 \<equiv> snd (new_wrapped b STATUS_ACCEPTED st1)" and "q \<equiv> fst (new_wrapped b STATUS_ACCEPTED st1)"
  defines "st3 \<equiv> put_decided L k q st2"
  shows "wb_inv L st3" "VerifiedBlocks st3 k = None" "unverified st3 k = None" "k \<notin> missing st3"
    "decided st3 k = Some p \<Longrightarrow> wHeap st3 p = \<lparr>wBlock = b, wStatus = STATUS_ACCEPTED\<rparr>"
proof -
  have i0: "wb_inv L (evict_missing k (unverify_block k st))" by (intro missing_ops_spec unverify_block_spec assms)
  have i1: "wb_inv L st1" unfolding st1_def by (rule evict_unverified_spec(1) [OF i0])
  note n = new_wrapped_spec [OF i1, of b STATUS_ACCEPTED, folded st2_def q_def k_def]
  have d: "wb_inv L st3" "decided st3 \<subseteq>\<^sub>m (decided st2)(k \<mapsto> q)"
    unfolding st3_def using put_decided_spec [OF n(1) n(3)] n(2) assms(2) by (simp_all add: plain_def k_def)
  then show "wb_inv L st3" by simp
  have u: "unverified st1 k = None" using evict_unverified_spec(2) [OF i0] by (simp add: st1_def)
  have m: "k \<notin> missing st1"
    using missing_ops_spec(2) [OF unverify_block_spec [OF assms(1)], of k] by (simp add: st1_def)
  have e: "unverified st3 = unverified st1" "missing st3 = missing st1" "VerifiedBlocks st3 = VerifiedBlocks st1" "wHeap st3 = wHeap st2"
    by (simp_all add: st3_def st2_def put_decided_def new_wrapped_def)
  show "VerifiedBlocks st3 k = None" by (simp add: e st1_def evict_unverified_def evict_missing_def unverify_block_def)
  show "unverified st3 k = None" "k \<notin> missing st3" using u m by (simp_all add: e)
  show "wHeap st3 p = \<lparr>wBlock = b, wStatus = STATUS_ACCEPTED\<rparr>" if "decided st3 k = Some p"
    using map_le_Some [OF d(2) that] n(2) by (simp add: e)
qed

lemma last_saved: "saved_blocks ((tr @ [CSaveBlock b psh c]) @ [CSaveState s]) \<noteq> [] \<and> last (saved_blocks ((tr @ [CSaveBlock b psh c]) @ [CSaveState s])) = b"
  by simp

lemma accept_cached_Done:
  assumes "accept_cached L X (blk_Hash L b) b v = (Done (), v')" "wb_inv L (wrappedBlocks v)" "length (blk_Hash L b) = 32" "saved_is_known L X"
  shows "accepted_at L X b v'" "saved_blocks (vmCalls v') = saved_blocks (vmCalls v) @ [b]"
proof -
  from assms(1) obtain psh s' v1 c v2 where
    a: "lift_exec (ApplyBlock L X (cState v) (block_id_of L b psh) b) v = (Done s', v1)" and
    s: "lift_exec (save_block X b psh c) v1 = (Done (), v2)" and r: "record_accepted L X (blk_Hash L b) b s' v2 = (Done (), v')"
    unfolding accept_cached_def by (auto elim!: p_bind_DoneE simp: p_of_def split: sum.splits)
  from a obtain tr where tr: "ApplyBlock L X (cState v) (block_id_of L b psh) b (vmCalls v) = (Done s', tr)" "v1 = v\<lparr>vmCalls := tr\<rparr>"
    by (auto simp: lift_exec_def split: prod.splits outcome.splits)
  from s have v2: "v2 = v1\<lparr>vmCalls := vmCalls v1 @ [CSaveBlock b psh c]\<rparr>"
    by (auto simp: lift_exec_def save_block_def p_bind_def split: if_splits)
  have h: "sLastBlockHeight s' = bHeight b" using ApplyBlock_success [OF tr(1)] by blast
  define st where "st = evict_unverified L (blk_Hash L b) (evict_missing (blk_Hash L b) (unverify_block (blk_Hash L b) (wrappedBlocks v)))"
  note v' = record_accepted_Done [OF r]
  have w: "wrappedBlocks v' = put_decided L (blk_Hash L b) (fst (new_wrapped b STATUS_ACCEPTED st)) (snd (new_wrapped b STATUS_ACCEPTED st))"
    and c: "cState v' = s'" "vmCalls v' = (tr @ [CSaveBlock b psh c]) @ [CSaveState s']"
    by (simp_all add: v' v2 tr(2) st_def Let_def)
  have "bs_LoadBlockByHash X (vmCalls v') (blk_Hash L b) = Some b" using assms(4) unfolding c(2) saved_is_known_def by metis
  then have "bs_LoadBlockByHash X ((tr @ [CSaveBlock b psh c]) @ [CSaveState s']) (blk_Hash L b) = Some b" unfolding c(2) .
  moreover note accepted_storage [OF assms(2,3), folded st_def]
  ultimately show "accepted_at L X b v'" unfolding accepted_at_def w c using h last_saved [of tr b psh c s'] by blast
  obtain cs where "tr = vmCalls v @ cs" "saved_blocks cs = []"
    using quiet_ApplyBlock [of L X "cState v" "block_id_of L b psh" b] tr(1) unfolding quiet_def by (metis snd_conv)
  then show "saved_blocks (vmCalls v') = saved_blocks (vmCalls v) @ [b]" by (simp add: c)
qed

lemma get_answer_accepted:
  assumes "wHeap (wrappedBlocks v) p = \<lparr>wBlock = b, wStatus = STATUS_ACCEPTED\<rparr>"
  shows "fst (get_answer L k p v) =
    (case EncodeBlockWithStatus L b STATUS_ACCEPTED of
       Inl e \<Rightarrow> Fail (LibErr e)
     | Inr bs \<Rightarrow> Done (Some \<lparr>rgParentId = hash_bytes (bLastBlockID b), rgBytes = bs, rgStatus = STATUS_ACCEPTED,
         rgHeight = of_int (bHeight b), rgTimestamp = bTime b\<rparr>))"
  using assms by (simp add: get_answer_def deref_def on_blocks_def p_bind_def p_of_def split: sum.split)

lemma GetBlock_accepted:
  assumes "accepted_at L X b v" "length (blk_Hash L b) = 32"
  shows "fst (GetBlock L X (blk_Hash L b) v) =
    (case EncodeBlockWithStatus L b STATUS_ACCEPTED of
       Inl e \<Rightarrow> Fail (LibErr e)
     | Inr bs \<Rightarrow> Done (Some \<lparr>rgParentId = hash_bytes (bLastBlockID b), rgBytes = bs, rgStatus = STATUS_ACCEPTED,
         rgHeight = of_int (bHeight b), rgTimestamp = bTime b\<rparr>))"
proof -
  let ?k = "blk_Hash L b" and ?st = "wrappedBlocks v"
  have w: "wb_inv L ?st" and f: "VerifiedBlocks ?st ?k = None" "unverified ?st ?k = None" "?k \<notin> missing ?st"
    "bs_LoadBlockByHash X (vmCalls v) ?k = Some b"
    "\<And>q. decided ?st ?k = Some q \<Longrightarrow> wHeap ?st q = \<lparr>wBlock = b, wStatus = STATUS_ACCEPTED\<rparr>"
    using assms(1) by (auto simp: accepted_at_def)
  obtain r st1 where c: "GetCachedBlock ?k ?st = (r, st1)" by fastforce
  note s = GetCachedBlock_spec [OF w, of ?k, unfolded c, simplified]
  show ?thesis
  proof (cases r)
    case (Some q)
    then have "wHeap st1 q = \<lparr>wBlock = b, wStatus = STATUS_ACCEPTED\<rparr>" using s(1,2) f by (simp add: lookup_def same_def split: option.splits)
    then show ?thesis
      using get_answer_accepted [of "v\<lparr>wrappedBlocks := st1\<rparr>" q b L ?k] assms(2) c Some
      by (simp add: GetBlock_def p_bind_def p_ToID_def ToID_def with_blocks_def)
  next
    case None
    obtain m st2 where m: "get_missing ?k st1 = (m, st2)" by fastforce
    have "\<not> m" using get_missing_spec(1) [OF s(3), of ?k] s(2) f(3) m by (simp add: same_def)
    moreover have "wHeap (snd (new_wrapped b STATUS_ACCEPTED st2)) (fst (new_wrapped b STATUS_ACCEPTED st2)) = \<lparr>wBlock = b, wStatus = STATUS_ACCEPTED\<rparr>"
      by (simp add: new_wrapped_def)
    ultimately show ?thesis
      using get_answer_accepted [of "v\<lparr>wrappedBlocks := snd (new_wrapped b STATUS_ACCEPTED st2)\<rparr>" "fst (new_wrapped b STATUS_ACCEPTED st2)" b L ?k]
        assms(2) c None m f(4)
      by (simp add: GetBlock_def p_bind_def p_ToID_def ToID_def with_blocks_def split_def)
  qed
qed

lemma BlockAccept_Done:
  assumes "BlockAccept L X bid v = (Done (), v')" "vm_inv L X v" "saved_is_known L X"
  shows "\<exists>b. blk_Hash L b = bid \<and> length bid = 32 \<and> accepted_at L X b v' \<and> saved_blocks (vmCalls v') = saved_blocks (vmCalls v) @ [b]"
proof -
  have w: "wb_inv L (wrappedBlocks v)" by (rule vm_inv_wb [OF assms(2)])
  obtain r st1 where c: "GetCachedBlock bid (wrappedBlocks v) = (r, st1)" by fastforce
  note s = GetCachedBlock_spec [OF w, of bid, unfolded c, simplified]
  have l: "length bid = 32" using assms(1) by (auto simp: BlockAccept_def p_bind_def p_ToID_def ToID_def split: if_splits)
  then obtain p where p: "r = Some p"
    using assms(1) c by (cases r) (simp_all add: BlockAccept_def p_bind_def p_ToID_def ToID_def with_blocks_def)
  let ?b = "wBlock (wHeap st1 p)"
  have "accept_cached L X bid ?b (v\<lparr>wrappedBlocks := st1\<rparr>) = (Done (), v')"
    using assms(1) c p l by (simp add: BlockAccept_def p_bind_def p_ToID_def ToID_def with_blocks_def deref_def)
  moreover have "good L st1 bid p" using wb_inv_lookup [OF s(3)] same_lookup [OF s(2)] s(1) p by metis
  then have "blk_Hash L ?b = bid" by (simp add: good_def)
  ultimately show ?thesis using accept_cached_Done [of L X ?b "v\<lparr>wrappedBlocks := st1\<rparr>" v'] s(3) l assms(3) by (intro exI [of _ ?b]) simp
qed

subsection \<open>Building a block that verifies\<close>

text \<open>
  What the machine relies on in CometBFT: \<open>MakeBlock\<close> fills the header from the state and takes the median
  time of the commit, \<open>ToCommit\<close> drops the extensions, a weighted median is one of its times, and the block encoding
  can be read back.
\<close>

definition make_block_law :: "comet \<Rightarrow> bool" where
  "make_block_law L \<longleftrightarrow> (\<forall>s h txs c a. let b = st_MakeBlock L s h txs c a in
     bHeader b = \<lparr>hVersionBlock = sVersionBlock s, hVersionApp = sVersionApp s, hChainID = sChainID s, hHeight = h,
       hTime = (if h = sInitialHeight s then sLastBlockTime s else MedianTime L c (sLastValidators s)), hLastBlockID = sLastBlockID s,
       hValidatorsHash = vals_Hash L (sValidators s), hNextValidatorsHash = vals_Hash L (sNextValidators s),
       hConsensusHash = cp_Hash L (sConsensusParams s), hAppHash = sAppHash s, hLastResultsHash = sLastResultsHash s,
       hProposerAddress = a\<rparr> \<and> bTxs b = txs \<and> bEvidence b = [] \<and> bLastCommit b = c)"

definition powers :: "(gotime \<times> int) option list \<Rightarrow> int" where
  "powers ws = sum_list (map (\<lambda>w. case w of None \<Rightarrow> 0 | Some (t, p) \<Rightarrow> p) ws)"

definition median_law :: "comet \<Rightarrow> bool" where
  "median_law L \<longleftrightarrow> (\<forall>ws. (\<exists>x. Some x \<in> set ws) \<and> (\<forall>t p. Some (t, p) \<in> set ws \<longrightarrow> 0 < p)
     \<longrightarrow> (\<exists>p. Some (WeightedMedian L ws (powers ws), p) \<in> set ws))"

definition comet_laws :: "comet \<Rightarrow> bool" where
  "comet_laws L \<longleftrightarrow> make_block_law L \<and> median_law L \<and> AddressSize L = 20 \<and> (\<forall>bid. bid_Equals L bid bid)
     \<and> (\<forall>ec. cmSignatures (ec_ToCommit L ec) = map ecsSig (ecSignatures ec))
     \<and> (\<forall>b s bs. EncodeBlockWithStatus L b s = Inr bs \<longrightarrow> DecodeBlockWithStatus L bs = Inr (b, s))"

text \<open>
  The state a block is built on: past the initial height, an honest clock, positive voting powers whose sum fits,
  some validator that was already there for the last block, and a limit that allows no evidence at all. The
  built blocks are well formed by the standards of CometBFT.
\<close>

definition ready :: "comet \<Rightarrow> comet_state \<Rightarrow> (nat \<Rightarrow> gotime) \<Rightarrow> bool" where
  "ready L s now \<longleftrightarrow> 0 < sLastBlockHeight s \<and> sLastBlockHeight s < 2 ^ 63 - 1 \<and> sInitialHeight s \<le> sLastBlockHeight s
     \<and> (\<forall>i. sLastBlockTime s \<le> now i) \<and> ev_ByteSize L [] \<le> cpEvidenceMaxBytes (sConsensusParams s)
     \<and> (\<forall>a w. vals_GetByAddress L (sLastValidators s) a = Some w \<longrightarrow> 0 < valPower w)
     \<and> (\<exists>w\<in>set (sValidators s). vals_GetByAddress L (sLastValidators s) (valAddress w) \<noteq> None)
     \<and> sum_list (map (\<lambda>w. case vals_GetByAddress L (sLastValidators s) (valAddress w) of None \<Rightarrow> 0 | Some u \<Rightarrow> valPower u) (sValidators s)) < 2 ^ 63
     \<and> (\<forall>txs c. length (cmSignatures c) = length (sValidators s)
          \<longrightarrow> blk_ValidateBasic L (st_MakeBlock L s (sLastBlockHeight s + 1) txs c proposerAddress) = None)"

lemma powers_nonneg: "(\<forall>t p. Some (t, p) \<in> set ws \<longrightarrow> 0 < p) \<Longrightarrow> 0 \<le> powers ws"
  unfolding powers_def by (rule sum_list_nonneg) (force split: option.splits)

lemma median_loop_eq:
  assumes "\<forall>t p. Some (t, p) \<in> set (map (weighted_time L vals) sigs) \<longrightarrow> 0 < p" "0 \<le> acc"
    and "acc + powers (map (weighted_time L vals) sigs) < 2 ^ 63"
  shows "median_loop L vals sigs acc = (map (weighted_time L vals) sigs, acc + powers (map (weighted_time L vals) sigs))"
  using assms
proof (induction sigs arbitrary: acc)
  case Nil
  then show ?case by (simp add: powers_def)
next
  case (Cons s sigs)
  let ?p = "case weighted_time L vals s of None \<Rightarrow> 0 | Some (t, p) \<Rightarrow> p"
  have pos: "\<forall>t p. Some (t, p) \<in> set (map (weighted_time L vals) sigs) \<longrightarrow> 0 < p" using Cons.prems(1) by auto
  have p: "0 \<le> ?p" using Cons.prems(1) by (force split: option.splits)
  have sum: "powers (map (weighted_time L vals) (s # sigs)) = ?p + powers (map (weighted_time L vals) sigs)" by (simp add: powers_def)
  have "acc + ?p < 2 ^ 63" using Cons.prems(3) powers_nonneg [OF pos] unfolding sum by linarith
  then have acc: "(case weighted_time L vals s of None \<Rightarrow> acc | Some (t, p) \<Rightarrow> wrap64 (acc + p)) = acc + ?p"
    using Cons.prems(2) p wrap64_id [of "acc + ?p"] by (auto split: option.splits)
  have "median_loop L vals sigs (acc + ?p) = (map (weighted_time L vals) sigs, acc + ?p + powers (map (weighted_time L vals) sigs))"
    by (rule Cons.IH [OF pos]) (use Cons.prems(2,3) p sum in linarith)+
  then show ?case using acc sum by (simp add: Let_def)
qed

lemma powers_enumerate:
  "powers (map (\<lambda>(i, w). map_option (\<lambda>u. (now i, valPower u)) (g w)) (List.enumerate n xs)) =
     sum_list (map (\<lambda>w. case g w of None \<Rightarrow> 0 | Some u \<Rightarrow> valPower u) xs)"
  by (induction xs arbitrary: n) (simp_all add: powers_def split: option.split)

lemma built_time:
  assumes "median_law L" "ready L s now" "cmSignatures c = map (\<lambda>(i, w). \<lparr>csFlag = FlagNil, csAddress = valAddress w, csTime = now i, csSignature = rnd i\<rparr>) (List.enumerate 0 (sValidators s))"
  shows "sLastBlockTime s \<le> MedianTime L c (sLastValidators s)"
proof -
  let ?ws = "map (weighted_time L (sLastValidators s)) (cmSignatures c)"
  let ?g = "\<lambda>w :: validator. vals_GetByAddress L (sLastValidators s) (valAddress w)"
  have ws: "?ws = map (\<lambda>(i, w). map_option (\<lambda>u. (now i, valPower u)) (?g w)) (List.enumerate 0 (sValidators s))"
    by (simp add: assms(3) weighted_time_def split_def)
  have pos: "\<forall>t p. Some (t, p) \<in> set ?ws \<longrightarrow> 0 < p \<and> sLastBlockTime s \<le> t"
  proof (intro allI impI)
    fix t p
    assume "Some (t, p) \<in> set ?ws"
    then obtain x :: "nat \<times> validator" where x: "Some (t, p) = (case x of (i, w) \<Rightarrow> map_option (\<lambda>u. (now i, valPower u)) (?g w))"
      unfolding ws set_map image_iff by (elim bexE)
    then obtain u where "?g (snd x) = Some u" "t = now (fst x)" "p = valPower u" by (cases "?g (snd x)") (simp_all add: split_def)
    then show "0 < p \<and> sLastBlockTime s \<le> t" using assms(2) unfolding ready_def by simp
  qed
  have sum: "powers ?ws = sum_list (map (\<lambda>w. case ?g w of None \<Rightarrow> 0 | Some u \<Rightarrow> valPower u) (sValidators s))"
    unfolding ws by (rule powers_enumerate)
  have some: "\<exists>x. Some x \<in> set ?ws"
  proof -
    obtain w where w: "w \<in> set (sValidators s)" "?g w \<noteq> None" using assms(2) unfolding ready_def by blast
    from w(1) obtain i where "i < length (sValidators s)" "sValidators s ! i = w" by (auto simp: in_set_conv_nth)
    then have "(i, w) \<in> set (List.enumerate 0 (sValidators s))" by (auto simp: in_set_enumerate_eq)
    then have "map_option (\<lambda>u. (now i, valPower u)) (?g w) \<in> set ?ws" unfolding ws set_map by (rule rev_image_eqI) simp
    then show ?thesis using w(2) by (cases "?g w") auto
  qed
  have "median_loop L (sLastValidators s) (cmSignatures c) 0 = (?ws, 0 + powers ?ws)"
  proof (rule median_loop_eq)
    show "0 + powers ?ws < 2 ^ 63" unfolding sum using assms(2) unfolding ready_def by simp
  qed (use pos in blast, simp)
  then have "MedianTime L c (sLastValidators s) = WeightedMedian L ?ws (powers ?ws)" by (simp add: MedianTime_def)
  moreover obtain p where "Some (WeightedMedian L ?ws (powers ?ws), p) \<in> set ?ws"
    using assms(1) [unfolded median_law_def, rule_format, of ?ws] some pos by blast
  ultimately show ?thesis using pos by simp
qed

lemma file_built_Done:
  assumes "file_built L b v = (Done r, v')"
  shows "cState v' = cState v" "EncodeBlockWithStatus L b STATUS_PROCESSING = Inr (rbBytes r)" "rbTimestamp r = bTime b" "rbId r = blk_Hash L b"
    "length (blk_Hash L b) = 32"
  using assms
  by (cases "EncodeBlockWithStatus L b STATUS_PROCESSING"; cases "length (blk_Hash L b) = 32";
    auto simp: file_built_def p_bind_def p_ToID_def ToID_def on_blocks_def with_blocks_def split_def)+

lemma CreateProposalBlock_Done:
  assumes "CreateProposalBlock L X ex h s ec a tr = (Done b, tr')"
  shows "\<exists>txs. b = st_MakeBlock L s h txs (ec_ToCommit L ec) a"
proof -
  have "hoare (\<lambda>_. True) (CreateProposalBlock L X ex h s ec a) (\<lambda>b _. \<exists>txs. b = st_MakeBlock L s h txs (ec_ToCommit L ec) a) (\<lambda>_. True)"
    unfolding CreateProposalBlock_def Let_def by (intro hoare_bind [where R = "\<lambda>_ _. True"] hoare_ret) (auto simp: hoare_def split: prod.split outcome.split)
  from hoareD(1) [OF this _ assms] show ?thesis by simp
qed

lemma BuildBlock_Done:
  assumes "BuildBlock L X now rnd v = (Done r, v')"
  shows "cState v' = cState v" "\<exists>txs. file_built L (st_MakeBlock L (cState v) (wrap64 (sLastBlockHeight (cState v) + 1)) txs
    (ec_ToCommit L (last_commit (cState v) now rnd)) proposerAddress) (v\<lparr>vmCalls := vmCalls v'\<rparr>) = (Done r, v')"
proof -
  let ?s = "cState v"
  let ?m = "CreateProposalBlock L X (vm_executor v) (wrap64 (sLastBlockHeight ?s + 1)) ?s (last_commit ?s now rnd) proposerAddress"
  have "p_bind (lift_exec ?m) (file_built L) v = (Done r, v')" using assms by (simp add: BuildBlock_def p_bind_def Let_def)
  then obtain b v1 where b: "lift_exec ?m v = (Done b, v1)" "file_built L b v1 = (Done r, v')" by (rule p_bind_DoneE)
  from b(1) obtain tr where m: "?m (vmCalls v) = (Done b, tr)" "v1 = v\<lparr>vmCalls := tr\<rparr>"
    by (auto simp: lift_exec_def split: prod.splits outcome.splits)
  then show "cState v' = ?s" using file_built_Done(1) [OF b(2)] by simp
  have "vmCalls v' = tr" using b(2) m(2)
    by (cases "EncodeBlockWithStatus L b STATUS_PROCESSING"; cases "length (blk_Hash L b) = 32";
      auto simp: file_built_def p_bind_def p_ToID_def ToID_def on_blocks_def with_blocks_def split_def)
  then show "\<exists>txs. file_built L (st_MakeBlock L ?s (wrap64 (sLastBlockHeight ?s + 1)) txs (ec_ToCommit L (last_commit ?s now rnd)) proposerAddress)
      (v\<lparr>vmCalls := vmCalls v'\<rparr>) = (Done r, v')"
    using CreateProposalBlock_Done [OF m(1)] b(2) m(2) by auto
qed

lemma built_block_valid:
  assumes "comet_laws L" "ready L s now" "cmSignatures c = map (\<lambda>(i, w). \<lparr>csFlag = FlagNil, csAddress = valAddress w, csTime = now i, csSignature = rnd i\<rparr>) (List.enumerate 0 (sValidators s))"
  shows "ValidateBlock L s (st_MakeBlock L s (sLastBlockHeight s + 1) txs c proposerAddress) = None"
proof -
  let ?b = "st_MakeBlock L s (sLastBlockHeight s + 1) txs c proposerAddress"
  have laws: "make_block_law L" "median_law L" "AddressSize L = 20" "\<And>bid. bid_Equals L bid bid" using assms(1) by (simp_all add: comet_laws_def)
  have st: "0 < sLastBlockHeight s" "sLastBlockHeight s < 2 ^ 63 - 1" "sInitialHeight s \<le> sLastBlockHeight s"
    "ev_ByteSize L [] \<le> cpEvidenceMaxBytes (sConsensusParams s)" using assms(2) by (simp_all add: ready_def)
  have basic: "blk_ValidateBasic L ?b = None" using assms(2,3) by (simp add: ready_def)
  note b = laws(1) [unfolded make_block_law_def Let_def, rule_format, of s "sLastBlockHeight s + 1" txs c proposerAddress]
  have w: "wrap64 (sLastBlockHeight s + 1) = sLastBlockHeight s + 1" using st by (intro wrap64_id) simp_all
  have "ValidateBlockTime L s ?b = None"
    using b st built_time [OF laws(2) assms(2,3)] by (auto simp: ValidateBlockTime_def)
  then show ?thesis
    using b basic laws(3,4) st w by (simp add: ValidateBlock_def proposerAddress_def)
qed

lemma built_block_verifies:
  assumes "comet_laws L" "ready L (cState v) now" "BuildBlock L X now rnd v = (Done r, v')"
  shows "\<exists>v''. BlockVerify L (rbBytes r) v' = (Done (rbTimestamp r), v'') \<and> VerifiedBlocks (wrappedBlocks v'') (rbId r) \<noteq> None"
proof -
  let ?s = "cState v" and ?c = "ec_ToCommit L (last_commit (cState v) now rnd)"
  have h: "wrap64 (sLastBlockHeight ?s + 1) = sLastBlockHeight ?s + 1" using assms(2) by (intro wrap64_id) (simp_all add: ready_def)
  obtain txs where f: "file_built L (st_MakeBlock L ?s (sLastBlockHeight ?s + 1) txs ?c proposerAddress) (v\<lparr>vmCalls := vmCalls v'\<rparr>) = (Done r, v')"
    using BuildBlock_Done(2) [OF assms(3)] unfolding h by blast
  define b where "b = st_MakeBlock L ?s (sLastBlockHeight ?s + 1) txs ?c proposerAddress"
  note f = file_built_Done [OF f [folded b_def]]
  have d: "DecodeBlockWithStatus L (rbBytes r) = Inr (b, STATUS_PROCESSING)" using assms(1) f(2) by (simp add: comet_laws_def)
  have c: "cmSignatures ?c = map (\<lambda>(i, w). \<lparr>csFlag = FlagNil, csAddress = valAddress w, csTime = now i, csSignature = rnd i\<rparr>) (List.enumerate 0 (sValidators ?s))"
    using assms(1) by (simp add: comet_laws_def last_commit_def split_def)
  have v: "ValidateBlock L (cState v') b = None"
    using built_block_valid [OF assms(1,2) c, of txs] BuildBlock_Done(1) [OF assms(3)] by (simp add: b_def)
  show ?thesis
    using d v f(3-5)
    by (simp add: BlockVerify_def p_bind_def p_ToID_def ToID_def on_blocks_def with_blocks_def new_wrapped_def verify_block_def split_def)
qed

lemma BuildBlock_panics:
  assumes "sInitialHeight (cState v) \<le> sLastBlockHeight (cState v)"
    and "\<forall>tr. ss_LoadValidators X tr (sLastBlockHeight (cState v)) = Inr vals" "length vals \<noteq> length (sValidators (cState v))"
  shows "fst (BuildBlock L X now rnd v) = Panic"
  using assms
  by (simp add: BuildBlock_def Let_def p_bind_def lift_exec_def CreateProposalBlock_def buildExtendedCommitInfoFromStore_def
    BuildExtendedCommitInfo_def last_commit_def)

subsection \<open>Blocks that do not fit the cache\<close>

lemma slru_put_too_big: "maxSize c < size_fn c k v \<Longrightarrow> slru_contents (slru_put c k v) = Map.empty"
  by (simp add: slru_put_unfold slru_flush_def slru_contents_def slru_al_def lhm.al_new)

lemma slru_put_fits:
  assumes "slru_inv c" "size_fn c k v \<le> maxSize c"
  shows "slru_contents (slru_put c k v) k = Some v"
proof -
  obtain j where "slru_al (slru_put c k v) = al_put k v (drop j (slru_al c))" using slru_put_cases [OF assms(1), of k v] assms(2) by force
  then show ?thesis by (simp add: slru_contents_def map_of_al_put)
qed

definition big :: "comet \<Rightarrow> comet_block \<Rightarrow> bool" where
  "big L b \<longleftrightarrow> (\<exists>n. blk_JSONLen L b = Some n \<and> 9931 < n)"

lemma fresh_slru:
  "slru_get (NewSizedLRU z mx sf) k = (None, NewSizedLRU z mx sf)" "slru_contents (NewSizedLRU z mx sf) = Map.empty"
  "maxSize (NewSizedLRU z mx sf) = mx" "size_fn (NewSizedLRU z mx sf) = sf"
  by (simp_all add: slru_get_def NewSizedLRU_def lh_get_def lh_new_def slru_contents_def slru_al_def lh_al_def)

lemma big_size: "\<lbrakk>big L b; plain s; h p = \<lparr>wBlock = b, wStatus = s\<rparr>\<rbrakk> \<Longrightarrow> 10000 < cachedBlockSize L h k p"
  by (auto simp: big_def cachedBlockSize_def wrapped_json_len_def status_len_def plain_def)

text \<open>A machine that has the id of the bytes but not the block.\<close>

lemma ParseBlock_stuck:
  assumes "wb_inv L (wrappedBlocks v)" "bytes_ids (wrappedBlocks v) bs = Some k" "lookup (wrappedBlocks v) k = None"
  shows "fst (ParseBlock L bs v) = Fail (UnexpectedStatus k STATUS_UNSPECIFIED)"
proof -
  obtain r st1 where g: "get_bytes_id bs (wrappedBlocks v) = (r, st1)" by fastforce
  note s = get_bytes_id_spec [OF assms(1), of bs, unfolded g, simplified]
  obtain p st2 where c: "GetCachedBlock k st1 = (p, st2)" by fastforce
  have "p = None" using GetCachedBlock_spec(1) [OF s(3), of k] c same_lookup [OF s(2)] assms(3) by simp
  then show ?thesis using g c s(1) assms(2) by (simp add: ParseBlock_def parse_id_def p_bind_def with_blocks_def)
qed

lemma ParseBlock_big:
  assumes "wrappedBlocks v = NewWrappedBlocksStorage L h" "DecodeBlockWithStatus L bs = Inr (b, s)" "plain s" "big L b"
    and "length (blk_Hash L b) = 32" "length bs + 32 \<le> 10000"
  shows "\<exists>v'. ParseBlock L bs v = (Done (parse_answer L b s), v') \<and> wb_inv L (wrappedBlocks v')
    \<and> bytes_ids (wrappedBlocks v') bs = Some (blk_Hash L b) \<and> lookup (wrappedBlocks v') (blk_Hash L b) = None"
proof -
  let ?k = "blk_Hash L b" and ?st = "NewWrappedBlocksStorage L h"
  define st1 where "st1 = put_bytes_id bs ?k ?st"
  define st2 where "st2 = snd (new_wrapped b s st1)"
  define p where "p = fst (new_wrapped b s st1)"
  define st3 where "st3 = evict_missing ?k (if s = STATUS_PROCESSING then put_unverified L ?k p st2 else put_decided L ?k p st2)"
  have i0: "wb_inv L ?st" by (rule NewWrappedBlocksStorage_inv)
  have i1: "wb_inv L st1" unfolding st1_def by (rule put_bytes_id_spec [OF i0 assms(5,2)]) simp
  note n = new_wrapped_spec [OF i1, of b s, folded st2_def p_def]
  have i3: "wb_inv L st3" unfolding st3_def
    using put_unverified_spec(1) [OF n(1) n(3) [OF assms(5)]] put_decided_spec(1) [OF n(1) n(3) [OF assms(5)]] n(2) assms(3)
    by (auto intro: missing_ops_spec(1))
  have id: "bytes_ids st1 bs = Some ?k"
    using i0 assms(6) unfolding st1_def bytes_ids_def put_bytes_id_def
    by (simp add: slru_put_fits wb_inv_def NewWrappedBlocksStorage_def fresh_slru cachedBlockBytesSize_def)
  have frame: "VerifiedBlocks st3 = Map.empty" "bytes_ids st3 bs = Some ?k"
    using id by (simp_all add: st3_def st2_def evict_missing_def put_unverified_def put_decided_def new_wrapped_def)
      (simp_all add: st1_def put_bytes_id_def NewWrappedBlocksStorage_def)
  have old: "decided st2 = Map.empty" "unverified st2 = Map.empty" "maxSize (DecidedBlocks st2) = 10000" "maxSize (UnverifiedBlocks st2) = 10000"
    by (simp_all add: st2_def new_wrapped_def st1_def put_bytes_id_def NewWrappedBlocksStorage_def decided_def unverified_def fresh_slru)
  have size: "10000 < cachedBlockSize L (wHeap st2) ?k p" using big_size [OF assms(4,3), of "wHeap st2" p] n(2) by simp
  have "decided st3 = Map.empty \<and> unverified st3 = Map.empty"
    using old size slru_put_too_big [of "sized L st2 (DecidedBlocks st2)" ?k p] slru_put_too_big [of "sized L st2 (UnverifiedBlocks st2)" ?k p]
    by (simp add: st3_def put_unverified_def put_decided_def evict_missing_def) (simp add: decided_def unverified_def)
  then have "lookup st3 ?k = None" using frame(1) by (simp add: lookup_def)
  moreover have "get_bytes_id bs ?st = (None, ?st)" "GetCachedBlock ?k st1 = (None, st1)"
    by (simp_all add: get_bytes_id_def GetCachedBlock_def st1_def put_bytes_id_def NewWrappedBlocksStorage_def fresh_slru)
  then have "ParseBlock L bs v = (Done (parse_answer L b s), v\<lparr>wrappedBlocks := st3\<rparr>)"
    using assms(1,2,3,5) by (auto simp: ParseBlock_def parse_id_def p_bind_def with_blocks_def on_blocks_def p_ToID_def ToID_def plain_def
      st1_def [symmetric] st2_def [symmetric] p_def [symmetric] split_def st3_def)
  ultimately show ?thesis using frame(2) i3 by simp
qed

subsection \<open>Handlers that succeed\<close>

lemma file_built_ok:
  assumes "EncodeBlockWithStatus L b STATUS_PROCESSING = Inr bs" "length (blk_Hash L b) = 32"
  shows "\<exists>v'. file_built L b v = (Done \<lparr>rbId = blk_Hash L b, rbParentId = hash_bytes (bLastBlockID b), rbBytes = bs,
       rbHeight = of_int (bHeight b), rbTimestamp = bTime b\<rparr>, v')"
  using assms by (simp add: file_built_def p_bind_def p_ToID_def ToID_def on_blocks_def with_blocks_def split_def)

lemma accept_cached_ok:
  assumes "blk_PartSetHeader L b = Inr psh" "ApplyBlock L X (cState v) (block_id_of L b psh) b (vmCalls v) = (Done s', tr)"
    and "bs_SaveBlock X tr b" "saves_ok X"
  shows "\<exists>v'. accept_cached L X k b v = (Done (), v')"
  using assms by (simp add: accept_cached_def record_accepted_def p_bind_def lift_exec_def save_block_def saves_ok_def on_blocks_def with_blocks_def split_def)

lemma BlockAccept_ok:
  assumes "wb_inv L (wrappedBlocks v)" "lookup (wrappedBlocks v) k = Some p" "wBlock (wHeap (wrappedBlocks v) p) = b" "length k = 32"
    and "blk_PartSetHeader L b = Inr psh" "ApplyBlock L X (cState v) (block_id_of L b psh) b (vmCalls v) = (Done s', tr)"
    and "bs_SaveBlock X tr b" "saves_ok X"
  shows "\<exists>v'. BlockAccept L X k v = (Done (), v')"
proof -
  obtain r st where g: "GetCachedBlock k (wrappedBlocks v) = (r, st)" by fastforce
  note s = GetCachedBlock_spec [OF assms(1), of k, unfolded g, simplified]
  have "\<exists>v'. accept_cached L X k b (v\<lparr>wrappedBlocks := st\<rparr>) = (Done (), v')"
    by (rule accept_cached_ok [OF assms(5) _ assms(7,8)]) (use assms(6) in simp)
  then show ?thesis
    using g s(1,2) assms(2-4) by (simp add: BlockAccept_def p_bind_def p_ToID_def ToID_def with_blocks_def deref_def same_def)
qed

lemma BlockVerify_ok:
  assumes "DecodeBlockWithStatus L bs = Inr (b, s)" "ValidateBlock L (cState v) b = None" "length (blk_Hash L b) = 32"
  shows "BlockVerify L bs v = (Done (bTime b), v\<lparr>wrappedBlocks :=
    (let st = evict_unverified L (blk_Hash L b) (wrappedBlocks v)
     in verify_block (blk_Hash L b) (fst (new_wrapped b s st)) (snd (new_wrapped b s st)))\<rparr>)"
  using assms by (simp add: BlockVerify_def p_bind_def p_ToID_def ToID_def on_blocks_def with_blocks_def split_def Let_def)

end
