(* ===== verification/VM_Claims.thy ===== *)
theory VM_Claims
  imports VM_Properties
begin

text \<open>
  The properties of the virtual machine, each with a concrete run: one validator, a chain whose first block is
  stored, and a block store that answers from the calls made so far.
\<close>

subsection \<open>A small instance of the code outside\<close>

definition demo_parts :: part_set_header where
  "demo_parts = \<lparr>pshTotal = 1, pshHash = []\<rparr>"

definition demo_val :: validator where
  "demo_val = \<lparr>valAddress = replicate 20 0, valPubKey = [], valPower = 1, valPriority = 0\<rparr>"

definition demo_params :: consensus_params where
  "demo_params = \<lparr>cpBlockMaxBytes = 1000, cpBlockMaxGas = 100, cpEvidenceMaxBytes = 10, cpPubKeyTypes = [], cpVersionApp = 0, cpVoteExtensionsHeight = 0\<rparr>"

text \<open>The hash of a block is its height, padded to 32 bytes.\<close>

definition demo_hash :: "comet_block \<Rightarrow> bytes" where
  "demo_hash b = of_int (bHeight b) # replicate 31 0"

fun first_time :: "(gotime \<times> int) option list \<Rightarrow> gotime" where
  "first_time [] = 0"
| "first_time (None # ws) = first_time ws"
| "first_time (Some (t, p) # ws) = t"

definition demo_find :: "valset \<Rightarrow> bytes \<Rightarrow> validator option" where
  "demo_find vals a = find (\<lambda>w. valAddress w = a) vals"

definition demo_time :: "comet_state \<Rightarrow> int \<Rightarrow> comet_commit \<Rightarrow> gotime" where
  "demo_time s h c = (if h = sInitialHeight s then sLastBlockTime s
     else first_time (map (\<lambda>g. if csFlag g = FlagAbsent then None else map_option (\<lambda>w. (csTime g, valPower w)) (demo_find (sLastValidators s) (csAddress g))) (cmSignatures c)))"

definition demo_make :: "comet_state \<Rightarrow> int \<Rightarrow> bytes list \<Rightarrow> comet_commit \<Rightarrow> bytes \<Rightarrow> comet_block" where
  "demo_make s h txs c a = \<lparr>bHeader = \<lparr>hVersionBlock = sVersionBlock s, hVersionApp = sVersionApp s, hChainID = sChainID s, hHeight = h,
       hTime = demo_time s h c, hLastBlockID = sLastBlockID s, hValidatorsHash = [], hNextValidatorsHash = [],
       hConsensusHash = [], hAppHash = sAppHash s, hLastResultsHash = sLastResultsHash s, hProposerAddress = a\<rparr>,
     bTxs = txs, bEvidence = [], bLastCommit = c\<rparr>"

definition demo_genesis :: comet_state where
  "demo_genesis = \<lparr>sVersionBlock = 0, sVersionApp = 0, sSoftware = '''', sChainID = ''demo'', sInitialHeight = 1, sLastBlockHeight = 0,
     sLastBlockID = \<lparr>bidHash = None, bidParts = demo_parts\<rparr>, sLastBlockTime = 10, sNextValidators = [demo_val], sValidators = [demo_val],
     sLastValidators = [], sLastHeightValidatorsChanged = 1, sConsensusParams = demo_params, sLastHeightParamsChanged = 1,
     sLastResultsHash = [], sAppHash = []\<rparr>"

definition demo_b1 :: comet_block where
  "demo_b1 = demo_make demo_genesis 1 [] \<lparr>cmHeight = 0, cmRound = 0, cmBlockID = sLastBlockID demo_genesis, cmSignatures = []\<rparr> proposerAddress"

definition demo_state :: comet_state where
  "demo_state = demo_genesis\<lparr>sLastBlockHeight := 1, sLastBlockID := \<lparr>bidHash = Some (demo_hash demo_b1), bidParts = demo_parts\<rparr>,
     sLastValidators := [demo_val], sAppHash := [7]\<rparr>"

definition demo_commit :: "ext_commit \<Rightarrow> comet_commit" where
  "demo_commit ec = \<lparr>cmHeight = ecHeight ec, cmRound = ecRound ec, cmBlockID = ecBlockID ec, cmSignatures = map ecsSig (ecSignatures ec)\<rparr>"

definition demo_b2 :: comet_block where
  "demo_b2 = demo_make demo_state 2 [[5]] (demo_commit (last_commit demo_state (\<lambda>_. 20) (\<lambda>_. [1]))) proposerAddress"

text \<open>Only the two blocks of the run have an encoding.\<close>

definition demo_encode :: "comet_block \<Rightarrow> (nat, bytes) go_result" where
  "demo_encode b = (if b = demo_b1 then Inr [1] else if b = demo_b2 then Inr [2] else Inl 0)"

definition demo_decode :: "bytes \<Rightarrow> (nat, comet_block) go_result" where
  "demo_decode bs = (if bs = [1] then Inr demo_b1 else if bs = [2] then Inr demo_b2 else Inl 0)"

definition demo_json :: "bytes \<times> vm_status \<Rightarrow> (nat, bytes) go_result" where
  "demo_json = (\<lambda>(bs, s). case s of STATUS_PROCESSING \<Rightarrow> Inr (1 # bs) | STATUS_REJECTED \<Rightarrow> Inr (2 # bs) | STATUS_ACCEPTED \<Rightarrow> Inr (3 # bs) | _ \<Rightarrow> Inl 0)"

definition demo_unjson :: "bytes \<Rightarrow> (nat, bytes \<times> vm_status) go_result" where
  "demo_unjson bs = (case bs of [] \<Rightarrow> Inl 0
     | x # xs \<Rightarrow> if x = 1 then Inr (xs, STATUS_PROCESSING) else if x = 2 then Inr (xs, STATUS_REJECTED) else if x = 3 then Inr (xs, STATUS_ACCEPTED) else Inl 0)"

definition demo_comet :: "nat \<Rightarrow> comet" where
  "demo_comet n = \<lparr>AddressSize = 20, MaxBlockSizeBytes = 10000, blk_Hash = demo_hash, blk_HashesTo = (\<lambda>b h. demo_hash b = h),
     blk_ValidateBasic = (\<lambda>b. if 0 < bHeight b then None else Some 0), blk_PartSetHeader = (\<lambda>b. Inr demo_parts),
     blk_ToBytes = demo_encode, blk_FromBytes = demo_decode, blk_JSONLen = (\<lambda>b. Some n), json_Marshal = demo_json, json_Unmarshal = demo_unjson,
     bid_Equals = (=), ev_ByteSize = (\<lambda>_. 0), ev_ToABCI = id, cp_Hash = (\<lambda>_. []), cp_Update = (\<lambda>p _. p), cp_ValidateBasic = (\<lambda>_. None),
     cp_ValidateUpdate = (\<lambda>_ _ _. None), cp_VoteExtensionsEnabled = (\<lambda>_ _. False), vals_Hash = (\<lambda>_. []), vals_GetByAddress = demo_find,
     vals_UpdateWithChangeSet = (\<lambda>vs _. Inr vs), vals_IncrementPriority = (\<lambda>vs _. vs), WeightedMedian = (\<lambda>ws _. first_time ws),
     TxResultsHash = (\<lambda>_. []), MaxDataBytes = (\<lambda>m _ _. m), MaxDataBytesNoEvidence = (\<lambda>m _. m), Txs_Validate = (\<lambda>_ _. None),
     ec_ToCommit = demo_commit, ecs_EnsureExtension = (\<lambda>_ _. None), st_MakeBlock = demo_make, st_Bytes = (\<lambda>_. []), PubKeyFromProto = Inr,
     pk_Type = (\<lambda>_. ''''), IsValidPubkeyType = (\<lambda>_ _. True), PB2TM_ValidatorUpdates = (\<lambda>_. Inr []), TM2PB_Validator = (\<lambda>w. (valAddress w, valPower w))\<rparr>"

definition demo_outside :: "valset \<Rightarrow> outside" where
  "demo_outside vals = \<lparr>app_FinalizeBlock = (\<lambda>_ rq. Inr \<lparr>frTxResults = rqTxs rq, frValidatorUpdates = [], frParamUpdates = None, frAppHash = [8], frEvents = []\<rparr>),
     app_Commit = (\<lambda>_. Inr 0), app_PrepareProposal = (\<lambda>_ rq. Inr (pqTxs rq)), app_ProcessProposal = (\<lambda>_ _. Inr StatusAccept),
     app_ExtendVote = (\<lambda>_ _. Inr []), app_VerifyVoteExtension = (\<lambda>_ _. Inr StatusAccept), mp_Reap = (\<lambda>_ _ _. [[5]]), mp_FlushAppConn = (\<lambda>_. None),
     mp_Update = (\<lambda>_. None), ss_SaveResponse = (\<lambda>_. None), ss_Save = (\<lambda>_. None), ss_LoadValidators = (\<lambda>_ _. Inr vals), ss_PruneStates = (\<lambda>_. None),
     bs_Base = (\<lambda>_. 0), bs_PruneBlocks = (\<lambda>_ _. Inr (0, 0)),
     bs_SaveBlock = (\<lambda>tr b. saved_blocks tr = [] \<or> bHeight b = bHeight (last (saved_blocks tr)) + 1),
     bs_LoadBlock = (\<lambda>tr h. find (\<lambda>b. bHeight b = h) (rev (saved_blocks tr))),
     bs_LoadBlockByHash = (\<lambda>tr h. find (\<lambda>b. demo_hash b = h) (rev (saved_blocks tr))), bus_Publish = (\<lambda>_. None)\<rparr>"

definition demo_config :: VMConfig where
  "demo_config = SetDefaults \<lparr>NetworkName = '''', TimeoutBroadcastTxCommit = 0, cfgConsensusParams = \<lparr>Block_MaxBytes = 0, Block_MaxGas = 0, Evidence_MaxBytes = 0\<rparr>, MaxSubscriptionClients = 0, MaxSubscriptionsPerClient = 0\<rparr>"

definition demo_vm :: "comet \<Rightarrow> LandslideVM" where
  "demo_vm L = \<lparr>allowShutdown = NewAtomic False, bootstrapped = NewAtomic False, vmenabled = NewAtomic False, vmconnected = NewAtomic False,
     vmState = NewAtomic STATE_UNSPECIFIED, closedChan = Some False, services = [], serverCloser = \<lparr>scClosed = False, scServers = []\<rparr>,
     connCloser = \<lparr>closers = []\<rparr>, preferred = replicate 32 0, vmConfig = demo_config, cState = demo_state,
     wrappedBlocks = NewWrappedBlocksStorage L (\<lambda>_. \<lparr>wBlock = demo_b1, wStatus = STATUS_UNSPECIFIED\<rparr>),
     vmCalls = [CSaveBlock demo_b1 demo_parts \<lparr>cmHeight = 1, cmRound = 0, cmBlockID = sLastBlockID demo_state, cmSignatures = []\<rparr>]\<rparr>"

abbreviation demo_L :: comet where "demo_L \<equiv> demo_comet 100"
abbreviation demo_X :: outside where "demo_X \<equiv> demo_outside [demo_val]"

subsection \<open>The instance keeps the laws\<close>

lemma demo_fields [simp]:
  "AddressSize (demo_comet n) = 20" "blk_Hash (demo_comet n) = demo_hash" "blk_ToBytes (demo_comet n) = demo_encode"
  "blk_FromBytes (demo_comet n) = demo_decode" "json_Marshal (demo_comet n) = demo_json" "json_Unmarshal (demo_comet n) = demo_unjson"
  "bid_Equals (demo_comet n) = (=)" "blk_PartSetHeader (demo_comet n) = (\<lambda>b. Inr demo_parts)" "blk_JSONLen (demo_comet n) = (\<lambda>b. Some n)"
  "blk_ValidateBasic (demo_comet n) = (\<lambda>b. if 0 < bHeight b then None else Some 0)" "vals_GetByAddress (demo_comet n) = demo_find"
  "WeightedMedian (demo_comet n) = (\<lambda>ws _. first_time ws)" "st_MakeBlock (demo_comet n) = demo_make" "ec_ToCommit (demo_comet n) = demo_commit"
  "vals_Hash (demo_comet n) = (\<lambda>_. [])" "cp_Hash (demo_comet n) = (\<lambda>_. [])" "ev_ByteSize (demo_comet n) = (\<lambda>_. 0)"
  by (simp_all add: demo_comet_def)

lemma demo_store_fields [simp]:
  "bs_LoadBlockByHash (demo_outside vs) = (\<lambda>tr h. find (\<lambda>b. demo_hash b = h) (rev (saved_blocks tr)))"
  "bs_SaveBlock (demo_outside vs) = (\<lambda>tr b. saved_blocks tr = [] \<or> bHeight b = bHeight (last (saved_blocks tr)) + 1)"
  "ss_Save (demo_outside vs) = (\<lambda>_. None)" "ss_LoadValidators (demo_outside vs) = (\<lambda>_ _. Inr vs)"
  by (simp_all add: demo_outside_def)

lemma length_demo_hash [simp]: "length (demo_hash b) = 32"
  by (simp add: demo_hash_def)

lemma demo_store_laws: "store_laws (demo_comet n) (demo_outside vs)"
  by (auto simp: store_laws_def contiguous_def positive_heights_def loads_by_hash_def find_Some_iff split: if_splits)

lemma demo_known: "known_by_saving (demo_comet n) (demo_outside vs)"
  unfolding known_by_saving_def demo_fields demo_store_fields find_None_iff by (force split: option.splits)

lemma demo_saved: "saved_is_known (demo_comet n) (demo_outside vs)" "saves_ok (demo_outside vs)"
  by (simp_all add: saved_is_known_def saves_ok_def)

lemma demo_encode_decode: "demo_encode b = Inr x \<Longrightarrow> demo_decode x = Inr b"
  unfolding demo_encode_def by (cases "b = demo_b1"; cases "b = demo_b2") (auto simp: demo_decode_def)

lemma demo_json_unjson: "demo_json (bs, s) = Inr x \<Longrightarrow> demo_unjson x = Inr (bs, s)"
  by (cases s) (auto simp: demo_json_def demo_unjson_def)

lemma demo_codec:
  assumes "EncodeBlockWithStatus (demo_comet n) b s = Inr bs"
  shows "DecodeBlockWithStatus (demo_comet n) bs = Inr (b, s)"
proof -
  obtain x where "demo_encode b = Inr x" "demo_json (x, s) = Inr bs"
    using assms unfolding EncodeBlockWithStatus_def EncodeBlock_def demo_fields res_bind_Inr_iff by blast
  then show ?thesis using demo_encode_decode demo_json_unjson by (simp add: DecodeBlockWithStatus_def DecodeBlock_def)
qed

lemma first_time_in: "Some x \<in> set ws \<Longrightarrow> \<exists>p. Some (first_time ws, p) \<in> set ws"
  by (induction ws rule: first_time.induct) auto

lemma demo_weights: "fst (median_loop L vals sigs acc) = map (weighted_time L vals) sigs"
  by (induction sigs arbitrary: acc) (simp_all add: Let_def split_def)

lemma demo_weighted: "weighted_time (demo_comet n) vals =
    (\<lambda>g. if csFlag g = FlagAbsent then None else map_option (\<lambda>w. (csTime g, valPower w)) (demo_find vals (csAddress g)))"
  by (rule ext) (simp add: weighted_time_def)

lemma demo_median: "MedianTime (demo_comet n) c vals = first_time (map (weighted_time (demo_comet n) vals) (cmSignatures c))"
  by (simp add: MedianTime_def split_def demo_weights)

lemma demo_comet_laws: "comet_laws (demo_comet n)"
proof -
  have "make_block_law (demo_comet n)"
    by (simp add: make_block_law_def demo_make_def demo_time_def demo_median demo_weighted)
  moreover have "median_law (demo_comet n)" using first_time_in by (auto simp: median_law_def)
  ultimately show ?thesis using demo_codec by (auto simp: comet_laws_def demo_commit_def)
qed

subsection \<open>A run\<close>

lemma demo_started: "started (demo_comet n) (demo_vm (demo_comet n))"
  by (auto simp: started_def demo_vm_def tip_ok_def block_id_of_def) (simp_all add: demo_state_def demo_genesis_def demo_b1_def demo_make_def demo_time_def)

definition demo_v1 :: LandslideVM where
  "demo_v1 = snd (BlockVerify demo_L [1, 2] (demo_vm demo_L))"

definition demo_v2 :: LandslideVM where
  "demo_v2 = snd (BlockAccept demo_L demo_X (demo_hash demo_b2) demo_v1)"

lemma demo_valid: "ValidateBlock demo_L demo_state demo_b2 = None"
  by code_simp

lemma demo_applied:
  "\<exists>s' tr. ApplyBlock demo_L demo_X demo_state (block_id_of demo_L demo_b2 demo_parts) demo_b2 (vmCalls (demo_vm demo_L)) = (Done s', tr)"
proof -
  have "case fst (ApplyBlock demo_L demo_X demo_state (block_id_of demo_L demo_b2 demo_parts) demo_b2 (vmCalls (demo_vm demo_L))) of
    Done s' \<Rightarrow> True | _ \<Rightarrow> False"
    by code_simp
  then show ?thesis
    by (cases "ApplyBlock demo_L demo_X demo_state (block_id_of demo_L demo_b2 demo_parts) demo_b2 (vmCalls (demo_vm demo_L))") (auto split: outcome.splits)
qed

lemma demo_decoded: "DecodeBlockWithStatus (demo_comet n) [1, 2] = Inr (demo_b2, STATUS_PROCESSING)"
  by (simp add: DecodeBlockWithStatus_def DecodeBlock_def demo_unjson_def demo_decode_def)

lemma demo_vm_state [simp]: "cState (demo_vm L) = demo_state" "wrappedBlocks (demo_vm L) = NewWrappedBlocksStorage L (\<lambda>_. \<lparr>wBlock = demo_b1, wStatus = STATUS_UNSPECIFIED\<rparr>)"
  by (simp_all add: demo_vm_def)

lemma demo_verified: "BlockVerify demo_L [1, 2] (demo_vm demo_L) = (Done (bTime demo_b2), demo_v1)"
  using BlockVerify_ok [where v = "demo_vm demo_L", OF demo_decoded [of 100]] demo_valid unfolding demo_v1_def by (simp add: prod_eq_iff)

lemma demo_reach1: "vm_reach demo_L demo_X demo_v1"
proof (rule vm_reach.step [OF vm_reach.start [OF demo_started]])
  show "vm_exec demo_L demo_X (OpVerify [1, 2]) (demo_vm demo_L) = (Done (), demo_v1)" by (simp add: forget_def p_bind_def demo_verified)
qed simp

lemma demo_v1_fields:
  "cState demo_v1 = demo_state" "vmCalls demo_v1 = vmCalls (demo_vm demo_L)"
  "\<exists>p. lookup (wrappedBlocks demo_v1) (demo_hash demo_b2) = Some p \<and> wBlock (wHeap (wrappedBlocks demo_v1) p) = demo_b2"
  using BlockVerify_ok [where v = "demo_vm demo_L", OF demo_decoded [of 100]] demo_valid
  by (simp_all add: demo_v1_def Let_def lookup_def verify_block_def new_wrapped_def)

lemma demo_accepted: "BlockAccept demo_L demo_X (demo_hash demo_b2) demo_v1 = (Done (), demo_v2)"
proof -
  obtain s' tr where a: "ApplyBlock demo_L demo_X demo_state (block_id_of demo_L demo_b2 demo_parts) demo_b2 (vmCalls (demo_vm demo_L)) = (Done s', tr)"
    using demo_applied by blast
  obtain cs where "tr = vmCalls (demo_vm demo_L) @ cs" "saved_blocks cs = []"
    using quiet_ApplyBlock [of demo_L demo_X demo_state "block_id_of demo_L demo_b2 demo_parts" demo_b2] a unfolding quiet_def by (metis snd_conv)
  then have save: "bs_SaveBlock demo_X tr demo_b2"
    by (simp add: demo_vm_def) (simp add: demo_b1_def demo_b2_def demo_make_def)
  obtain p where "lookup (wrappedBlocks demo_v1) (demo_hash demo_b2) = Some p" "wBlock (wHeap (wrappedBlocks demo_v1) p) = demo_b2"
    using demo_v1_fields(3) by blast
  then have "\<exists>v. BlockAccept demo_L demo_X (demo_hash demo_b2) demo_v1 = (Done (), v)"
    using vm_inv_wb [OF vm_reach_inv [OF demo_store_laws demo_reach1]] a save demo_saved(2)
    by (intro BlockAccept_ok [where psh = demo_parts and s' = s' and tr = tr]) (simp_all add: demo_v1_fields(1,2))
  then show ?thesis by (auto simp: demo_v2_def)
qed

lemma demo_reach2: "vm_reach demo_L demo_X demo_v2"
  by (rule vm_reach.step [OF demo_reach1, of "OpAccept (demo_hash demo_b2)" "Done ()"]) (simp_all add: demo_accepted)

lemma demo_ready: "ready demo_L demo_state (\<lambda>_. 20)"
proof -
  have "demo_find [demo_val] a = Some w \<Longrightarrow> w = demo_val" for a w by (auto simp: demo_find_def split: if_splits)
  then show ?thesis
    by (simp add: ready_def demo_state_def demo_genesis_def demo_make_def demo_params_def) (auto simp: demo_find_def demo_val_def)
qed

lemma demo_built: "\<exists>r v'. BuildBlock demo_L demo_X (\<lambda>_. 20) (\<lambda>_. [1]) (demo_vm demo_L) = (Done r, v')"
proof -
  let ?m = "CreateProposalBlock demo_L demo_X (vm_executor (demo_vm demo_L)) (wrap64 (sLastBlockHeight demo_state + 1)) demo_state
    (last_commit demo_state (\<lambda>_. 20) (\<lambda>_. [1])) proposerAddress"
  have "case fst (?m (vmCalls (demo_vm demo_L))) of Done b \<Rightarrow> b = demo_b2 | _ \<Rightarrow> False" by code_simp
  then obtain tr where m: "?m (vmCalls (demo_vm demo_L)) = (Done demo_b2, tr)"
    by (cases "?m (vmCalls (demo_vm demo_L))") (auto split: outcome.splits)
  have "EncodeBlockWithStatus demo_L demo_b2 STATUS_PROCESSING = Inr [1, 2]" by code_simp
  from file_built_ok [OF this, of "demo_vm demo_L\<lparr>vmCalls := tr\<rparr>"] m show ?thesis
    by (auto simp: BuildBlock_def Let_def p_bind_def lift_exec_def)
qed

lemma demo_at: "accepted_at demo_L demo_X demo_b2 demo_v2" "saved_blocks (vmCalls demo_v2) = [demo_b1, demo_b2]"
proof -
  obtain p where p: "lookup (wrappedBlocks demo_v1) (demo_hash demo_b2) = Some p" "wBlock (wHeap (wrappedBlocks demo_v1) p) = demo_b2"
    using demo_v1_fields(3) by blast
  obtain r st where g: "GetCachedBlock (demo_hash demo_b2) (wrappedBlocks demo_v1) = (r, st)" by fastforce
  note s = GetCachedBlock_spec [OF vm_inv_wb [OF vm_reach_inv [OF demo_store_laws demo_reach1]], of "demo_hash demo_b2", unfolded g, simplified]
  have "accept_cached demo_L demo_X (blk_Hash demo_L demo_b2) demo_b2 (demo_v1\<lparr>wrappedBlocks := st\<rparr>) = (Done (), demo_v2)"
    using demo_accepted g s(1,2) p by (simp add: BlockAccept_def p_bind_def p_ToID_def ToID_def with_blocks_def deref_def same_def)
  from accept_cached_Done [OF this] show "accepted_at demo_L demo_X demo_b2 demo_v2" "saved_blocks (vmCalls demo_v2) = [demo_b1, demo_b2]"
    using s(3) demo_saved(1) by (simp_all add: demo_v1_fields(2)) (simp add: demo_vm_def)
qed

lemma demo_get:
  "fst (GetBlock demo_L demo_X (demo_hash demo_b2) demo_v2) =
    (case EncodeBlockWithStatus demo_L demo_b2 STATUS_ACCEPTED of
       Inl e \<Rightarrow> Fail (LibErr e)
     | Inr bs \<Rightarrow> Done (Some \<lparr>rgParentId = hash_bytes (bLastBlockID demo_b2), rgBytes = bs, rgStatus = STATUS_ACCEPTED,
         rgHeight = of_int (bHeight demo_b2), rgTimestamp = bTime demo_b2\<rparr>))"
  using GetBlock_accepted [OF demo_at(1)] by simp

subsection \<open>Properties\<close>

text \<open>
  C1. In every run, the blocks the machine saves are a chain: each one has the next height, names
  the hash and parts of the one before it, and is not earlier; the state is at the last saved block, or
  behind it after a failed write of the state.
\<close>

theorem accepted_blocks_chain:
  assumes "store_laws L X" "vm_reach L X v" "Suc i < length (saved_blocks (vmCalls v))"
  shows "linked L (saved_blocks (vmCalls v) ! i) (saved_blocks (vmCalls v) ! Suc i)
    \<and> tip_ok L (cState v) (saved_blocks (vmCalls v))"
  using vm_reach_inv [OF assms(1,2)] assms(3) by (auto simp: vm_inv_def chain_inv_def successively_conv_nth)

theorem accepted_blocks_chain_witness:
  "saved_blocks (vmCalls demo_v2) = [demo_b1, demo_b2] \<and> linked demo_L demo_b1 demo_b2"
  using accepted_blocks_chain [OF demo_store_laws demo_reach2, of 0] by (simp add: demo_at(2))

text \<open>
  C2. After a successful \<open>BlockAccept\<close> of an id one block has been saved, it has that id, the state is at its height, and
  \<open>GetBlock\<close> of the id serves exactly this block with status accepted, from a cache or from the block store.
\<close>

theorem accept_then_get:
  assumes "store_laws L X" "saved_is_known L X" "vm_reach L X v" "BlockAccept L X bid v = (Done (), v')"
  shows "\<exists>b. blk_Hash L b = bid \<and> saved_blocks (vmCalls v') = saved_blocks (vmCalls v) @ [b] \<and> sLastBlockHeight (cState v') = bHeight b
    \<and> fst (GetBlock L X bid v') =
        (case EncodeBlockWithStatus L b STATUS_ACCEPTED of
           Inl e \<Rightarrow> Fail (LibErr e)
         | Inr bs \<Rightarrow> Done (Some \<lparr>rgParentId = hash_bytes (bLastBlockID b), rgBytes = bs, rgStatus = STATUS_ACCEPTED,
             rgHeight = of_int (bHeight b), rgTimestamp = bTime b\<rparr>))"
proof -
  obtain b where b: "blk_Hash L b = bid" "length bid = 32" "accepted_at L X b v'" "saved_blocks (vmCalls v') = saved_blocks (vmCalls v) @ [b]"
    using BlockAccept_Done [OF assms(4) vm_reach_inv [OF assms(1,3)] assms(2)] by blast
  then show ?thesis using GetBlock_accepted [OF b(3)] by (intro exI [of _ b]) (simp add: accepted_at_def)
qed

theorem accept_then_get_witness:
  "\<exists>b. demo_hash b = demo_hash demo_b2 \<and> saved_blocks (vmCalls demo_v2) = saved_blocks (vmCalls demo_v1) @ [b] \<and> sLastBlockHeight (cState demo_v2) = bHeight b"
  using accept_then_get [OF demo_store_laws demo_saved(1) demo_reach1 demo_accepted] by auto



text \<open>
  C18. In every run, a successful \<open>ParseBlock\<close> answers with the hash of the block its bytes decode to, whether the
  answer came from the byte cache, the block caches or the decoder.
\<close>

theorem parse_block_id:
  assumes "store_laws L X" "vm_reach L X v" "ParseBlock L bs v = (Done r, v')"
  shows "\<exists>b s. DecodeBlockWithStatus L bs = Inr (b, s) \<and> rpId r = blk_Hash L b"
  using hoareD(1) [OF hoare_ParseBlock vm_reach_inv [OF assms(1,2)] assms(3)] by blast

theorem parse_block_id_witness:
  "\<exists>r v'. ParseBlock (demo_comet 10000) [1, 2] (demo_vm (demo_comet 10000)) = (Done r, v') \<and> rpId r = demo_hash demo_b2"
proof -
  obtain v' where "ParseBlock (demo_comet 10000) [1, 2] (demo_vm (demo_comet 10000)) = (Done (parse_answer (demo_comet 10000) demo_b2 STATUS_PROCESSING), v')"
    using ParseBlock_big [OF demo_vm_state(2) demo_decoded [of 10000]] by (auto simp: big_def plain_def)
  with parse_block_id [OF demo_store_laws vm_reach.start [OF demo_started] this] show ?thesis by (auto simp: demo_decoded)
qed



text \<open>
  C36. \<open>BuildBlock\<close> signs the last commit with the validators of the next height: when their number differs from
  the validators the store has for the last height, as after any change of the set's size, it panics.
\<close>

theorem build_block_panics:
  assumes "sInitialHeight (cState v) \<le> sLastBlockHeight (cState v)"
    and "\<forall>tr. ss_LoadValidators X tr (sLastBlockHeight (cState v)) = Inr vals" "length vals \<noteq> length (sValidators (cState v))"
  shows "fst (BuildBlock L X now rnd v) = Panic"
  using assms by (rule BuildBlock_panics)

theorem build_block_panics_witness:
  "fst (BuildBlock demo_L (demo_outside [demo_val, demo_val]) (\<lambda>_. 20) (\<lambda>_. [1]) (demo_vm demo_L)) = Panic"
  by (rule build_block_panics [where vals = "[demo_val, demo_val]"]) (simp_all add: demo_state_def demo_genesis_def)



subsection \<open>Runs of the executor\<close>

theorem apply_block_success_witness:
  "\<exists>s' tr. ApplyBlock demo_L demo_X demo_state (block_id_of demo_L demo_b2 demo_parts) demo_b2 (vmCalls (demo_vm demo_L)) = (Done s', tr)
    \<and> sLastBlockHeight s' = bHeight demo_b2"
proof -
  obtain s' tr where a: "ApplyBlock demo_L demo_X demo_state (block_id_of demo_L demo_b2 demo_parts) demo_b2 (vmCalls (demo_vm demo_L)) = (Done s', tr)"
    using demo_applied by blast
  with apply_block_success [OF a] show ?thesis by blast
qed

theorem apply_block_order_witness:
  "\<exists>s' tr ev. ApplyBlock demo_L demo_X demo_state (block_id_of demo_L demo_b2 demo_parts) demo_b2 (vmCalls (demo_vm demo_L)) = (Done s', tr) \<and> CPublish ev \<in> set tr"
proof -
  obtain s' tr where a: "ApplyBlock demo_L demo_X demo_state (block_id_of demo_L demo_b2 demo_parts) demo_b2 (vmCalls (demo_vm demo_L)) = (Done s', tr)"
    using demo_applied by blast
  with apply_block_order [OF a] show ?thesis by auto
qed

end
