(* ===== verification/Spec2Isabelle.thy ===== *)
theory Spec2Isabelle
  imports Safe_Math Caches Packing Bimap Validator_Manager Validator_Codec VM_Claims
begin

text \<open>
  A verification development for the Slide SDK, a virtual machine that runs CometBFT applications on Avalanche subnets. Paths below
  are relative to \<open>src/\<close>.

  \<^bold>\<open>The program.\<close> An Avalanche node drives the virtual machine (\<open>vm/vm.go\<close>) over gRPC: it asks it to build, parse, verify, accept and
  serve blocks. The machine holds the CometBFT state, keeps blocks it has seen in caches (\<open>vm/types/state/wrapped_block.go\<close> over
  \<open>utils/cache\<close> over \<open>utils/linkedhashmap\<close>), and hands accepted blocks to the block executor (\<open>vm/types/state/executor.go\<close>), which
  calls the application, the mempool, the stores and the event bus. Storage is the node's, reached through \<open>database/\<close>. Two managers
  know the validators: \<open>utils/evm/warp/validators\<close> keeps weighted sets per subnet and tells listeners about changes, and
  \<open>utils/evm/validators\<close> keeps a persistent validator state together with the uptime of each validator, which
  \<open>utils/evm/validators/uptime\<close> and \<open>utils/avalanche/uptime\<close> account for. Messages and stored records are bytes of the reflection codec in
  \<open>utils/codec\<close>, over the packer of \<open>utils/wrappers\<close>.

  \<^bold>\<open>Conventions.\<close> A Go \<open>(T, error)\<close> is a sum with the error on the left, a struct a record, an enumeration a datatype. A run-time panic is
  \<open>None\<close> where the operation can panic. Unsigned integers are words of their width; \<open>int64\<close> durations are integers with their saturation
  and wrap-around written out. Where objects are shared and mutated, they live in an explicit store. A Go map iterated by the code is
  given as a list in the order of that iteration, and the properties hold for every order. A method that holds a lock from its
  first to its last statement is one step. The clock, random bytes, the growth of slices by \<open>append\<close> and all code outside the
  repository are arguments; what is relied on of them is a hypothesis of the properties that need it.

  \<^bold>\<open>The theories, from the bottom.\<close>

  \<^item> \<open>Slide_Prelude\<close>: machine types, results, procedures on a state with the rules of their Hoare triples (\<open>hoare_rules\<close>), facts on lists, maps
    and words.
  \<^item> \<open>Safe_Math\<close> (\<open>utils/math/safe_math.go\<close>): the checked operations succeed exactly when the result fits.
  \<^item> \<open>Bimap\<close> (\<open>utils/bimap/bimap.go\<close>): the two maps stay inverse; \<open>Put\<close> returns exactly what it displaced.
  \<^item> \<open>Packing\<close> (\<open>utils/wrappers/packing.go\<close>, \<open>errors.go\<close>): fields packed are read back, sizes stay bounded, and reading any size from any
    packer is safe.
  \<^item> \<open>Linked_Hashmap\<close> (\<open>utils/linkedhashmap\<close>): elements in a store, refined to an association list; the locale \<open>linked_hashmap\<close> is the interface
    the caches use.
  \<^item> \<open>Caches\<close> (\<open>utils/cache\<close>): the entry-bounded, the size-bounded and the empty cache as interpretations of the locale \<open>cacher\<close>; bounds and soundness,
    and a case in which the size account goes wrong.
  \<^item> \<open>Database\<close> (\<open>database/\<close>): batches mean their operations in order; what the iterator yields.
  \<^item> \<open>Validator_Set\<close>, \<open>Validator_Manager\<close> (\<open>utils/evm/warp/validators/set.go\<close>, \<open>manager.go\<close>): refinement to a map from subnets to weighted
    validators over all reachable managers (\<open>m_reach\<close>), exact sums of weights, listeners that mirror the manager.
  \<^item> \<open>Uptime\<close> (\<open>utils/avalanche/uptime/manager.go\<close>, \<open>utils/avalanche/timer/mockable/clock.go\<close>,
    \<open>utils/evm/validators/uptime/pausable_manager.go\<close>): the accounting over the locale \<open>uptime_state\<close>, which \<open>Validator_State\<close> interprets.
  \<^item> \<open>Validator_State\<close> (\<open>utils/evm/validators/state/state.go\<close>): the persistent state, its listeners and its marks of unwritten changes.
  \<^item> \<open>Validator_World\<close>, \<open>Validator_Runs\<close> (\<open>utils/evm/validators/manager.go\<close>): the state and the uptime manager calling each other, the reachable
    worlds \<open>w_reach\<close>, restart after a write, synchronisation with the current validator set, bounds on reported uptimes.
  \<^item> \<open>Codec\<close> (\<open>utils/codec\<close>: \<open>reflectcodec/type_codec.go\<close>, \<open>reflectcodec/struct_fielder.go\<close>, \<open>linearcodec/codec.go\<close>, \<open>manager.go\<close>): types and values of
    reflection, \<open>size\<close>, \<open>marshal\<close> and \<open>unmarshal\<close>. \<open>Codec_Encode\<close> gives the reference encoding \<open>enc\<close> and shows that marshalling writes it,
    \<open>Codec_Size\<close> that \<open>Size\<close> is its length, \<open>Codec_Decode\<close> that reading consumes it, \<open>Codec_Roundtrip\<close> that reading inverts it;
    \<open>Codec_Claims\<close> states this for the manager.
  \<^item> \<open>Validator_Codec\<close> (\<open>utils/evm/validators/state/codec.go\<close>): the codec of the validator state, built from \<open>Codec\<close>, has the round trip \<open>codec_ok\<close>
    that \<open>Validator_Runs\<close> assumes of a codec.
  \<^item> \<open>Comet_Types\<close>, \<open>VM_Types\<close> (\<open>vm/types\<close>): data shared with CometBFT, configuration, encoding and validation of blocks, commits.
  \<^item> \<open>Block_Executor\<close> (\<open>vm/types/state/executor.go\<close>): every call to the code outside, in order, on every outcome.
  \<^item> \<open>Wrapped_Blocks\<close> (\<open>vm/types/state/wrapped_block.go\<close>): the block caches, over \<open>Caches\<close>.
  \<^item> \<open>Landslide_VM\<close> (\<open>vm/vm.go\<close>): the handlers. \<open>VM_Runs\<close> has the runs \<open>vm_reach\<close> and their invariants, \<open>VM_Properties\<close> what follows for the
    engine, \<open>VM_Claims\<close> the properties and a concrete machine that satisfies their hypotheses.

  \<^bold>\<open>Loops and bounds.\<close> Every definition is total. The eviction loops of the caches recurse on a bound on the number of entries and
  are shown equal to the unbounded loop (\<open>while_option\<close>). The client loop over a database iterator runs for two rounds more than
  there are pending answers, which is enough because every \<open>Next\<close> consumes an answer or exhausts the iterator. \<open>unmarshal\<close> recurses on the
  type, and inside an interface on the registered types not yet entered, so its termination rests on the check for recursive
  interfaces in the code; its loops run for the length declared in the input, and a length beyond what remains fails as
  the input ends.

  \<^bold>\<open>Not modelled.\<close> \<open>Initialize\<close> of the machine, which constructs CometBFT objects and databases; \<open>vm/rpc.go\<close>, \<open>jsonrpc/\<close>, \<open>http/\<close>, \<open>grpcutils/\<close> and
  \<open>server/\<close>, which move requests between transports; \<open>proto/\<close>, which is generated; the peer-to-peer network, its routing and
  timeouts, whose behaviour is the interleaving of goroutines, sockets and timers; cryptography, certificates, signing and
  aggregation of warp messages, which rest on a C library; metrics, averagers and uptime percentages, which are floating
  point; samplers and bloom filters, which are random or rest on hash functions; the ticker loop of \<open>DispatchSync\<close>; logging and
  printing; the goroutine behind the database iterator, of which the model has the answers it delivers.
\<close>

end
